(* ===== verification/Prelude.thy ===== *)
theory Prelude
  imports Main "HOL-Library.Word"
begin

text \<open>
  The shared vocabulary of the development: the C integer types as words, the outcome of a
  kernel routine that may panic or never return, the counted loops of the C sources
  (\<^verbatim>\<open>for (i = a; i < n; i++)\<close> with and without an early exit) and the lemmas on words,
  loops and lists that the component theories use.
\<close>

unbundle bit_operations_syntax

type_synonym u8 = "8 word"
type_synonym u16 = "16 word"
type_synonym u32 = "32 word"
type_synonym u64 = "64 word"

named_theorems outcome_simps \<open>how outcomes propagate through a sequence of calls\<close>
named_theorems frame_simps \<open>what an operation leaves unchanged\<close>

section \<open>Outcomes\<close>

text \<open>
  A routine returns (\<open>Ok\<close>), calls \<^verbatim>\<open>panic\<close> and halts the machine (\<open>Panic\<close>, with the
  message and the state in which \<^verbatim>\<open>panic\<close> was called), or loops forever (\<open>Hang\<close>).
\<close>

datatype ('a, 's) outcome = Ok 'a 's | Panic string 's | Hang

fun kbind :: "('a, 's) outcome \<Rightarrow> ('a \<Rightarrow> 's \<Rightarrow> ('b, 's) outcome) \<Rightarrow> ('b, 's) outcome" where
  "kbind (Ok a s) f = f a s"
| "kbind (Panic m s) f = Panic m s"
| "kbind Hang f = Hang"

definition kassert :: "bool \<Rightarrow> string \<Rightarrow> 's \<Rightarrow> (unit, 's) outcome" where
  "kassert c msg s = (if c then Ok () s else Panic msg s)"

lemma kbind_Ok_iff [outcome_simps]:
  "kbind r f = Ok b t \<longleftrightarrow> (\<exists>a s. r = Ok a s \<and> f a s = Ok b t)"
  by (cases r) auto

lemma kassert_Ok_iff [outcome_simps]: "kassert c m s = Ok u t \<longleftrightarrow> c \<and> t = s"
  by (auto simp: kassert_def)

lemma kassert_True [simp]: "kassert True m s = Ok () s"
  by (simp add: kassert_def)

lemma kassert_False [simp]: "kassert False m s = Panic m s"
  by (simp add: kassert_def)

fun run_state :: "('a, 's) outcome \<Rightarrow> 's option" where
  "run_state (Ok a s) = Some s"
| "run_state (Panic m s) = Some s"
| "run_state Hang = None"

text \<open>
  Loops whose body may return from the enclosing routine: \<open>Ok (Some r)\<close> is a \<^verbatim>\<open>return\<close>,
  \<open>Ok None\<close> goes on. \<open>for_list\<close> runs over a list of counter values, \<open>for_dyn_out\<close> counts up to a
  bound that is read again before every round.
\<close>

fun for_list ::
  "'x list \<Rightarrow> ('x \<Rightarrow> 's \<Rightarrow> ('r option, 's) outcome) \<Rightarrow> 's \<Rightarrow> ('r option, 's) outcome" where
  "for_list [] f s = Ok None s"
| "for_list (x # xs) f s = kbind (f x s) (\<lambda>r s'.
     case r of None \<Rightarrow> for_list xs f s' | Some v \<Rightarrow> Ok (Some v) s')"

section \<open>Counted loops\<close>

text \<open>\<^verbatim>\<open>for (i = a; i < n; i++) body\<close> on an unsigned counter.\<close>

function for_range ::
  "'w::len word \<Rightarrow> 'w word \<Rightarrow> ('w word \<Rightarrow> 's \<Rightarrow> 's) \<Rightarrow> 's \<Rightarrow> 's" where
  "for_range i n f s = (if i < n then for_range (i + 1) n f (f i s) else s)"
  by pat_completeness auto

lemma unat_Suc_less:
  fixes i n :: "'w::len word"
  assumes "i < n"
  shows "unat (i + 1) = Suc (unat i)"
proof -
  have "unat i < unat n" using assms by (simp add: word_less_nat_alt)
  moreover have "unat n < 2 ^ LENGTH('w)" by simp
  ultimately have "Suc (unat i) < 2 ^ LENGTH('w)" by linarith
  then show ?thesis by (simp add: unat_word_ariths)
qed

termination for_range
  by (relation "measure (\<lambda>(i, n, f, s). unat n - unat i)")
    (auto simp: unat_Suc_less word_less_nat_alt)

declare for_range.simps [simp del]

text \<open>The loop whose bound is read again from the state before every iteration.\<close>

function for_dyn ::
  "'w::len word \<Rightarrow> ('s \<Rightarrow> 'w word) \<Rightarrow> ('w word \<Rightarrow> 's \<Rightarrow> 's) \<Rightarrow> 's \<Rightarrow> 's" where
  "for_dyn i n f s = (if i < n s then for_dyn (i + 1) n f (f i s) else s)"
  by pat_completeness auto

lemma unat_Suc_dec:
  fixes i n :: "'w::len word"
  assumes "i < n"
  shows "unat (- 1 - (i + 1)) < unat (- 1 - i)"
proof -
  have "unat (i + 1) \<le> unat (- 1 :: 'w word)"
    by (simp only: word_le_nat_alt [symmetric] word_order.extremum)
  then show ?thesis
    using unat_Suc_less [OF assms] unat_sub [of "i + 1" "- 1"] unat_sub [of i "- 1"]
    by (simp only: word_order.extremum)
qed

termination for_dyn
  by (relation "measure (\<lambda>(i, n, f, s). unat (- 1 - i))") (auto dest: unat_Suc_dec)

declare for_dyn.simps [simp del]

lemma for_dyn_const:
  assumes "n s = b" and "\<And>i t. n t = b \<Longrightarrow> i < b \<Longrightarrow> n (f i t) = b"
  shows "for_dyn i n f s = for_range i b f s"
  using assms
proof (induction i b f s rule: for_range.induct)
  case (1 i b f s)
  then show ?case
    by (subst for_dyn.simps, subst for_range.simps) auto
qed

lemma for_dyn_invariant:
  fixes a b :: "'w::len word"
  assumes "P a s" and "a \<le> b"
    and "\<And>k t. P k t \<Longrightarrow> n t = b"
    and "\<And>k t. a \<le> k \<Longrightarrow> k < b \<Longrightarrow> P k t \<Longrightarrow> P (k + 1) (f k t)"
  shows "P b (for_dyn a n f s)"
  using assms
proof (induction a n f s rule: for_dyn.induct)
  case (1 i n f s)
  show ?case
  proof (cases "i < b")
    case True
    then have "i + 1 \<le> b" "i \<le> i + 1"
      using unat_Suc_less [OF True] by (auto simp: word_le_nat_alt word_less_nat_alt)
    then show ?thesis
      using True 1 by (subst for_dyn.simps) (auto intro: order_trans)
  next
    case False
    then show ?thesis using 1 by (subst for_dyn.simps) auto
  qed
qed

function for_dyn_out ::
  "'w::len word \<Rightarrow> ('s \<Rightarrow> 'w word) \<Rightarrow> ('w word \<Rightarrow> 's \<Rightarrow> ('r option, 's) outcome) \<Rightarrow> 's
     \<Rightarrow> ('r option, 's) outcome" where
  "for_dyn_out i n f s =
     (if i < n s
      then (case f i s of
              Ok None s' \<Rightarrow> for_dyn_out (i + 1) n f s'
            | Ok (Some r) s' \<Rightarrow> Ok (Some r) s'
            | Panic m s' \<Rightarrow> Panic m s'
            | Hang \<Rightarrow> Hang)
      else Ok None s)"
  by pat_completeness auto

termination for_dyn_out
  by (relation "measure (\<lambda>(i, n, f, s). unat (- 1 - i))") (auto dest: unat_Suc_dec)

declare for_dyn_out.simps [simp del]

text \<open>The same loop with \<^verbatim>\<open>if (P(i)) return/break\<close> as its body: the first hit.\<close>

function find_range :: "'w::len word \<Rightarrow> 'w word \<Rightarrow> ('w word \<Rightarrow> bool) \<Rightarrow> 'w word option" where
  "find_range i n P =
     (if i < n then if P i then Some i else find_range (i + 1) n P else None)"
  by pat_completeness auto

termination find_range
  by (relation "measure (\<lambda>(i, n, P). unat n - unat i)")
    (auto simp: unat_Suc_less word_less_nat_alt)

declare find_range.simps [simp del]

lemma find_range_Some_iff:
  "find_range i n P = Some j \<longleftrightarrow>
     i \<le> j \<and> j < n \<and> P j \<and> (\<forall>k. i \<le> k \<and> k < j \<longrightarrow> \<not> P k)"
proof (induction i n P rule: find_range.induct)
  case (1 i n P)
  have step: "i \<le> k \<longleftrightarrow> i = k \<or> i + 1 \<le> k" if "i < n" for k
    using unat_Suc_less [OF that]
    by (auto simp: word_le_nat_alt word_unat_eq_iff)
  show ?case
  proof (cases "i < n")
    case True
    show ?thesis
    proof (cases "P i")
      case P: True
      have "j = i" if "i \<le> j" "\<forall>k. i \<le> k \<and> k < j \<longrightarrow> \<not> P k"
        using that P by (metis order.order_iff_strict order.refl)
      then show ?thesis
        using True P by (subst find_range.simps) auto
    next
      case False
      have lt: "i < i + 1" using unat_Suc_less [OF True] by (simp add: word_less_nat_alt)
      have "i \<le> j \<and> j < n \<and> P j \<and> (\<forall>k. i \<le> k \<and> k < j \<longrightarrow> \<not> P k) \<longleftrightarrow>
            i + 1 \<le> j \<and> j < n \<and> P j \<and> (\<forall>k. i + 1 \<le> k \<and> k < j \<longrightarrow> \<not> P k)"
        using step [OF True] False lt by (metis order.strict_trans1 less_imp_le)
      then show ?thesis
        using True False "1.IH" by (subst find_range.simps) simp
    qed
  next
    case False
    then show ?thesis by (subst find_range.simps) auto
  qed
qed

lemma find_range_None_iff:
  "find_range i n P = None \<longleftrightarrow> (\<forall>k. i \<le> k \<and> k < n \<longrightarrow> \<not> P k)"
proof (induction i n P rule: find_range.induct)
  case (1 i n P)
  have step: "i \<le> k \<longleftrightarrow> i = k \<or> i + 1 \<le> k" if "i < n" for k
    using unat_Suc_less [OF that]
    by (auto simp: word_le_nat_alt word_unat_eq_iff)
  show ?case
  proof (cases "i < n")
    case True
    then show ?thesis
      using "1.IH" step by (subst find_range.simps) auto
  next
    case False
    then show ?thesis by (subst find_range.simps) auto
  qed
qed

lemma for_range_fold:
  "for_range i n f s = fold f (map of_nat [unat i..<unat n]) s"
proof (induction i n f s rule: for_range.induct)
  case (1 i n f s)
  show ?case
  proof (cases "i < n")
    case True
    then have "[unat i..<unat n] = unat i # [unat (i + 1)..<unat n]"
      by (simp add: unat_Suc_less upt_conv_Cons word_less_nat_alt)
    then show ?thesis
      using True "1.IH" by (subst for_range.simps) simp
  next
    case False
    then show ?thesis by (subst for_range.simps) (simp add: word_less_nat_alt)
  qed
qed

text \<open>The invariant rule for the loop: what holds before each iteration holds at the end.\<close>

lemma for_range_invariant:
  assumes "I i s" and "i \<le> n"
    and "\<And>k t. i \<le> k \<Longrightarrow> k < n \<Longrightarrow> I k t \<Longrightarrow> I (k + 1) (f k t)"
  shows "I n (for_range i n f s)"
  using assms
proof (induction i n f s rule: for_range.induct)
  case (1 i n f s)
  show ?case
  proof (cases "i < n")
    case True
    note S = unat_Suc_less [OF True]
    have le: "i + 1 \<le> n" using S True by (simp add: word_le_nat_alt word_less_nat_alt)
    have "i \<le> i + 1" using S by (simp add: word_le_nat_alt)
    then have "I n (for_range (i + 1) n f (f i s))"
      using "1.IH" [OF True] "1.prems" True le by (meson order.trans order.refl)
    then show ?thesis using True by (subst for_range.simps) simp
  next
    case False
    then show ?thesis using "1.prems" by (subst for_range.simps) (auto dest: order.antisym)
  qed
qed

section \<open>Words\<close>

lemma unat_of_nat_u64 [simp]: "n < 2 ^ 64 \<Longrightarrow> unat (of_nat n :: u64) = n"
  by (simp add: unat_of_nat)

lemma unat_u64_less: "unat (x :: u64) < 18446744073709551616"
  using unsigned_less [of x, where ?'a = nat] by simp

lemma unat_u32_less: "unat (x :: u32) < 4294967296"
  using unsigned_less [of x, where ?'a = nat] by simp

text \<open>The address of the \<open>n\<close>-th 4 KiB frame.\<close>

definition page_addr :: "nat \<Rightarrow> u64" where
  "page_addr n = of_nat (4096 * n)"

lemma unat_page_addr: "n < 2 ^ 52 \<Longrightarrow> unat (page_addr n) = 4096 * n"
  unfolding page_addr_def by (intro unat_of_nat_u64) simp

lemma page_addr_inj: "n < 2 ^ 52 \<Longrightarrow> m < 2 ^ 52 \<Longrightarrow> page_addr n = page_addr m \<longleftrightarrow> n = m"
  by (metis unat_page_addr mult_cancel1 zero_neq_numeral)

lemma page_addr_0 [simp]: "page_addr 0 = 0"
  by (simp add: page_addr_def)

lemma page_addr_unat: "i * 4096 = page_addr (unat i)"
  by (simp add: page_addr_def)

lemma and_not_mask_dvd:
  fixes x :: "'w::len word"
  shows "unat (x AND NOT (mask n)) = unat x - unat x mod 2 ^ n"
proof -
  have "x AND NOT (mask n) = push_bit n (drop_bit n x)"
    by (rule bit_word_eqI) (auto simp: bit_simps)
  moreover have "unat (push_bit n (drop_bit n x)) = unat x div 2 ^ n * 2 ^ n"
  proof -
    have "unat x div 2 ^ n * 2 ^ n < 2 ^ LENGTH('w)"
    proof -
      have "unat x < 2 ^ LENGTH('w)" by simp
      then show ?thesis
        using div_times_less_eq_dividend [of "unat x" "2 ^ n"] by linarith
    qed
    then show ?thesis
      by (simp only: unsigned_push_bit_eq unat_drop_bit_eq)
        (simp add: push_bit_eq_mult drop_bit_eq_div take_bit_nat_eq_self)
  qed
  ultimately show ?thesis by (simp add: minus_mod_eq_div_mult)
qed

section \<open>Circular buffers\<close>

text \<open>The \<open>n\<close> slots of a circular buffer from position \<open>st\<close> on.\<close>

definition window :: "'a list \<Rightarrow> nat \<Rightarrow> nat \<Rightarrow> 'a list" where
  "window xs st n = map (\<lambda>i. xs ! ((st + i) mod length xs)) [0..<n]"

lemma length_window [simp]: "length (window xs st n) = n"
  by (simp add: window_def)

lemma window_0 [simp]: "window xs st 0 = []"
  by (simp add: window_def)

lemma window_mod [simp]: "window xs (st mod length xs) n = window xs st n"
  by (simp add: window_def mod_simps)

lemma window_start: "st mod length xs = st' mod length xs \<Longrightarrow> window xs st n = window xs st' n"
  by (metis window_mod)

lemma window_hd: "window xs st (Suc n) = xs ! (st mod length xs) # window xs (Suc st) n"
  by (rule nth_equalityI) (auto simp: window_def nth_Cons split: nat.split simp del: upt_Suc)

lemma window_tl: "window xs (Suc st) n = tl (window xs st (Suc n))"
  by (simp add: window_hd)

lemma window_cong:
  assumes "\<And>i. i < n \<Longrightarrow> xs ! ((st + i) mod length xs) = ys ! ((st + i) mod length xs)"
    and "length ys = length xs"
  shows "window xs st n = window ys st n"
  using assms by (simp add: window_def)

lemma window_snoc:
  assumes "n < length xs"
  shows "window (xs[(st + n) mod length xs := v]) st (Suc n) = window xs st n @ [v]"
proof -
  have "(st + i) mod length xs \<noteq> (st + n) mod length xs" if "i < n" for i
  proof
    assume "(st + i) mod length xs = (st + n) mod length xs"
    then have "length xs dvd (st + n) - (st + i)"
      using that by (metis mod_eq_dvd_iff_nat add_le_cancel_left less_imp_le)
    then show False using that assms by (auto dest: dvd_imp_le)
  qed
  moreover have "(st + n) mod length xs < length xs" using assms by (intro mod_less_divisor) linarith
  ultimately show ?thesis
    using assms by (simp add: window_def nth_list_update) (metis atLeastLessThan_iff)
qed

lemma window_slide:
  assumes "xs \<noteq> []"
  shows "window (xs[st mod length xs := v]) (Suc st) (length xs) =
    tl (window xs st (length xs)) @ [v]"
proof -
  obtain n where n: "length xs = Suc n" using assms by (cases xs) auto
  have "(Suc st + n) mod length xs = st mod length xs"
    by (simp only: n add_Suc add_Suc_right [symmetric] mod_add_self2)
  then show ?thesis
    using window_snoc [of n xs "Suc st" v] n by (simp add: window_tl)
qed

end
