(* ===== verification/Physmem.thy ===== *)
theory Physmem
  imports Prelude
begin

text \<open>
  Physical memory as the kernel sees it through its identity map: a byte array indexed by
  64-bit addresses, with the little-endian loads and stores the C compiler emits for
  \<^verbatim>\<open>uint8_t\<close>, \<^verbatim>\<open>uint16_t\<close>, \<^verbatim>\<open>uint32_t\<close> and \<^verbatim>\<open>uint64_t\<close> objects
  (\<^verbatim>\<open>kernel/mmio.h\<close> and every pointer access of the sources). Every structure the
  kernel keeps in allocated pages (the frame bitmap, page tables, heap blocks, task stacks,
  ELF images) lives in this one memory, so aliasing is part of the model.
\<close>

type_synonym pmem = "u64 \<Rightarrow> u8"

named_theorems mem_simps \<open>loads over stores\<close>

section \<open>Loads and stores of n bytes\<close>

fun loadb :: "pmem \<Rightarrow> u64 \<Rightarrow> nat \<Rightarrow> 'w::len word" where
  "loadb m a 0 = 0"
| "loadb m a (Suc n) = ucast (m a) OR push_bit 8 (loadb m (a + 1) n)"

definition storeb :: "pmem \<Rightarrow> u64 \<Rightarrow> nat \<Rightarrow> 'w::len word \<Rightarrow> pmem" where
  "storeb m a n v =
     (\<lambda>x. if unat (x - a) < n then ucast (drop_bit (8 * unat (x - a)) v) else m x)"

definition load16 :: "pmem \<Rightarrow> u64 \<Rightarrow> u16" where "load16 m a = loadb m a 2"
definition load32 :: "pmem \<Rightarrow> u64 \<Rightarrow> u32" where "load32 m a = loadb m a 4"
definition load64 :: "pmem \<Rightarrow> u64 \<Rightarrow> u64" where "load64 m a = loadb m a 8"
definition store32 :: "pmem \<Rightarrow> u64 \<Rightarrow> u32 \<Rightarrow> pmem" where "store32 m a v = storeb m a 4 v"
definition store64 :: "pmem \<Rightarrow> u64 \<Rightarrow> u64 \<Rightarrow> pmem" where "store64 m a v = storeb m a 8 v"

text \<open>The bytes of an \<open>n\<close>-byte object at \<open>a\<close> (addresses wrap, as in the hardware).\<close>

definition region :: "u64 \<Rightarrow> nat \<Rightarrow> u64 set" where
  "region a n = {x. unat (x - a) < n}"

text \<open>The loads byte by byte, to evaluate them on a concrete memory.\<close>

lemma load32_bytes:
  "load32 m a = ucast (m a) OR push_bit 8 (ucast (m (a + 1)) OR push_bit 8
     (ucast (m (a + 2)) OR push_bit 8 (ucast (m (a + 3)))))"
  by (simp add: load32_def eval_nat_numeral add.assoc)

lemma load64_bytes:
  "load64 m a = ucast (m a) OR push_bit 8 (ucast (m (a + 1)) OR push_bit 8
     (ucast (m (a + 2)) OR push_bit 8 (ucast (m (a + 3)) OR push_bit 8 (ucast (m (a + 4)) OR push_bit 8
     (ucast (m (a + 5)) OR push_bit 8 (ucast (m (a + 6)) OR push_bit 8 (ucast (m (a + 7)))))))))"
  by (simp add: load64_def eval_nat_numeral add.assoc)

lemma bit_loadb:
  "bit (loadb m a n :: 'w::len word) k \<longleftrightarrow>
     k < LENGTH('w) \<and> k < 8 * n \<and> bit (m (a + of_nat (k div 8))) (k mod 8)"
proof (induction n arbitrary: a k)
  case 0
  then show ?case by simp
next
  case (Suc n)
  show ?case
  proof (cases "k < 8")
    case True
    then show ?thesis
      by (auto simp: bit_simps dest: bit_imp_le_length)
  next
    case False
    then have "k div 8 = Suc ((k - 8) div 8)" and "(k - 8) mod 8 = k mod 8"
      by (auto simp: le_div_geq le_mod_geq)
    moreover have "\<not> bit (m a) k" using False bit_imp_le_length [of "m a" k] by auto
    ultimately show ?thesis
      using False by (auto simp: bit_simps Suc algebra_simps)
  qed
qed

lemma loadb_cong:
  assumes "\<And>x. x \<in> region a n \<Longrightarrow> m x = m' x" and "n < 2 ^ 64"
  shows "(loadb m a n :: 'w::len word) = loadb m' a n"
proof (rule bit_word_eqI)
  fix k assume "k < LENGTH('w)"
  have "m (a + of_nat (k div 8)) = m' (a + of_nat (k div 8))" if "k < 8 * n"
    using that assms(2) by (intro assms(1)) (auto simp: region_def)
  then show "bit (loadb m a n :: 'w word) k \<longleftrightarrow> bit (loadb m' a n :: 'w word) k"
    by (auto simp: bit_loadb)
qed

lemma storeb_apply_out [mem_simps]: "x \<notin> region a n \<Longrightarrow> storeb m a n v x = m x"
  by (simp add: storeb_def region_def)

lemma loadb_storeb_same:
  fixes v :: "'w::len word"
  assumes "LENGTH('w) = 8 * n" and "n < 2 ^ 64"
  shows "loadb (storeb m a n v) a n = v"
proof (rule bit_word_eqI)
  fix k assume k: "k < LENGTH('w)"
  then have "k div 8 < n" using assms(1) by auto
  then have "unat (of_nat (k div 8) :: u64) = k div 8" using assms(2) by simp
  moreover have "8 * (k div 8) + k mod 8 = k" by simp
  ultimately show "bit (loadb (storeb m a n v) a n :: 'w word) k \<longleftrightarrow> bit v k"
    using k assms(1) \<open>k div 8 < n\<close> by (auto simp: bit_loadb storeb_def bit_simps)
qed

lemma loadb_storeb_other:
  assumes "region a n \<inter> region b k = {}" and "k < 2 ^ 64"
  shows "loadb (storeb m a n v) b k = loadb m b k"
  using assms by (intro loadb_cong) (auto intro!: storeb_apply_out)

section \<open>Qwords\<close>

lemma load64_store64_same [simp, mem_simps]: "load64 (store64 m a v) a = v"
  by (simp add: load64_def store64_def loadb_storeb_same)

lemma load64_store64_disjoint [mem_simps]:
  "region a 8 \<inter> region b 8 = {} \<Longrightarrow> load64 (store64 m a v) b = load64 m b"
  by (simp add: load64_def store64_def loadb_storeb_other)

lemma load64_cong:
  "(\<And>x. x \<in> region a 8 \<Longrightarrow> m x = m' x) \<Longrightarrow> load64 m a = load64 m' a"
  unfolding load64_def by (rule loadb_cong) auto

lemma load32_cong:
  "(\<And>x. x \<in> region a 4 \<Longrightarrow> m x = m' x) \<Longrightarrow> load32 m a = load32 m' a"
  unfolding load32_def by (rule loadb_cong) auto

lemma store64_apply_out [mem_simps]: "x \<notin> region a 8 \<Longrightarrow> store64 m a v x = m x"
  by (simp add: store64_def storeb_apply_out)

lemma load32_store32_same [simp, mem_simps]: "load32 (store32 m a v) a = v"
  by (simp add: load32_def store32_def loadb_storeb_same)

lemma store32_apply_out [mem_simps]: "x \<notin> region a 4 \<Longrightarrow> store32 m a v x = m x"
  by (simp add: store32_def storeb_apply_out)

text \<open>Two objects whose addresses do not wrap are disjoint when their intervals are.\<close>

lemma region_interval:
  assumes "unat a + n \<le> 2 ^ 64"
  shows "region a n = {x. unat a \<le> unat x \<and> unat x < unat a + n}"
proof -
  have "unat (x - a) < n \<longleftrightarrow> unat a \<le> unat x \<and> unat x < unat a + n" for x :: u64
    using assms unsigned_less [of x] unsigned_less [of a]
    by (auto simp: unat_sub_if')
  then show ?thesis by (simp add: region_def)
qed

lemma region_disjoint:
  assumes "unat a + n \<le> 2 ^ 64" and "unat b + k \<le> 2 ^ 64"
    and "unat a + n \<le> unat b \<or> unat b + k \<le> unat a"
  shows "region a n \<inter> region b k = {}"
  using assms by (auto simp: region_interval)

end
