(* ===== verification/Interfaces.thy ===== *)
theory Interfaces
  imports Prelude
begin

text \<open>
  The contracts between components, as locales: a log that keeps its most recent entries
  (the kernel log, the shell history), a bounded first-in first-out buffer (the keyboard
  buffer) and an allocator of page frames (what the page-table code, the heap and the ELF
  loader rely on). Each is interpreted on the model's own definitions in the theory of the
  component that provides it.
\<close>

section \<open>A log of the most recent entries\<close>

locale recent_log =
  fixes push :: "'x \<Rightarrow> 's \<Rightarrow> 's"
    and recent :: "'s \<Rightarrow> 'y list"
    and entry :: "'x \<Rightarrow> 'y"
    and cap :: nat
    and ok :: "'x \<Rightarrow> bool"
    and invar :: "'s \<Rightarrow> bool"
  assumes cap_pos: "0 < cap"
    and recent_le: "invar s \<Longrightarrow> length (recent s) \<le> cap"
    and recent_push: "invar s \<Longrightarrow> ok x \<Longrightarrow> recent (push x s) =
      (if length (recent s) < cap then recent s else tl (recent s)) @ [entry x]"
    and invar_push: "invar s \<Longrightarrow> ok x \<Longrightarrow> invar (push x s)"
begin

lemma recent_push_all:
  assumes "invar s" and "ok x" and "recent s = drop (length all - cap) all"
  shows "recent (push x s) = drop (Suc (length all) - cap) (all @ [entry x])"
  using assms recent_le [OF assms(1)] cap_pos
  by (auto simp: recent_push drop_Suc tl_drop Suc_diff_le not_less)

text \<open>Whatever is pushed, the log shows exactly the last \<open>cap\<close> entries, oldest first.\<close>

lemma recent_fold_from:
  assumes "invar s" and "list_all ok xs" and "recent s = drop (length all - cap) all"
  shows "recent (fold push xs s) =
      drop (length (all @ map entry xs) - cap) (all @ map entry xs)
    \<and> invar (fold push xs s)"
  using assms
proof (induction xs arbitrary: s all)
  case Nil
  then show ?case by simp
next
  case (Cons x xs)
  then have "recent (push x s) = drop (length (all @ [entry x]) - cap) (all @ [entry x])"
    by (simp add: recent_push_all)
  moreover have "invar (push x s)" using Cons.prems by (simp add: invar_push)
  ultimately show ?case
    using Cons.IH [of "push x s" "all @ [entry x]"] Cons.prems by simp
qed

lemma recent_fold:
  assumes "invar s" and "list_all ok xs" and "recent s = []"
  shows "recent (fold push xs s) = drop (length xs - cap) (map entry xs)"
  using recent_fold_from [OF assms(1,2), of "[]"] assms(3) by simp

end

section \<open>An allocator of page frames\<close>

text \<open>The pages \<open>n\<close> successive calls return, first one first.\<close>

primrec alloc_seq :: "('s \<Rightarrow> u64 \<times> 's) \<Rightarrow> nat \<Rightarrow> 's \<Rightarrow> u64 list \<times> 's" where
  "alloc_seq alloc 0 s = ([], s)"
| "alloc_seq alloc (Suc n) s =
     (let (p, s1) = alloc s; (ps, s2) = alloc_seq alloc n s1 in (p # ps, s2))"

locale page_allocator =
  fixes alloc :: "'s \<Rightarrow> u64 \<times> 's"
    and free :: "u64 \<Rightarrow> 's \<Rightarrow> 's"
    and avail :: "'s \<Rightarrow> nat set"
    and freeable :: "'s \<Rightarrow> nat \<Rightarrow> bool"
    and invar :: "'s \<Rightarrow> bool"
  assumes avail_frame: "invar s \<Longrightarrow> n \<in> avail s \<Longrightarrow> 0 < n \<and> n < 2 ^ 52 \<and> freeable s n"
    and avail_finite: "finite (avail s)"
    and alloc_none: "invar s \<Longrightarrow> avail s = {} \<Longrightarrow> alloc s = (0, s)"
    and alloc_some: "invar s \<Longrightarrow> avail s \<noteq> {} \<Longrightarrow>
      \<exists>n s'. alloc s = (page_addr n, s') \<and> n \<in> avail s \<and> avail s' = avail s - {n}
        \<and> invar s' \<and> freeable s' = freeable s"
    and free_frame: "invar s \<Longrightarrow> freeable s n \<Longrightarrow>
      avail (free (page_addr n) s) = insert n (avail s)
        \<and> invar (free (page_addr n) s) \<and> freeable (free (page_addr n) s) = freeable s"
begin

lemma alloc_null_iff:
  assumes "invar s"
  shows "fst (alloc s) = 0 \<longleftrightarrow> avail s = {}"
proof (cases "avail s = {}")
  case True
  then show ?thesis using alloc_none assms by simp
next
  case False
  then obtain n s' where "alloc s = (page_addr n, s')" "n \<in> avail s"
    using alloc_some assms by blast
  moreover then have "0 < n" "n < 2 ^ 52" using avail_frame assms by auto
  ultimately show ?thesis using False page_addr_inj [of n 0] by auto
qed

text \<open>As many calls as there are free frames give pairwise different, non-null pages.\<close>

lemma alloc_seq_distinct:
  assumes "invar s" and "n \<le> card (avail s)"
  shows "\<exists>ns s'. alloc_seq alloc n s = (map page_addr ns, s')
    \<and> length ns = n \<and> distinct ns \<and> set ns \<subseteq> avail s \<and> avail s' = avail s - set ns \<and> invar s'"
  using assms
proof (induction n arbitrary: s)
  case 0
  then show ?case by (auto intro!: exI [of _ "[]"])
next
  case (Suc n)
  then have "avail s \<noteq> {}" by auto
  then obtain k s1 where k: "alloc s = (page_addr k, s1)" "k \<in> avail s"
    "avail s1 = avail s - {k}" "invar s1"
    using alloc_some [OF Suc.prems(1)] by blast
  have "n \<le> card (avail s1)" using Suc.prems(2) k(2,3) avail_finite [of s] by simp
  then obtain ns s' where "alloc_seq alloc n s1 = (map page_addr ns, s')"
    "length ns = n" "distinct ns" "set ns \<subseteq> avail s1" "avail s' = avail s1 - set ns" "invar s'"
    using Suc.IH [OF k(4)] by blast
  then show ?case using k by (intro exI [of _ "k # ns"] exI [of _ s']) auto
qed

text \<open>Freeing what was just allocated gives back the same set of free frames.\<close>

lemma alloc_free_avail:
  assumes "invar s" and "avail s \<noteq> {}"
  shows "avail (free (fst (alloc s)) (snd (alloc s))) = avail s
    \<and> invar (free (fst (alloc s)) (snd (alloc s)))"
proof -
  obtain n s' where n: "alloc s = (page_addr n, s')" "n \<in> avail s"
    "avail s' = avail s - {n}" "invar s'" "freeable s' = freeable s"
    using alloc_some assms by blast
  then show ?thesis using free_frame [of s' n] avail_frame [OF assms(1) n(2)] by auto
qed

end

section \<open>A bounded first-in first-out buffer\<close>

datatype 'e fifo_op = Push 'e | Pop

text \<open>What a sequence of operations gives on the buffer, and on a list of at most \<open>cap\<close> elements.\<close>

fun fifo_run :: "('e \<Rightarrow> 's \<Rightarrow> 's) \<Rightarrow> ('s \<Rightarrow> 'e \<times> 's) \<Rightarrow> 'e fifo_op list \<Rightarrow> 's \<Rightarrow> 'e list \<times> 's" where
  "fifo_run push pop [] s = ([], s)"
| "fifo_run push pop (Push e # ops) s = fifo_run push pop ops (push e s)"
| "fifo_run push pop (Pop # ops) s =
     (let (e, s1) = pop s; (es, s2) = fifo_run push pop ops s1 in (e # es, s2))"

fun fifo_spec :: "nat \<Rightarrow> 'e \<Rightarrow> 'e fifo_op list \<Rightarrow> 'e list \<Rightarrow> 'e list \<times> 'e list" where
  "fifo_spec cap nothing [] xs = ([], xs)"
| "fifo_spec cap nothing (Push e # ops) xs =
     fifo_spec cap nothing ops (if length xs < cap then xs @ [e] else xs)"
| "fifo_spec cap nothing (Pop # ops) [] =
     (let (es, ys) = fifo_spec cap nothing ops [] in (nothing # es, ys))"
| "fifo_spec cap nothing (Pop # ops) (x # xs) =
     (let (es, ys) = fifo_spec cap nothing ops xs in (x # es, ys))"

locale bounded_fifo =
  fixes push :: "'e \<Rightarrow> 's \<Rightarrow> 's"
    and pop :: "'s \<Rightarrow> 'e \<times> 's"
    and contents :: "'s \<Rightarrow> 'e list"
    and cap :: nat
    and nothing :: 'e
    and invar :: "'s \<Rightarrow> bool"
  assumes push_contents: "invar s \<Longrightarrow> contents (push e s) =
      (if length (contents s) < cap then contents s @ [e] else contents s)"
    and push_invar: "invar s \<Longrightarrow> invar (push e s)"
    and pop_empty: "invar s \<Longrightarrow> contents s = [] \<Longrightarrow> pop s = (nothing, s)"
    and pop_some: "invar s \<Longrightarrow> contents s \<noteq> [] \<Longrightarrow>
      \<exists>s'. pop s = (hd (contents s), s') \<and> contents s' = tl (contents s) \<and> invar s'"
begin

text \<open>Every interleaving of operations gives what the list gives.\<close>

lemma run_refines:
  assumes "invar s"
  shows "fst (fifo_run push pop ops s) = fst (fifo_spec cap nothing ops (contents s))
    \<and> contents (snd (fifo_run push pop ops s)) = snd (fifo_spec cap nothing ops (contents s))
    \<and> invar (snd (fifo_run push pop ops s))"
  using assms
proof (induction ops arbitrary: s)
  case Nil
  then show ?case by simp
next
  case (Cons op ops)
  show ?case
  proof (cases op)
    case (Push e)
    then show ?thesis
      using Cons.IH [OF push_invar [OF Cons.prems]] by (simp add: push_contents [OF Cons.prems])
  next
    case Pop
    show ?thesis
    proof (cases "contents s")
      case Nil
      then show ?thesis using Cons.IH [OF Cons.prems] pop_empty [OF Cons.prems] Pop
        by (simp add: Let_def case_prod_unfold)
    next
      case (Cons x xs)
      then obtain s' where "pop s = (x, s')" "contents s' = xs" "invar s'"
        using pop_some [OF Cons.prems] by auto
      then show ?thesis using Cons.IH [of s'] Pop Cons by (simp add: Let_def case_prod_unfold)
    qed
  qed
qed

end

end
