(* ===== verification/Io.thy ===== *)
theory Io
  imports Prelude
begin

text \<open>
  Access to the hardware: the port instructions of \<^verbatim>\<open>kernel/io.h\<close>, the memory-mapped registers
  of \<^verbatim>\<open>kernel/mmio.h\<close>, the model-specific registers and the interrupt flag. The state records the
  accesses in order. The devices are a parameter, part of the state: what a read returns is a
  function of the accesses before it, so a device may have any internal state and may give a
  different value each time it is polled.
\<close>

datatype io_event =
    OutB u16 u8 | OutW u16 u16 | InB u16 u8 | InW u16 u16
  | MmioWrite u64 u32 | MmioRead u64 u32 | WrMsr u32 u64 | RdMsr u32 u64

record machine =
  in_b :: "io_event list \<Rightarrow> u16 \<Rightarrow> u8"
  in_w :: "io_event list \<Rightarrow> u16 \<Rightarrow> u16"
  mmio :: "io_event list \<Rightarrow> u64 \<Rightarrow> u32"
  msr :: "io_event list \<Rightarrow> u32 \<Rightarrow> u64"

record io =
  io_log :: "io_event list"
  device :: machine
  if_flag :: bool

definition outb :: "u16 \<Rightarrow> u8 \<Rightarrow> 'a io_scheme \<Rightarrow> 'a io_scheme" where
  "outb port val s = s\<lparr>io_log := io_log s @ [OutB port val]\<rparr>"

definition outw :: "u16 \<Rightarrow> u16 \<Rightarrow> 'a io_scheme \<Rightarrow> 'a io_scheme" where
  "outw port val s = s\<lparr>io_log := io_log s @ [OutW port val]\<rparr>"

definition inb :: "u16 \<Rightarrow> 'a io_scheme \<Rightarrow> u8 \<times> 'a io_scheme" where
  "inb port s = (let v = in_b (device s) (io_log s) port
     in (v, s\<lparr>io_log := io_log s @ [InB port v]\<rparr>))"

definition inw :: "u16 \<Rightarrow> 'a io_scheme \<Rightarrow> u16 \<times> 'a io_scheme" where
  "inw port s = (let v = in_w (device s) (io_log s) port
     in (v, s\<lparr>io_log := io_log s @ [InW port v]\<rparr>))"

definition io_wait :: "'a io_scheme \<Rightarrow> 'a io_scheme" where
  "io_wait s = outb 0x80 0 s"

definition mmio_read32 :: "u64 \<Rightarrow> 'a io_scheme \<Rightarrow> u32 \<times> 'a io_scheme" where
  "mmio_read32 addr s = (let v = mmio (device s) (io_log s) addr
     in (v, s\<lparr>io_log := io_log s @ [MmioRead addr v]\<rparr>))"

definition mmio_write32 :: "u64 \<Rightarrow> u32 \<Rightarrow> 'a io_scheme \<Rightarrow> 'a io_scheme" where
  "mmio_write32 addr value s = s\<lparr>io_log := io_log s @ [MmioWrite addr value]\<rparr>"

definition rdmsr :: "u32 \<Rightarrow> 'a io_scheme \<Rightarrow> u64 \<times> 'a io_scheme" where
  "rdmsr r s = (let v = msr (device s) (io_log s) r
     in (v, s\<lparr>io_log := io_log s @ [RdMsr r v]\<rparr>))"

definition wrmsr :: "u32 \<Rightarrow> u64 \<Rightarrow> 'a io_scheme \<Rightarrow> 'a io_scheme" where
  "wrmsr r value s = s\<lparr>io_log := io_log s @ [WrMsr r value]\<rparr>"

definition cli :: "'a io_scheme \<Rightarrow> 'a io_scheme" where "cli s = s\<lparr>if_flag := False\<rparr>"
definition sti :: "'a io_scheme \<Rightarrow> 'a io_scheme" where "sti s = s\<lparr>if_flag := True\<rparr>"

text \<open>A machine whose registers all read as zero.\<close>

definition null_machine :: machine where
  "null_machine = \<lparr>in_b = \<lambda>_ _. 0, in_w = \<lambda>_ _. 0, mmio = \<lambda>_ _. 0, msr = \<lambda>_ _. 0\<rparr>"

text \<open>The last byte written to a port.\<close>

fun last_out :: "u16 \<Rightarrow> io_event list \<Rightarrow> u8 option" where
  "last_out p [] = None"
| "last_out p (e # es) = (case last_out p es of
     Some v \<Rightarrow> Some v
   | None \<Rightarrow> (case e of OutB q v \<Rightarrow> if q = p then Some v else None | _ \<Rightarrow> None))"

lemma last_out_snoc [simp]:
  "last_out p (es @ [e]) = (case e of OutB q v \<Rightarrow> if q = p then Some v else last_out p es
     | _ \<Rightarrow> last_out p es)"
  by (induction es) (auto split: io_event.splits option.splits)

end
