(* ===== verification/Console.thy ===== *)
theory Console
  imports Interfaces Io
begin

text \<open>
  Text output: C strings (\<^verbatim>\<open>kernel/string.c\<close>), the number printers of
  \<^verbatim>\<open>kernel/display.c\<close>, the serial port (\<^verbatim>\<open>kernel/serial.c\<close>) and the kernel log with
  its ring of recent lines (\<^verbatim>\<open>kernel/klog.c\<close>). The console is the sequence of characters
  handed to \<^verbatim>\<open>print_char\<close>; the serial line is the sequence of bytes written to COM1, with
  the wait for the transmitter taken to end.
\<close>

section \<open>C strings\<close>

abbreviation (input) NUL :: char where "NUL \<equiv> CHR 0x00"
abbreviation (input) NL :: char where "NL \<equiv> CHR 0x0A"
abbreviation (input) CR :: char where "CR \<equiv> CHR 0x0D"

text \<open>The string a \<^verbatim>\<open>char*\<close> denotes: the characters before the terminator.\<close>

definition cstr :: "string \<Rightarrow> string" where
  "cstr buf = takeWhile (\<lambda>c. c \<noteq> NUL) buf"

definition schar :: "char \<Rightarrow> int" where
  "schar c = sint (of_char c :: u8)"

text \<open>\<^verbatim>\<open>kstrcmp\<close> on two terminated buffers; the end of the list is the terminator.\<close>

fun kstrcmp :: "string \<Rightarrow> string \<Rightarrow> int" where
  "kstrcmp (a # as) (b # bs) =
     (if a \<noteq> NUL \<and> b \<noteq> NUL then if a \<noteq> b then schar a - schar b else kstrcmp as bs
      else schar a - schar b)"
| "kstrcmp (a # as) [] = schar a"
| "kstrcmp [] (b # bs) = - schar b"
| "kstrcmp [] [] = 0"

text \<open>\<^verbatim>\<open>for (i = 0; src[i] && p < lim; i++) out[p++] = src[i];\<close>\<close>

fun copy_bounded :: "nat \<Rightarrow> string \<Rightarrow> string \<times> nat \<Rightarrow> string \<times> nat" where
  "copy_bounded lim [] st = st"
| "copy_bounded lim (c # cs) (out, p) =
     (if c \<noteq> NUL \<and> p < lim then copy_bounded lim cs (out[p := c], p + 1) else (out, p))"

definition put_char :: "char \<Rightarrow> string \<times> nat \<Rightarrow> string \<times> nat" where
  "put_char c st = (case st of (out, p) \<Rightarrow> (out[p := c], p + 1))"

section \<open>State\<close>

record con = io +
  console :: string
  serial :: string
  serial_ready :: bool
  g_ring :: "string list"
  g_ring_head :: u32
  g_ring_count :: u32

section \<open>Printing numbers\<close>

definition print :: "string \<Rightarrow> 'a con_scheme \<Rightarrow> 'a con_scheme" where
  "print str s = s\<lparr>console := console s @ cstr str\<rparr>"

definition hex_digits :: string where
  "hex_digits = ''0123456789ABCDEF''"

definition hex_str :: "u64 \<Rightarrow> string" where
  "hex_str val = ''0x'' @
     map (\<lambda>k. hex_digits ! unat (drop_bit (60 - 4 * k) val AND 0xF)) [0..<16]"

definition print_hex :: "u64 \<Rightarrow> 'a con_scheme \<Rightarrow> 'a con_scheme" where
  "print_hex val s = s\<lparr>console := console s @ hex_str val\<rparr>"

text \<open>The digits as \<^verbatim>\<open>print_dec\<close> puts them in \<^verbatim>\<open>buf\<close>, least significant first.\<close>

function dec_buf :: "u64 \<Rightarrow> string" where
  "dec_buf val =
     (if val > 0 then char_of (48 + unat (val mod 10)) # dec_buf (val div 10) else [])"
  by pat_completeness auto

lemma div_10_less: "0 < (v :: u64) \<Longrightarrow> unat (v div 10) < unat v"
  by (simp add: unat_div word_less_nat_alt)

termination dec_buf
  by (relation "measure unat") (auto simp: div_10_less)

declare dec_buf.simps [simp del]

definition dec_str :: "u64 \<Rightarrow> string" where
  "dec_str val = (if val = 0 then ''0'' else rev (dec_buf val))"

definition print_dec :: "u64 \<Rightarrow> 'a con_scheme \<Rightarrow> 'a con_scheme" where
  "print_dec val s = s\<lparr>console := console s @ dec_str val\<rparr>"

section \<open>Serial line\<close>

definition serial_init :: "'a con_scheme \<Rightarrow> 'a con_scheme" where
  "serial_init s =
     (fold (\<lambda>(p, v). outb (0x3F8 + p) v)
        [(1, 0x00), (3, 0x80), (0, 0x03), (1, 0x00), (3, 0x03), (2, 0xC7), (4, 0x0B)] s)
     \<lparr>serial_ready := True\<rparr>"

definition serial_write_char :: "char \<Rightarrow> 'a con_scheme \<Rightarrow> 'a con_scheme" where
  "serial_write_char c s =
     (if \<not> serial_ready s then s
      else if c = NL then s\<lparr>serial := serial s @ [CR, NL]\<rparr>
      else s\<lparr>serial := serial s @ [c]\<rparr>)"

definition serial_write :: "string \<Rightarrow> 'a con_scheme \<Rightarrow> 'a con_scheme" where
  "serial_write str s = fold serial_write_char (cstr str) s"

definition serial_write_hex :: "u64 \<Rightarrow> 'a con_scheme \<Rightarrow> 'a con_scheme" where
  "serial_write_hex val s = fold serial_write_char
     (map (\<lambda>k. hex_digits ! unat (drop_bit (60 - 4 * k) val AND 0xF)) [0..<16])
     (serial_write ''0x'' s)"

definition serial_write_dec :: "u64 \<Rightarrow> 'a con_scheme \<Rightarrow> 'a con_scheme" where
  "serial_write_dec val s =
     (if val = 0 then serial_write_char (CHR ''0'') s
      else fold serial_write_char (rev (dec_buf val)) s)"

section \<open>Kernel log\<close>

definition ring_write_line :: "string \<Rightarrow> string option \<Rightarrow> 'a con_scheme \<Rightarrow> 'a con_scheme" where
  "ring_write_line level message s =
     (let out0 = g_ring s ! unat (g_ring_head s);
          st1 = put_char (CHR ''['') (out0, 0);
          st2 = copy_bounded 94 level st1;
          st3 = put_char (CHR '']'') st2;
          st4 = (if snd st3 < 95 then put_char (CHR '' '') st3 else st3);
          msg = (case message of None \<Rightarrow> ''(null)'' | Some m \<Rightarrow> m);
          (out, p) = copy_bounded 95 msg st4
      in s\<lparr>g_ring := (g_ring s)[unat (g_ring_head s) := out[p := NUL]],
           g_ring_head := (g_ring_head s + 1) mod 64,
           g_ring_count := (if g_ring_count s < 64 then g_ring_count s + 1 else g_ring_count s)\<rparr>)"

definition klog_prefix :: "string \<Rightarrow> 'a con_scheme \<Rightarrow> 'a con_scheme" where
  "klog_prefix level s =
     serial_write ''] '' (serial_write level (serial_write ''[''
       (print ''] '' (print level (print ''['' s)))))"

definition klog_line :: "string \<Rightarrow> string \<Rightarrow> 'a con_scheme \<Rightarrow> 'a con_scheme" where
  "klog_line level message s =
     serial_write [NL] (serial_write message
       (print [NL] (print message (klog_prefix level (ring_write_line level (Some message) s)))))"

definition klog_init :: "'a con_scheme \<Rightarrow> 'a con_scheme" where
  "klog_init s = serial_write ([NL] @ ''[INFO] serial online'' @ [NL]) (serial_init s)"

definition klog_info :: "string \<Rightarrow> 'a con_scheme \<Rightarrow> 'a con_scheme" where
  "klog_info message = klog_line ''INFO'' message"
definition klog_warn :: "string \<Rightarrow> 'a con_scheme \<Rightarrow> 'a con_scheme" where
  "klog_warn message = klog_line ''WARN'' message"
definition klog_error :: "string \<Rightarrow> 'a con_scheme \<Rightarrow> 'a con_scheme" where
  "klog_error message = klog_line ''ERROR'' message"
definition klog_panic :: "string \<Rightarrow> 'a con_scheme \<Rightarrow> 'a con_scheme" where
  "klog_panic message = klog_line ''PANIC'' message"

definition klog_hex :: "u64 \<Rightarrow> 'a con_scheme \<Rightarrow> 'a con_scheme" where
  "klog_hex v s = serial_write_hex v (print_hex v s)"
definition klog_dec :: "u64 \<Rightarrow> 'a con_scheme \<Rightarrow> 'a con_scheme" where
  "klog_dec v s = serial_write_dec v (print_dec v s)"
definition klog_newline :: "'a con_scheme \<Rightarrow> 'a con_scheme" where
  "klog_newline s = serial_write [NL] (print [NL] s)"

definition klog_dump_recent :: "u32 \<Rightarrow> 'a con_scheme \<Rightarrow> 'a con_scheme" where
  "klog_dump_recent limit s =
     (if g_ring_count s = 0 then print (''dmesg: empty'' @ [NL]) s
      else let lim = (if limit = 0 \<or> limit > g_ring_count s then g_ring_count s else limit);
               start = (g_ring_head s + 64 - lim) mod 64
           in for_range 0 lim
                (\<lambda>i t. print [NL] (print (g_ring t ! unat ((start + i) mod 64)) t)) s)"

section \<open>Strings and numbers\<close>

lemma unat_of_char_u8 [simp]: "unat (of_char c :: u8) = of_char c"
proof -
  have "(of_char c :: nat) < 256"
    by (metis mod_less_divisor of_char_mod_256 zero_less_numeral)
  then have "unat (of_nat (of_char c) :: u8) = of_char c" by (simp add: unat_of_nat)
  then show ?thesis by (simp only: of_nat_of_char)
qed

lemma schar_eq_iff [simp]: "schar a = schar b \<longleftrightarrow> a = b"
proof -
  have "(of_char a :: u8) = of_char b \<longleftrightarrow> a = b"
    by (metis of_char_eq_iff unat_of_char_u8)
  then show ?thesis unfolding schar_def by (metis signed_word_eqI)
qed

lemma schar_NUL [simp]: "schar NUL = 0"
  by (simp add: schar_def)

lemma schar_eq_0 [simp]: "schar a = 0 \<longleftrightarrow> a = NUL"
  using schar_eq_iff [of a NUL] by simp

lemma cstr_simps [simp]:
  "cstr [] = []" "cstr (c # cs) = (if c = NUL then [] else c # cstr cs)"
  by (simp_all add: cstr_def)

lemma cstr_id: "NUL \<notin> set xs \<Longrightarrow> cstr xs = xs"
  by (induction xs) auto

lemma cstr_append_NUL: "NUL \<notin> set xs \<Longrightarrow> cstr (xs @ NUL # ys) = xs"
  by (induction xs) auto

lemma NUL_notin_cstr: "NUL \<notin> set (cstr xs)"
  by (induction xs) auto

text \<open>\<^verbatim>\<open>kstrcmp\<close> is zero exactly on equal strings, whatever follows the terminators.\<close>

lemma kstrcmp_eq_0: "kstrcmp a b = 0 \<longleftrightarrow> cstr a = cstr b"
  by (induction a b rule: kstrcmp.induct) auto

text \<open>The decimal printer writes at most 20 digits, so \<^verbatim>\<open>buf[32]\<close> never overflows.\<close>

lemma length_dec_buf: "unat v < 10 ^ n \<Longrightarrow> length (dec_buf v) \<le> n"
proof (induction v arbitrary: n rule: dec_buf.induct)
  case (1 v)
  show ?case
  proof (cases "v > 0")
    case True
    then have "n \<noteq> 0" using "1.prems" by (cases n) (auto simp: word_less_nat_alt)
    then obtain k where k: "n = Suc k" by (cases n) auto
    have "unat (v div 10) < 10 ^ k" using "1.prems" k by (simp add: unat_div)
    then show ?thesis
      using "1.IH" True k by (subst dec_buf.simps) simp
  next
    case False
    then show ?thesis by (subst dec_buf.simps) simp
  qed
qed

lemma length_dec_buf_20: "length (dec_buf v) \<le> 20"
proof -
  have "unat v < 2 ^ 64" using unsigned_less [of v] by simp
  then have "unat v < 10 ^ 20" by simp
  then show ?thesis by (rule length_dec_buf)
qed

definition digit_val :: "char \<Rightarrow> nat" where
  "digit_val c = of_char c - 48"

definition dec_val :: "string \<Rightarrow> nat" where
  "dec_val cs = foldl (\<lambda>v c. 10 * v + digit_val c) 0 cs"

lemma digit_char: "k < 10 \<Longrightarrow> digit_val (char_of (48 + k)) = k"
  by (simp add: digit_val_def)

lemma dec_buf_val: "dec_val (rev (dec_buf v)) = unat v"
proof (induction v rule: dec_buf.induct)
  case (1 v)
  show ?case
  proof (cases "v > 0")
    case True
    have "digit_val (char_of (48 + unat (v mod 10))) = unat v mod 10"
      using digit_char [of "unat v mod 10"] by (simp add: unat_mod)
    then show ?thesis
      using "1.IH" True
      by (subst dec_buf.simps) (simp add: dec_val_def unat_div)
  next
    case False
    then show ?thesis by (subst dec_buf.simps) (simp add: dec_val_def word_gt_0)
  qed
qed

lemma dec_str_val: "dec_val (dec_str v) = unat v"
  by (simp add: dec_str_def dec_buf_val) (simp add: dec_val_def digit_val_def)

section \<open>The log ring\<close>

lemma copy_bounded_spec:
  assumes "lim \<le> length out" and "p \<le> lim"
  shows "copy_bounded lim src (out, p) =
    (let t = take (lim - p) (cstr src)
     in (take p out @ t @ drop (p + length t) out, p + length t))"
  using assms
proof (induction src arbitrary: out p)
  case Nil
  then show ?case by simp
next
  case (Cons c cs)
  show ?case
  proof (cases "c \<noteq> NUL \<and> p < lim")
    case True
    then have "p < length out" using Cons.prems by simp
    then have "take (Suc p) (out[p := c]) = take p out @ [c]"
      by (simp add: take_Suc_conv_app_nth)
    moreover have "lim - p = Suc (lim - Suc p)" using True by (simp add: Suc_diff_Suc)
    ultimately show ?thesis
      using True Cons.IH [of "out[p := c]" "Suc p"] Cons.prems by (simp add: Let_def)
  next
    case False
    then show ?thesis using Cons.prems by auto
  qed
qed

text \<open>The text of a log line: the prefix and as much of the message as fits in 95 characters.\<close>

definition log_line :: "string \<Rightarrow> string \<Rightarrow> string" where
  "log_line level msg = take 95 (''['' @ cstr level @ ''] '' @ cstr msg)"

definition klog_inv :: "'a con_scheme \<Rightarrow> bool" where
  "klog_inv s \<longleftrightarrow> length (g_ring s) = 64 \<and> (\<forall>l \<in> set (g_ring s). length l = 96) \<and>
     unat (g_ring_head s) < 64 \<and> unat (g_ring_count s) \<le> 64"

text \<open>The lines the ring holds, oldest first.\<close>

definition ring_recent :: "'a con_scheme \<Rightarrow> string list" where
  "ring_recent s =
     map cstr (window (g_ring s) (unat (g_ring_head s) + 64 - unat (g_ring_count s))
       (unat (g_ring_count s)))"

lemma length_ring_recent [simp]: "length (ring_recent s) = unat (g_ring_count s)"
  by (simp add: ring_recent_def)

lemma klog_inv_count: "klog_inv s \<Longrightarrow> unat (g_ring_count s) \<le> 64"
  by (simp add: klog_inv_def)

lemma ring_line:
  assumes "length out0 = 96" and "length (cstr level) \<le> 90"
  shows "case copy_bounded 95 msg
            (let st3 = put_char (CHR '']'') (copy_bounded 94 level (put_char (CHR ''['') (out0, 0)))
             in if snd st3 < 95 then put_char (CHR '' '') st3 else st3)
         of (out, p) \<Rightarrow> cstr (out[p := NUL]) = log_line level msg \<and> length (out[p := NUL]) = 96"
proof -
  define n where "n = length (cstr level)"
  have n: "n \<le> 90" using assms(2) by (simp add: n_def)
  define a where "a = CHR ''['' # cstr level"
  have la: "length a = Suc n" by (simp add: a_def n_def)
  have c1: "copy_bounded 94 level (put_char (CHR ''['') (out0, 0)) = (a @ drop (Suc n) out0, Suc n)"
    using assms(1) n by (cases out0)
      (simp_all add: put_char_def copy_bounded_spec Let_def n_def [symmetric] a_def)
  define b where "b = a @ ''] ''"
  have lb: "length b = n + 3" by (simp add: b_def la)
  have c2: "(let st3 = put_char (CHR '']'') (a @ drop (Suc n) out0, Suc n)
             in if snd st3 < 95 then put_char (CHR '' '') st3 else st3) = (b @ drop (n + 3) out0, n + 3)"
    using n assms(1)
    by (simp add: put_char_def la list_update_append b_def Cons_nth_drop_Suc [symmetric]
        numeral_3_eq_3)
  define t where "t = take (95 - (n + 3)) (cstr msg)"
  have c3: "copy_bounded 95 msg (b @ drop (n + 3) out0, n + 3) =
      (b @ t @ drop (n + 3 + length t) out0, n + 3 + length t)"
    using n assms(1) by (simp add: copy_bounded_spec lb Let_def t_def add.commute)
  have lt: "n + 3 + length t \<le> 95" using n by (simp add: t_def)
  have fin: "(b @ t @ drop (n + 3 + length t) out0)[n + 3 + length t := NUL] =
      (b @ t) @ NUL # drop (Suc (n + 3 + length t)) out0"
    using lt assms(1) by (simp add: list_update_append lb Cons_nth_drop_Suc [symmetric])
  have "NUL \<notin> set (b @ t)"
    using NUL_notin_cstr [of level] NUL_notin_cstr [of msg]
    by (auto simp: b_def a_def t_def dest: in_set_takeD)
  moreover have bt: "b @ t = log_line level msg"
  proof -
    have "94 - n = Suc (Suc (92 - n))" using n by simp
    then show ?thesis by (simp add: log_line_def b_def a_def t_def n_def)
  qed
  moreover have "length (log_line level msg) = n + 3 + length t"
    using bt lb by (metis length_append)
  ultimately show ?thesis
    using lt assms(1)
    by (simp only: c1 c2 c3 fin case_prod_conv bt) (simp add: cstr_append_NUL)
qed


lemma unat_mod_64_add: "unat h < 64 \<Longrightarrow> unat ((h + 1) mod 64 :: u32) = (unat h + 1) mod 64"
  by (simp add: unat_mod unat_word_ariths)

lemma ring_write_line_recent:
  assumes "klog_inv s" and "length (cstr level) \<le> 90"
  shows "klog_inv (ring_write_line level message s)"
    and "ring_recent (ring_write_line level message s) =
      (if length (ring_recent s) < 64 then ring_recent s else tl (ring_recent s))
        @ [log_line level (case message of None \<Rightarrow> ''(null)'' | Some m \<Rightarrow> m)]"
proof -
  define h where "h = unat (g_ring_head s)"
  define n where "n = unat (g_ring_count s)"
  define msg where "msg = (case message of None \<Rightarrow> ''(null)'' | Some m \<Rightarrow> m)"
  have h: "h < 64" and n: "n \<le> 64" and lr: "length (g_ring s) = 64"
    and ll: "\<forall>l \<in> set (g_ring s). length l = 96"
    using assms(1) by (auto simp: klog_inv_def h_def n_def)
  have l0: "length (g_ring s ! h) = 96" using ll h lr by auto
  obtain out p where op: "copy_bounded 95 msg
      (let st3 = put_char (CHR '']'') (copy_bounded 94 level (put_char (CHR ''['') (g_ring s ! h, 0)))
       in if snd st3 < 95 then put_char (CHR '' '') st3 else st3) = (out, p)"
    by (cases "copy_bounded 95 msg
      (let st3 = put_char (CHR '']'') (copy_bounded 94 level (put_char (CHR ''['') (g_ring s ! h, 0)))
       in if snd st3 < 95 then put_char (CHR '' '') st3 else st3)")
  define new where "new = out[p := NUL]"
  have new: "cstr new = log_line level msg" "length new = 96"
    using ring_line [OF l0 assms(2), of msg] by (simp_all add: op new_def)
  let ?t = "ring_write_line level message s"
  have t: "g_ring ?t = (g_ring s)[h := new]" "unat (g_ring_head ?t) = (h + 1) mod 64"
    "unat (g_ring_count ?t) = (if n < 64 then n + 1 else n)"
    using op h n unat_mod_64_add [of "g_ring_head s"]
    by (simp_all add: ring_write_line_def Let_def h_def n_def msg_def new_def word_less_nat_alt
        unat_word_ariths)
  show "klog_inv ?t"
    using lr ll new n by (auto simp: klog_inv_def t dest!: set_update_subset_insert [THEN subsetD])
  show "ring_recent ?t = (if length (ring_recent s) < 64 then ring_recent s else tl (ring_recent s))
      @ [log_line level msg]"
  proof (cases "n < 64")
    case True
    have "((h + 1) mod 64 + 64 - (n + 1)) mod 64 = (h + 64 - n) mod 64"
      using h True by (cases "h = 63") (auto simp: mod_if)
    then have "window ((g_ring s)[h := new]) ((h + 1) mod 64 + 64 - (n + 1)) (Suc n) =
        window ((g_ring s)[h := new]) (h + 64 - n) (Suc n)"
      using lr by (intro window_start) simp
    also have "\<dots> = window (g_ring s) (h + 64 - n) n @ [new]"
      using window_snoc [of n "g_ring s" "h + 64 - n" new] True lr h n by simp
    finally show ?thesis
      using True by (simp add: ring_recent_def t h_def [symmetric] n_def [symmetric] new)
  next
    case False
    then have n64: "n = 64" using n by simp
    have "window ((g_ring s)[h := new]) ((h + 1) mod 64) 64 =
        window ((g_ring s)[h := new]) (Suc h) 64"
      using lr by (intro window_start) simp
    also have "\<dots> = tl (window (g_ring s) h 64) @ [new]"
      using window_slide [of "g_ring s" h new] lr h by (cases "g_ring s = []") auto
    finally show ?thesis
      using n64 by (simp add: ring_recent_def t h_def [symmetric] n_def [symmetric] new map_tl)
  qed
qed

interpretation klog_ring: recent_log
  "\<lambda>(level, message). ring_write_line level message" ring_recent
  "\<lambda>(level, message). log_line level (case message of None \<Rightarrow> ''(null)'' | Some m \<Rightarrow> m)"
  64 "\<lambda>(level, message). length (cstr level) \<le> 90" klog_inv
  by unfold_locales
    (auto simp: ring_write_line_recent dest: klog_inv_count)

lemma print_frame [frame_simps]:
  "g_ring (print x s) = g_ring s" "g_ring_head (print x s) = g_ring_head s"
  "g_ring_count (print x s) = g_ring_count s"
  by (simp_all add: print_def)

lemma console_print: "console (print x s) = console s @ cstr x"
  by (simp add: print_def)

lemma dump_fold:
  "let t = fold (\<lambda>k t. print [NL] (print (g_ring t ! f k) t)) ks s
   in g_ring t = g_ring s \<and>
      console t = console s @ concat (map (\<lambda>k. cstr (g_ring s ! f k) @ [NL]) ks)"
  by (induction ks arbitrary: s) (auto simp: Let_def frame_simps console_print)

lemma unat_ring_index:
  assumes "unat head < 64" and "lim \<le> 64" and "i < unat lim"
  shows "unat (((head + 64 - lim) mod 64 + of_nat i) mod 64 :: u32) =
    (unat head + 64 - unat lim + i) mod 64"
proof -
  have l: "unat lim \<le> 64" using assms(2) by (simp add: word_le_nat_alt)
  have "unat (head + 64 - lim) = unat head + 64 - unat lim"
    using assms(1) l by (simp add: unat_sub_if' unat_plus_if')
  then have "unat ((head + 64 - lim) mod 64) = (unat head + 64 - unat lim) mod 64"
    by (simp add: unat_mod)
  then show ?thesis
    using assms(3) l by (simp add: unat_mod unat_plus_if' unat_of_nat mod_simps)
qed

lemma klog_dump_recent_console:
  assumes "klog_inv s" and "g_ring_count s \<noteq> 0"
  shows "console (klog_dump_recent limit s) = console s @
    (let r = ring_recent s; n = (if limit = 0 \<or> limit > g_ring_count s then length r else unat limit)
     in concat (map (\<lambda>l. l @ [NL]) (drop (length r - n) r)))"
proof -
  define lim where "lim = (if limit = 0 \<or> limit > g_ring_count s then g_ring_count s else limit)"
  let ?h = "unat (g_ring_head s)" and ?c = "unat (g_ring_count s)"
  have inv: "?h < 64" "?c \<le> 64" "length (g_ring s) = 64"
    using assms(1) by (auto simp: klog_inv_def)
  have lc: "unat lim \<le> ?c" by (auto simp: lim_def word_le_nat_alt word_less_nat_alt)
  then have l64: "lim \<le> 64" using inv(2) by (simp add: word_le_nat_alt)
  define st where "st = (g_ring_head s + 64 - lim) mod 64"
  have "console (klog_dump_recent limit s) = console s @
      concat (map (\<lambda>k. cstr (g_ring s ! unat ((st + of_nat k) mod 64)) @ [NL]) [0..<unat lim])"
    using dump_fold [of "\<lambda>i. unat ((st + i) mod 64)" "map of_nat [0..<unat lim]" s] assms(2)
    by (simp add: klog_dump_recent_def for_range_fold Let_def lim_def [symmetric] st_def [symmetric]
        comp_def del: upt_Suc)
  also have "map (\<lambda>k. cstr (g_ring s ! unat ((st + of_nat k) mod 64)) @ [NL]) [0..<unat lim] =
      map (\<lambda>l. l @ [NL]) (drop (?c - unat lim) (ring_recent s))"
  proof (rule nth_equalityI)
    fix i assume "i < length (map (\<lambda>k. cstr (g_ring s ! unat ((st + of_nat k) mod 64)) @ [NL])
      [0..<unat lim])"
    then have i: "i < unat lim" by simp
    have "?h + 64 - unat lim + i = ?h + 64 - ?c + (?c - unat lim + i)"
      using lc inv by simp
    then show "map (\<lambda>k. cstr (g_ring s ! unat ((st + of_nat k) mod 64)) @ [NL]) [0..<unat lim] ! i =
        map (\<lambda>l. l @ [NL]) (drop (?c - unat lim) (ring_recent s)) ! i"
      using i lc inv unat_ring_index [OF inv(1) l64 i]
      by (simp add: ring_recent_def window_def st_def add.assoc)
  qed (use lc in \<open>simp add: ring_recent_def\<close>)
  finally show ?thesis by (simp add: Let_def lim_def ring_recent_def split: if_splits)
qed

section \<open>Every logged line reaches the ring\<close>

text \<open>\<open>con_ring s\<close>: the part of the state that belongs to the ring.\<close>

definition con_ring :: "'a con_scheme \<Rightarrow> string list \<times> u32 \<times> u32" where
  "con_ring s = (g_ring s, g_ring_head s, g_ring_count s)"

lemma con_ring_serial_char [simp]: "con_ring (serial_write_char c s) = con_ring s"
  by (simp add: serial_write_char_def con_ring_def)

lemma con_ring_serial_fold: "con_ring (fold serial_write_char cs s) = con_ring s"
  by (induction cs arbitrary: s) simp_all

lemma con_ring_out [simp]:
  "con_ring (print x s) = con_ring s" "con_ring (serial_write x s) = con_ring s"
  "con_ring (klog_prefix x s) = con_ring s"
  by (simp_all add: klog_prefix_def serial_write_def con_ring_serial_fold)
    (simp_all add: print_def con_ring_def)

lemma con_ring_cong:
  "con_ring s = con_ring t \<Longrightarrow> klog_inv s = klog_inv t"
  "con_ring s = con_ring t \<Longrightarrow> ring_recent s = ring_recent t"
  by (simp_all add: con_ring_def klog_inv_def ring_recent_def)

lemma klog_line_ring:
  "ring_recent (klog_line level m s) = ring_recent (ring_write_line level (Some m) s)"
  "klog_inv (klog_line level m s) = klog_inv (ring_write_line level (Some m) s)"
  by (rule con_ring_cong, simp add: klog_line_def)+

interpretation klog_log: recent_log
  "\<lambda>(level, message). klog_line level message" ring_recent
  "\<lambda>(level, message). log_line level message"
  64 "\<lambda>(level, message). length (cstr level) \<le> 90" klog_inv
  by unfold_locales
    (auto simp: klog_line_ring ring_write_line_recent dest: klog_inv_count)

section \<open>No leading zero\<close>

lemma dec_buf_last: "0 < v \<Longrightarrow> dec_buf v \<noteq> [] \<and> last (dec_buf v) \<noteq> CHR ''0''"
proof (induction v rule: dec_buf.induct)
  case (1 v)
  show ?case
  proof (cases "v div 10 > 0")
    case True
    then show ?thesis using 1 by (subst (1 2) dec_buf.simps) auto
  next
    case False
    then have "v div 10 = 0" by (simp add: word_gt_0)
    then have "unat (v div 10) = 0" by simp
    then have d: "unat v div 10 = 0" by (simp add: unat_div)
    have "unat v \<noteq> 0" using "1.prems" by (simp add: word_less_nat_alt)
    then have "digit_val (char_of (48 + unat (v mod 10))) \<noteq> digit_val (CHR ''0'')"
      using d digit_char [of "unat v mod 10"] by (simp add: unat_mod digit_val_def)
    then have "char_of (48 + unat (v mod 10)) \<noteq> CHR ''0''" by metis
    moreover have "dec_buf (v div 10) = []" using False by (subst dec_buf.simps) simp
    ultimately show ?thesis using "1.prems" by (subst (1 2) dec_buf.simps) simp
  qed
qed

section \<open>Properties\<close>

text \<open>The log at boot: 64 empty slots.\<close>

definition klog_boot :: con where
  "klog_boot = \<lparr>io_log = [], device = null_machine, if_flag = False, console = [], serial = [],
     serial_ready = False,
     g_ring = replicate 64 (replicate 96 NUL), g_ring_head = 0, g_ring_count = 0\<rparr>"

lemma klog_boot_inv: "klog_inv klog_boot" "ring_recent klog_boot = []"
  by (simp_all add: klog_inv_def klog_boot_def ring_recent_def window_def)

text \<open>
  C26: after any sequence of log calls the ring holds exactly the last 64 lines, oldest
  first, each with its level prefix and cut to the 95 characters a slot has room for.
\<close>

theorem klog_keeps_recent:
  assumes "klog_inv s" and "ring_recent s = []" and "list_all (\<lambda>(l, m). length (cstr l) \<le> 90) ls"
  shows "ring_recent (fold (\<lambda>(l, m). klog_line l m) ls s)
      = drop (length ls - 64) (map (\<lambda>(l, m). log_line l m) ls)
    \<and> klog_inv (fold (\<lambda>(l, m). klog_line l m) ls s)"
  using klog_log.recent_fold [OF assms(1,3,2)] klog_log.recent_fold_from [OF assms(1,3), of "[]"]
    assms(2) by simp

theorem klog_keeps_recent_witness:
  "ring_recent (klog_line ''WARN'' ''b'' (klog_line ''INFO'' ''a'' klog_boot))
     = [''[INFO] a'', ''[WARN] b'']"
  using klog_keeps_recent [of klog_boot "[(''INFO'', ''a''), (''WARN'', ''b'')]"] klog_boot_inv
  by (simp add: log_line_def)

text \<open>
  The log dump prints the most recent lines, oldest first, one per line: as many as asked
  for, and all of them when the request is zero or exceeds what the ring holds.
\<close>

theorem klog_dump_recent_correct:
  assumes "klog_inv s"
  shows "console (klog_dump_recent limit s) = console s @
    (if ring_recent s = [] then ''dmesg: empty'' @ [NL]
     else let r = ring_recent s; n = (if limit = 0 \<or> unat limit > length r then length r else unat limit)
          in concat (map (\<lambda>l. l @ [NL]) (drop (length r - n) r)))"
proof (cases "g_ring_count s = 0")
  case True
  then have "ring_recent s = []" by (simp add: ring_recent_def)
  then show ?thesis using True by (simp add: klog_dump_recent_def console_print)
next
  case False
  then have "ring_recent s \<noteq> []" by (simp flip: length_greater_0_conv add: unat_gt_0)
  then show ?thesis
    using klog_dump_recent_console [OF assms False, of limit]
    by (simp add: Let_def word_less_nat_alt)
qed

theorem klog_dump_recent_correct_witness:
  "console (klog_dump_recent 0 klog_boot) = ''dmesg: empty'' @ [NL]"
  using klog_dump_recent_correct [OF klog_boot_inv(1), of 0] klog_boot_inv(2)
  by (simp add: klog_boot_def)

text \<open>
  printing a 64-bit number writes its decimal digits, read back as the same number,
  without a leading zero unless the number is zero, and fills at most 20 of the 32 bytes of
  the digit buffer.
\<close>

theorem print_dec_correct:
  "console (print_dec v s) = console s @ dec_str v \<and> dec_val (dec_str v) = unat v
    \<and> (hd (dec_str v) = CHR ''0'' \<longleftrightarrow> v = 0) \<and> length (dec_buf v) \<le> 20"
proof -
  have "hd (dec_str v) = CHR ''0'' \<longleftrightarrow> v = 0"
    using dec_buf_last [of v] by (auto simp: dec_str_def hd_rev word_gt_0)
  then show ?thesis by (simp add: print_dec_def dec_str_val length_dec_buf_20)
qed

section \<open>What output leaves alone\<close>

text \<open>Two states that differ at most in the console, the serial line and the log.\<close>

definition con_only :: "'a con_scheme \<Rightarrow> 'a con_scheme \<Rightarrow> bool" where
  "con_only s t \<longleftrightarrow> (\<exists>c se r h n. t = s\<lparr>console := c, serial := se, g_ring := r, g_ring_head := h, g_ring_count := n\<rparr>)"

lemma con_onlyI:
  "t = s\<lparr>console := c, serial := se, g_ring := r, g_ring_head := h, g_ring_count := n\<rparr> \<Longrightarrow> con_only s t"
  unfolding con_only_def by blast

lemma con_only_refl: "con_only s s"
  by (rule con_onlyI [where c = "console s" and se = "serial s" and r = "g_ring s" and h = "g_ring_head s" and n = "g_ring_count s"]) simp

lemma con_only_trans: "con_only s t \<Longrightarrow> con_only t u \<Longrightarrow> con_only s u"
  unfolding con_only_def by force

lemma con_only_print: "con_only s (print x s)" "con_only s (print_hex v s)" "con_only s (print_dec v s)"
  by (rule con_onlyI [where se = "serial s" and r = "g_ring s" and h = "g_ring_head s" and n = "g_ring_count s"],
      simp add: print_def print_hex_def print_dec_def)+

lemma con_only_serial_char: "con_only s (serial_write_char c s)"
  by (auto simp: serial_write_char_def con_only_refl
      intro: con_onlyI [where c = "console s" and r = "g_ring s" and h = "g_ring_head s" and n = "g_ring_count s"])

lemma con_only_serial_fold: "con_only s (fold serial_write_char cs s)"
  by (induction cs arbitrary: s) (auto intro: con_only_refl con_only_trans [OF con_only_serial_char])

lemma con_only_serial:
  "con_only s (serial_write x s)" "con_only s (serial_write_hex v s)" "con_only s (serial_write_dec v s)"
proof -
  show w: "con_only s (serial_write x s)" for x by (simp add: serial_write_def con_only_serial_fold)
  show "con_only s (serial_write_hex v s)"
    unfolding serial_write_hex_def by (rule con_only_trans [OF w con_only_serial_fold])
  show "con_only s (serial_write_dec v s)"
    by (simp add: serial_write_dec_def con_only_serial_fold con_only_serial_char)
qed

lemma con_only_ring_upd: "con_only s (s\<lparr>g_ring := r, g_ring_head := h, g_ring_count := n\<rparr>)"
  by (rule con_onlyI [where c = "console s" and se = "serial s" and r = r and h = h and n = n]) simp

lemma con_only_ring: "con_only s (ring_write_line l m s)"
  unfolding ring_write_line_def Let_def case_prod_unfold by (rule con_only_ring_upd)

lemma con_only_klog_line: "con_only s (klog_line l m s)"
  unfolding klog_line_def klog_prefix_def
  by (intro con_only_trans [OF _ con_only_serial(1)] con_only_trans [OF _ con_only_print(1)] con_only_ring)

lemma con_only_klog [intro]:
  "con_only s (klog_info m s)" "con_only s (klog_warn m s)" "con_only s (klog_error m s)"
  "con_only s (klog_hex v s)" "con_only s (klog_dec v s)" "con_only s (klog_newline s)"
  unfolding klog_info_def klog_warn_def klog_error_def klog_hex_def klog_dec_def klog_newline_def
  by (rule con_only_klog_line con_only_trans [OF con_only_print(1) con_only_serial(1)]
      con_only_trans [OF con_only_print(2) con_only_serial(2)]
      con_only_trans [OF con_only_print(3) con_only_serial(3)])+

lemma con_only_io:
  assumes "con_only s t"
  shows "io_log t = io_log s" "device t = device s" "if_flag t = if_flag s"
  using assms by (auto simp: con_only_def)

end
