(* ===== verification/Pmm.thy ===== *)
theory Pmm
  imports Physmem Console
begin

text \<open>
  The physical memory manager, \<^verbatim>\<open>kernel/pmm.c\<close>: one bit per 4 KiB frame in a bitmap that
  lives in physical memory right after the page tables. The state extends the console state
  with physical memory, the global of \<^verbatim>\<open>kernel/paging.c\<close> that locates the bitmap and the
  four statics of \<^verbatim>\<open>kernel/pmm.c\<close>.
\<close>

section \<open>State\<close>

record pmm = con +
  mem :: pmem
  paging_arena_end :: u64
  bitmap :: u64
  bitmap_size :: u64
  total_pages :: u64
  free_pages :: u64

record BootInfo =
  framebuffer :: u64
  width :: u32
  height :: u32
  pixels_per_scanline :: u32
  memory_map :: u64
  memory_map_size :: u64
  memory_map_descriptor_size :: u64
  rsdp :: u64

abbreviation (input) PAGE_SIZE :: u64 where "PAGE_SIZE \<equiv> 4096"

definition KERNEL_VIRT_BASE :: u64 where "KERNEL_VIRT_BASE = 0xFFFFFFFF80000000"
definition KERNEL_PHYS_BASE :: u64 where "KERNEL_PHYS_BASE = 0x100000"

section \<open>Bitmap helpers\<close>

definition bitmap_set :: "u64 \<Rightarrow> 'a pmm_scheme \<Rightarrow> 'a pmm_scheme" where
  "bitmap_set page_index s =
     (let a = bitmap s + page_index div 8
      in s\<lparr>mem := (mem s)(a := mem s a OR push_bit (unat (page_index mod 8)) 1)\<rparr>)"

definition bitmap_clear :: "u64 \<Rightarrow> 'a pmm_scheme \<Rightarrow> 'a pmm_scheme" where
  "bitmap_clear page_index s =
     (let a = bitmap s + page_index div 8
      in s\<lparr>mem := (mem s)(a := mem s a AND NOT (push_bit (unat (page_index mod 8)) 1))\<rparr>)"

definition bitmap_test :: "u64 \<Rightarrow> 'a pmm_scheme \<Rightarrow> bool" where
  "bitmap_test page_index s \<longleftrightarrow>
     mem s (bitmap s + page_index div 8) AND push_bit (unat (page_index mod 8)) 1 \<noteq> 0"

definition reserve_page :: "u64 \<Rightarrow> 'a pmm_scheme \<Rightarrow> 'a pmm_scheme" where
  "reserve_page page s =
     (if page \<ge> total_pages s then s
      else if \<not> bitmap_test page s
      then let t = bitmap_set page s in t\<lparr>free_pages := free_pages t - 1\<rparr>
      else s)"

definition reserve_range :: "u64 \<Rightarrow> u64 \<Rightarrow> 'a pmm_scheme \<Rightarrow> 'a pmm_scheme" where
  "reserve_range start bytes s =
     (if bytes = 0 then s
      else let start_page = start div PAGE_SIZE;
               end_page = (start + bytes + PAGE_SIZE - 1) div PAGE_SIZE
           in for_range start_page end_page reserve_page s)"

section \<open>Initialisation from the UEFI memory map\<close>

text \<open>The fields of the \<^verbatim>\<open>EFI_MEMORY_DESCRIPTOR\<close> at address \<open>d\<close>.\<close>

definition desc_Type :: "pmem \<Rightarrow> u64 \<Rightarrow> u32" where "desc_Type m d = load32 m d"
definition desc_PhysicalStart :: "pmem \<Rightarrow> u64 \<Rightarrow> u64" where
  "desc_PhysicalStart m d = load64 m (d + 8)"
definition desc_NumberOfPages :: "pmem \<Rightarrow> u64 \<Rightarrow> u64" where
  "desc_NumberOfPages m d = load64 m (d + 24)"

text \<open>
  The offsets visited by \<^verbatim>\<open>for (off = 0; off < memory_map_size; off += dsize)\<close>; \<open>None\<close>
  when the loop never ends (a zero descriptor size, or an offset that wraps for ever).
\<close>

partial_function (option) mmap_offsets :: "u64 \<Rightarrow> u64 \<Rightarrow> u64 \<Rightarrow> u64 list option" where
  "mmap_offsets off msize dsize =
     (if off < msize
      then Option.bind (mmap_offsets (off + dsize) msize dsize) (\<lambda>os. Some (off # os))
      else Some [])"

definition pmm_max_addr :: "pmem \<Rightarrow> u64 \<Rightarrow> u64 list \<Rightarrow> u64" where
  "pmm_max_addr m mmap offs = fold (\<lambda>off max_addr.
     let d = mmap + off; e = desc_PhysicalStart m d + desc_NumberOfPages m d * PAGE_SIZE
     in if e > max_addr then e else max_addr) offs 0"

text \<open>The frames of one conventional (type 7) descriptor are cleared and counted.\<close>

definition pmm_free_desc :: "u64 \<Rightarrow> 'a pmm_scheme \<Rightarrow> 'a pmm_scheme" where
  "pmm_free_desc d s =
     (if desc_Type (mem s) d \<noteq> 7 then s
      else for_dyn 0 (\<lambda>t. desc_NumberOfPages (mem t) d)
        (\<lambda>p t. let page = desc_PhysicalStart (mem t) d div PAGE_SIZE + p;
                   t' = bitmap_clear page t
               in t'\<lparr>free_pages := free_pages t' + 1\<rparr>) s)"

definition pmm_reserve_desc :: "u64 \<Rightarrow> 'a pmm_scheme \<Rightarrow> 'a pmm_scheme" where
  "pmm_reserve_desc d s =
     (if desc_Type (mem s) d \<in> {5, 6, 9, 10, 11}
      then reserve_range (desc_PhysicalStart (mem s) d)
             (desc_NumberOfPages (mem s) d * PAGE_SIZE) s
      else s)"

definition kernel_end_phys :: "u64 \<Rightarrow> u64" where
  "kernel_end_phys kernel_end = kernel_end - KERNEL_VIRT_BASE + KERNEL_PHYS_BASE"

definition pmm_reserve_fixed :: "u64 \<Rightarrow> BootInfo \<Rightarrow> 'a pmm_scheme \<Rightarrow> 'a pmm_scheme" where
  "pmm_reserve_fixed kernel_end bootInfo s =
     (let k_start = KERNEL_PHYS_BASE div PAGE_SIZE;
          k_end = (kernel_end_phys kernel_end + PAGE_SIZE - 1) div PAGE_SIZE;
          s1 = for_range k_start k_end reserve_page s;
          s2 = for_range k_end (paging_arena_end s1 div PAGE_SIZE) reserve_page s1;
          s3 = for_range (paging_arena_end s2 div PAGE_SIZE)
                 ((paging_arena_end s2 + bitmap_size s2 + PAGE_SIZE - 1) div PAGE_SIZE) reserve_page s2;
          s4 = reserve_page 0 s3;
          s5 = for_range 1 16 reserve_page s4;
          fb_bytes = ucast (height bootInfo) * ucast (pixels_per_scanline bootInfo) * 4;
          s6 = reserve_range (framebuffer bootInfo) fb_bytes s5
      in reserve_range (rsdp bootInfo) PAGE_SIZE s6)"

definition pmm_report :: "u64 \<Rightarrow> 'a pmm_scheme \<Rightarrow> 'a pmm_scheme" where
  "pmm_report kernel_end s =
     (let s1 = print ('' MB'' @ [NL]) (print_dec (free_pages s * PAGE_SIZE div (1024 * 1024))
                 (print ''PMM: free RAM: '' s));
          s2 = print [NL] (print_hex (bitmap s1) (print ''PMM: bitmap at: '' s1));
          s3 = print [NL] (print_hex (paging_arena_end s2) (print ''PMM: paging_arena_end: '' s2));
          s4 = print '' - '' (print_hex KERNEL_PHYS_BASE (print ''PMM: kernel phys: '' s3))
      in print [NL] (print_hex (kernel_end_phys kernel_end) s4))"

definition pmm_init :: "u64 \<Rightarrow> BootInfo \<Rightarrow> 'a pmm_scheme \<Rightarrow> (unit, 'a pmm_scheme) outcome" where
  "pmm_init kernel_end bootInfo s =
     (case mmap_offsets 0 (memory_map_size bootInfo) (memory_map_descriptor_size bootInfo) of
        None \<Rightarrow> Hang
      | Some offs \<Rightarrow>
          let mmap = memory_map bootInfo;
              tp = pmm_max_addr (mem s) mmap offs div PAGE_SIZE;
              s1 = s\<lparr>total_pages := tp, bitmap_size := (tp + 7) div 8, bitmap := paging_arena_end s\<rparr>;
              s2 = for_range 0 (bitmap_size s1) (\<lambda>i t. t\<lparr>mem := (mem t)(bitmap t + i := 0xFF)\<rparr>) s1;
              s3 = s2\<lparr>free_pages := 0\<rparr>;
              s4 = fold (\<lambda>off. pmm_free_desc (mmap + off)) offs s3;
              s5 = pmm_reserve_fixed kernel_end bootInfo s4;
              s6 = fold (\<lambda>off. pmm_reserve_desc (mmap + off)) offs s5
          in Ok () (pmm_report kernel_end s6))"

section \<open>Allocation\<close>

definition pmm_alloc_page :: "'a pmm_scheme \<Rightarrow> u64 \<times> 'a pmm_scheme" where
  "pmm_alloc_page s =
     (case find_range 0 (total_pages s) (\<lambda>i. \<not> bitmap_test i s) of
        None \<Rightarrow> (0, s)
      | Some i \<Rightarrow> let t = bitmap_set i s in (i * PAGE_SIZE, t\<lparr>free_pages := free_pages t - 1\<rparr>))"

text \<open>
  The search of \<^verbatim>\<open>pmm_alloc_pages\<close>: at a used frame \<open>j\<close> inside the candidate run the
  outer counter jumps to \<open>j\<close> and the loop increment moves it to \<open>j + 1\<close>.
\<close>

function pmm_find_run :: "u64 \<Rightarrow> u64 \<Rightarrow> (u64 \<Rightarrow> bool) \<Rightarrow> u64 \<Rightarrow> u64 option" where
  "pmm_find_run tot count used i =
     (if i \<le> tot - count
      then (case find_range i (i + count) used of
              Some j \<Rightarrow> pmm_find_run tot count used (j + 1)
            | None \<Rightarrow> Some i)
      else None)"
  by pat_completeness auto

lemma find_range_Suc_dec:
  assumes "find_range i n used = Some (j :: u64)"
  shows "2 ^ 64 - unat (j + 1) < 2 ^ 64 - unat i"
proof -
  have "i \<le> j" "j < n" using assms by (auto simp: find_range_Some_iff)
  then show ?thesis
    using unat_Suc_less [of j n] unat_u64_less [of j]
    by (simp add: word_le_nat_alt word_less_nat_alt)
qed

termination pmm_find_run
  by (relation "measure (\<lambda>(tot, count, used, i). 2 ^ 64 - unat i)")
    (auto dest: find_range_Suc_dec)

declare pmm_find_run.simps [simp del]

definition pmm_alloc_pages :: "u64 \<Rightarrow> 'a pmm_scheme \<Rightarrow> u64 \<times> 'a pmm_scheme" where
  "pmm_alloc_pages count s =
     (if count = 0 \<or> count > total_pages s then (0, s)
      else case pmm_find_run (total_pages s) count (\<lambda>j. bitmap_test j s) 1 of
        None \<Rightarrow> (0, s)
      | Some i \<Rightarrow> (i * PAGE_SIZE,
          for_range i (i + count)
            (\<lambda>j t. let t' = bitmap_set j t in t'\<lparr>free_pages := free_pages t' - 1\<rparr>) s))"

definition pmm_free_page :: "u64 \<Rightarrow> 'a pmm_scheme \<Rightarrow> 'a pmm_scheme" where
  "pmm_free_page addr s =
     (let page = addr div PAGE_SIZE
      in if page = 0 \<or> page \<ge> total_pages s then s
         else if bitmap_test page s
         then let t = bitmap_clear page s in t\<lparr>free_pages := free_pages t + 1\<rparr>
         else s)"

definition pmm_get_free_pages :: "'a pmm_scheme \<Rightarrow> u64" where
  "pmm_get_free_pages s = free_pages s"

definition pmm_get_total_pages :: "'a pmm_scheme \<Rightarrow> u64" where
  "pmm_get_total_pages s = total_pages s"

section \<open>The bitmap as a set of frames\<close>

definition page_used :: "'a pmm_scheme \<Rightarrow> nat \<Rightarrow> bool" where
  "page_used s p \<longleftrightarrow> bit (mem s (bitmap s + of_nat (p div 8))) (p mod 8)"

definition free_set :: "'a pmm_scheme \<Rightarrow> nat set" where
  "free_set s = {p. p < unat (total_pages s) \<and> \<not> page_used s p}"

lemma finite_free_set [simp]: "finite (free_set s)"
  by (simp add: free_set_def)

lemma word_div_8: "(w :: u64) div 8 = of_nat (unat w div 8)"
  using unat_u64_less [of w] by (simp add: word_unat_eq_iff unat_div unat_of_nat)

lemma bitmap_test_used: "bitmap_test i s \<longleftrightarrow> page_used s (unat i)"
  by (simp add: bitmap_test_def page_used_def and_exp_eq_0_iff_not_bit word_div_8 unat_mod)

lemma bitmap_byte_inj:
  "p < 2 ^ 64 \<Longrightarrow> q < 2 ^ 64 \<Longrightarrow>
   b + (of_nat (p div 8) :: u64) = b + of_nat (q div 8) \<longleftrightarrow> p div 8 = q div 8"
  by (simp add: word_unat_eq_iff [of "of_nat (p div 8)"] unat_of_nat)

lemma div_mod_8_eq: "(p :: nat) div 8 = q div 8 \<Longrightarrow> p mod 8 = q mod 8 \<Longrightarrow> p = q"
  by (metis div_mult_mod_eq)

lemma page_used_bitmap_set:
  assumes "p < 2 ^ 64"
  shows "page_used (bitmap_set i s) p \<longleftrightarrow> p = unat i \<or> page_used s p"
proof -
  have i: "unat i < 2 ^ 64" using unat_u64_less [of i] by simp
  show ?thesis
  proof (cases "p div 8 = unat i div 8")
    case True
    have "p = unat i \<longleftrightarrow> p mod 8 = unat i mod 8" using True div_mod_8_eq by blast
    then show ?thesis
      using True by (auto simp: bitmap_set_def page_used_def Let_def word_div_8 bit_simps unat_mod)
  next
    case False
    then show ?thesis
      using assms i bitmap_byte_inj [of p "unat i" "bitmap s"]
      by (auto simp: bitmap_set_def page_used_def Let_def word_div_8)
  qed
qed

lemma page_used_bitmap_clear:
  assumes "p < 2 ^ 64"
  shows "page_used (bitmap_clear i s) p \<longleftrightarrow> p \<noteq> unat i \<and> page_used s p"
proof -
  have i: "unat i < 2 ^ 64" using unat_u64_less [of i] by simp
  show ?thesis
  proof (cases "p div 8 = unat i div 8")
    case True
    have "p = unat i \<longleftrightarrow> p mod 8 = unat i mod 8" using True div_mod_8_eq by blast
    then show ?thesis
      using True by (auto simp: bitmap_clear_def page_used_def Let_def word_div_8 bit_simps unat_mod)
  next
    case False
    then show ?thesis
      using assms i bitmap_byte_inj [of p "unat i" "bitmap s"]
      by (auto simp: bitmap_clear_def page_used_def Let_def word_div_8)
  qed
qed

lemma page_used_free_pages [simp]: "page_used (s\<lparr>free_pages := x\<rparr>) p = page_used s p"
  by (simp add: page_used_def)

lemma bitmap_frame [simp, frame_simps]:
  "total_pages (bitmap_set i s) = total_pages s" "total_pages (bitmap_clear i s) = total_pages s"
  "free_pages (bitmap_set i s) = free_pages s" "free_pages (bitmap_clear i s) = free_pages s"
  "bitmap (bitmap_set i s) = bitmap s" "bitmap (bitmap_clear i s) = bitmap s"
  "bitmap_size (bitmap_set i s) = bitmap_size s" "bitmap_size (bitmap_clear i s) = bitmap_size s"
  by (simp_all add: bitmap_set_def bitmap_clear_def Let_def)

lemma total_pages_bound: "p < unat (total_pages s) \<Longrightarrow> p < 2 ^ 64"
  using unat_u64_less [of "total_pages s"] by simp

lemma free_set_bitmap_set: "free_set (bitmap_set i s) = free_set s - {unat i}"
  by (auto simp: free_set_def page_used_bitmap_set dest: total_pages_bound)

lemma free_set_bitmap_clear:
  "unat i < unat (total_pages s) \<Longrightarrow> free_set (bitmap_clear i s) = insert (unat i) (free_set s)"
  by (auto simp: free_set_def page_used_bitmap_clear dest: total_pages_bound)

lemma free_set_free_pages [simp]: "free_set (s\<lparr>free_pages := x\<rparr>) = free_set s"
  by (simp add: free_set_def)

section \<open>Invariant\<close>

definition frame_region :: "nat \<Rightarrow> u64 set" where
  "frame_region p = region (page_addr p) 4096"

definition bitmap_region :: "'a pmm_scheme \<Rightarrow> u64 set" where
  "bitmap_region s = region (bitmap s) (unat (bitmap_size s))"

text \<open>
  The free counter counts the clear bits, frame 0 (the null pointer) is never free, every
  frame address fits in 64 bits, the bitmap has a bit for every frame and no free frame
  overlaps the bitmap.
\<close>

definition pmm_inv :: "'a pmm_scheme \<Rightarrow> bool" where
  "pmm_inv s \<longleftrightarrow>
     unat (total_pages s) < 2 ^ 52 \<and> unat (free_pages s) = card (free_set s) \<and>
     0 \<notin> free_set s \<and>
     unat (bitmap_size s) = (unat (total_pages s) + 7) div 8 \<and>
     unat (bitmap s) + unat (bitmap_size s) \<le> 2 ^ 64 \<and>
     (\<forall>p \<in> free_set s. frame_region p \<inter> bitmap_region s = {})"

lemma bitmap_region_frame [simp, frame_simps]:
  "bitmap_region (bitmap_set i s) = bitmap_region s"
  "bitmap_region (bitmap_clear i s) = bitmap_region s"
  "bitmap_region (s\<lparr>free_pages := x\<rparr>) = bitmap_region s"
  by (simp_all add: bitmap_region_def)

lemma unat_dec: "x \<noteq> 0 \<Longrightarrow> unat (x - 1 :: u64) = unat x - 1"
  by (simp add: unat_sub_if' word_gt_0 unat_gt_0 Suc_le_eq)

text \<open>Taking one free frame, the step all allocation paths share.\<close>

lemma take_frame_inv:
  assumes "pmm_inv s" and "unat i \<in> free_set s"
  shows "pmm_inv ((bitmap_set i s)\<lparr>free_pages := free_pages (bitmap_set i s) - 1\<rparr>)"
proof -
  have "card (free_set s) \<noteq> 0" using assms(2) by auto
  then have "free_pages s \<noteq> 0" using assms(1) by (auto simp: pmm_inv_def)
  then have "unat (free_pages s - 1) = card (free_set s - {unat i})"
    using assms by (simp add: unat_dec pmm_inv_def)
  then show ?thesis using assms by (auto simp: pmm_inv_def free_set_bitmap_set)
qed

section \<open>One frame\<close>

lemma pmm_alloc_page_cases:
  obtains (none) "free_set s = {}" "pmm_alloc_page s = (0, s)"
  | (some) i where "unat i = Min (free_set s)" "free_set s \<noteq> {}"
      "pmm_alloc_page s =
        (i * PAGE_SIZE, (bitmap_set i s)\<lparr>free_pages := free_pages (bitmap_set i s) - 1\<rparr>)"
proof (cases "find_range 0 (total_pages s) (\<lambda>i. \<not> bitmap_test i s)")
  case None
  have "free_set s = {}"
  proof (rule ccontr)
    assume "free_set s \<noteq> {}"
    then obtain p where p: "p < unat (total_pages s)" "\<not> page_used s p"
      by (auto simp: free_set_def)
    then have "unat (of_nat p :: u64) = p" by (intro unat_of_nat_u64 total_pages_bound)
    then show False
      using None p by (auto simp: find_range_None_iff bitmap_test_used word_less_nat_alt
          dest!: spec [of _ "of_nat p"])
  qed
  then show ?thesis using None that(1) by (simp add: pmm_alloc_page_def)
next
  case (Some i)
  then have i: "i < total_pages s" "\<not> page_used s (unat i)"
    "\<And>k. k < i \<Longrightarrow> page_used s (unat k)"
    by (auto simp: find_range_Some_iff bitmap_test_used)
  have mem: "unat i \<in> free_set s" using i by (simp add: free_set_def word_less_nat_alt)
  have "unat i \<le> p" if "p \<in> free_set s" for p
  proof (rule ccontr)
    assume "\<not> unat i \<le> p"
    moreover have "unat (of_nat p :: u64) = p"
      using that by (intro unat_of_nat_u64 total_pages_bound [of p s]) (simp add: free_set_def)
    ultimately show False
      using i(3) [of "of_nat p"] that by (simp add: free_set_def word_less_nat_alt)
  qed
  then have "unat i = Min (free_set s)" using mem by (intro Min_eqI [symmetric]) auto
  then show ?thesis
    using Some mem that(2) by (auto simp: pmm_alloc_page_def Let_def)
qed

lemma frame_addr:
  assumes "pmm_inv s" and "unat i < unat (total_pages s)"
  shows "unat (i * PAGE_SIZE) = 4096 * unat i"
  using assms by (simp add: pmm_inv_def unat_word_ariths)


lemma pmm_alloc_page_some:
  assumes "pmm_inv s" and "free_set s \<noteq> {}"
  obtains i s' where "pmm_alloc_page s = (page_addr (Min (free_set s)), s')"
    "s' = (bitmap_set i s)\<lparr>free_pages := free_pages (bitmap_set i s) - 1\<rparr>"
    "unat i = Min (free_set s)" "free_set s' = free_set s - {Min (free_set s)}" "pmm_inv s'"
proof (cases rule: pmm_alloc_page_cases [of s])
  case none
  then show ?thesis using assms by simp
next
  case (some i)
  have i: "unat i \<in> free_set s" using some(1) assms(2) by simp
  have "i * PAGE_SIZE = page_addr (Min (free_set s))"
    using some(1) by (simp add: page_addr_unat)
  then show ?thesis
    using some i that [of _ i] take_frame_inv [OF assms(1) i] by (simp add: free_set_bitmap_set)
qed

lemma pmm_free_page_frame:
  assumes "pmm_inv s" and "0 < n" and "n < unat (total_pages s)"
    and "frame_region n \<inter> bitmap_region s = {}"
  shows "free_set (pmm_free_page (page_addr n) s) = insert n (free_set s)"
    and "pmm_inv (pmm_free_page (page_addr n) s)"
proof -
  have n52: "n < 2 ^ 52" using assms by (simp add: pmm_inv_def)
  then have a: "unat (page_addr n) = 4096 * n" by (rule unat_page_addr)
  define pg where "pg = page_addr n div PAGE_SIZE"
  have pg: "unat pg = n" using a by (simp add: pg_def unat_div)
  have nz: "pg \<noteq> 0" using pg assms(2) by auto
  have lt: "\<not> pg \<ge> total_pages s" using pg assms(3) by (simp add: word_le_nat_alt)
  have eq: "pmm_free_page (page_addr n) s =
      (if page_used s n then (bitmap_clear pg s)\<lparr>free_pages := free_pages s + 1\<rparr> else s)"
    using nz lt by (simp add: pmm_free_page_def Let_def pg_def [symmetric] bitmap_test_used pg)
  show fs: "free_set (pmm_free_page (page_addr n) s) = insert n (free_set s)"
    using assms(3) pg by (auto simp: eq free_set_bitmap_clear) (auto simp: free_set_def)
  have "unat (free_pages s + 1) = card (insert n (free_set s))" if "page_used s n"
  proof -
    have "n \<notin> free_set s" using that by (simp add: free_set_def)
    moreover have "card (free_set s) \<le> unat (total_pages s)"
      using card_mono [of "{..<unat (total_pages s)}" "free_set s"] by (auto simp: free_set_def)
    ultimately show ?thesis using assms(1) by (simp add: pmm_inv_def unat_word_ariths)
  qed
  then show "pmm_inv (pmm_free_page (page_addr n) s)"
    using assms fs pg by (auto simp: eq pmm_inv_def free_set_bitmap_clear)
qed

definition freeable :: "'a pmm_scheme \<Rightarrow> nat \<Rightarrow> bool" where
  "freeable s n \<longleftrightarrow> 0 < n \<and> n < unat (total_pages s) \<and> frame_region n \<inter> bitmap_region s = {}"

lemma freeable_frame [simp, frame_simps]:
  "freeable (bitmap_set i s) = freeable s" "freeable (bitmap_clear i s) = freeable s"
  "freeable (s\<lparr>free_pages := x\<rparr>) = freeable s"
  by (auto simp: freeable_def fun_eq_iff bitmap_region_def)

lemma freeable_pmm_free_page [simp]: "freeable (pmm_free_page a s) = freeable s"
  by (simp add: pmm_free_page_def Let_def)

interpretation pmm_frames: page_allocator pmm_alloc_page pmm_free_page free_set freeable pmm_inv
proof unfold_locales
  fix s :: "'a pmm_scheme" and n
  show "0 < n \<and> n < 2 ^ 52 \<and> freeable s n" if "pmm_inv s" "n \<in> free_set s"
    using that by (auto simp: pmm_inv_def freeable_def free_set_def intro: gr0I)
  show "pmm_alloc_page s = (0, s)" if "pmm_inv s" "free_set s = {}"
    using that by (cases rule: pmm_alloc_page_cases [of s]) auto
  show "\<exists>n s'. pmm_alloc_page s = (page_addr n, s') \<and> n \<in> free_set s
      \<and> free_set s' = free_set s - {n} \<and> pmm_inv s' \<and> freeable s' = freeable s"
    if "pmm_inv s" "free_set s \<noteq> {}"
    using pmm_alloc_page_some [OF that] that(2) by (metis Min_in finite_free_set freeable_frame(1,3))
  show "free_set (pmm_free_page (page_addr n) s) = insert n (free_set s)
      \<and> pmm_inv (pmm_free_page (page_addr n) s)
      \<and> freeable (pmm_free_page (page_addr n) s) = freeable s"
    if "pmm_inv s" "freeable s n"
    using that pmm_free_page_frame [of s n] by (auto simp: freeable_def)
qed simp

section \<open>Contiguous frames\<close>

text \<open>A run of \<open>n\<close> free frames from \<open>i\<close> on.\<close>

definition free_run :: "'a pmm_scheme \<Rightarrow> nat \<Rightarrow> nat \<Rightarrow> bool" where
  "free_run s i n \<longleftrightarrow> {i..<i + n} \<subseteq> free_set s"

lemma no_overflow_run:
  fixes i tot cnt :: u64
  assumes "cnt \<le> tot" and "i \<le> tot - cnt"
  shows "unat (i + cnt) = unat i + unat cnt" and "unat i + unat cnt \<le> unat tot"
    and "unat (tot - cnt) = unat tot - unat cnt"
proof -
  show s: "unat (tot - cnt) = unat tot - unat cnt" using assms(1) by (rule unat_sub)
  show le: "unat i + unat cnt \<le> unat tot"
    using assms s by (simp add: word_le_nat_alt)
  then have "unat i + unat cnt < 2 ^ 64" using unat_u64_less [of tot] by simp
  then show "unat (i + cnt) = unat i + unat cnt" by (simp add: unat_word_ariths)
qed

definition run_blocked :: "(u64 \<Rightarrow> bool) \<Rightarrow> nat \<Rightarrow> nat \<Rightarrow> bool" where
  "run_blocked used q n \<longleftrightarrow> (\<exists>k. q \<le> unat k \<and> unat k < q + n \<and> used k)"

text \<open>
  The skip-ahead search returns the least start of a long enough run (the reference
  definition is plain linear search), or nothing when there is none.
\<close>

lemma pmm_find_run_spec:
  assumes "cnt \<noteq> 0" and "cnt \<le> tot"
  shows "case pmm_find_run tot cnt used i of
      Some r \<Rightarrow> unat i \<le> unat r \<and> unat r + unat cnt \<le> unat tot
        \<and> \<not> run_blocked used (unat r) (unat cnt)
        \<and> (\<forall>q. unat i \<le> q \<and> q < unat r \<longrightarrow> run_blocked used q (unat cnt))
    | None \<Rightarrow> (\<forall>q. unat i \<le> q \<and> q + unat cnt \<le> unat tot \<longrightarrow> run_blocked used q (unat cnt))"
  using assms
proof (induction tot cnt used i rule: pmm_find_run.induct)
  case (1 tot cnt used i)
  show ?case
  proof (cases "i \<le> tot - cnt")
    case True
    note r = no_overflow_run [OF "1.prems"(2) True]
    show ?thesis
    proof (cases "find_range i (i + cnt) used")
      case None
      then have "pmm_find_run tot cnt used i = Some i"
        using True by (subst pmm_find_run.simps) simp
      then show ?thesis
        using None r
        by (auto simp: find_range_None_iff word_le_nat_alt word_less_nat_alt run_blocked_def)
    next
      case (Some j)
      then have j: "unat i \<le> unat j" "unat j < unat i + unat cnt" "used j"
        using r by (auto simp: find_range_Some_iff word_le_nat_alt word_less_nat_alt)
      have eq: "pmm_find_run tot cnt used i = pmm_find_run tot cnt used (j + 1)"
        using True Some by (subst pmm_find_run.simps) simp
      have sj: "unat (j + 1) = Suc (unat j)"
        using unat_Suc_less [of j "i + cnt"] j r by (simp add: word_less_nat_alt)
      have hit: "run_blocked used q (unat cnt)" if "unat i \<le> q" "q < Suc (unat j)" for q
        using that j by (auto simp: run_blocked_def intro!: exI [of _ j])
      have IH: "case pmm_find_run tot cnt used (j + 1) of
          Some r \<Rightarrow> Suc (unat j) \<le> unat r \<and> unat r + unat cnt \<le> unat tot
            \<and> \<not> run_blocked used (unat r) (unat cnt)
            \<and> (\<forall>q. Suc (unat j) \<le> q \<and> q < unat r \<longrightarrow> run_blocked used q (unat cnt))
        | None \<Rightarrow> (\<forall>q. Suc (unat j) \<le> q \<and> q + unat cnt \<le> unat tot \<longrightarrow>
              run_blocked used q (unat cnt))"
        using "1.IH" [OF True Some "1.prems"] by (simp only: sj)
      show ?thesis
      proof (cases "pmm_find_run tot cnt used (j + 1)")
        case None
        then have "\<And>q. Suc (unat j) \<le> q \<Longrightarrow> q + unat cnt \<le> unat tot \<Longrightarrow>
            run_blocked used q (unat cnt)"
          using IH by (simp only: option.case)
        then show ?thesis using hit by (simp only: eq None option.case) (meson not_less)
      next
        case (Some r)
        then have r: "Suc (unat j) \<le> unat r" "unat r + unat cnt \<le> unat tot"
          "\<not> run_blocked used (unat r) (unat cnt)"
          "\<And>q. Suc (unat j) \<le> q \<Longrightarrow> q < unat r \<Longrightarrow> run_blocked used q (unat cnt)"
          using IH by auto
        then have "run_blocked used q (unat cnt)" if "unat i \<le> q" "q < unat r" for q
          using hit [of q] that by (meson not_less)
        then show ?thesis using r j(1) by (simp only: eq Some option.case) simp
      qed
    qed
  next
    case False
    then have "pmm_find_run tot cnt used i = None"
      by (subst pmm_find_run.simps) simp
    then show ?thesis
      using False unat_sub [OF "1.prems"(2)] "1.prems"(2) by (auto simp: word_le_nat_alt)
  qed
qed

lemma take_run_inv:
  assumes "pmm_inv s" and "{unat i..<unat n} \<subseteq> free_set s" and "i \<le> n"
  defines "f \<equiv> \<lambda>j t. let t' = bitmap_set j t in t'\<lparr>free_pages := free_pages t' - 1\<rparr>"
  shows "pmm_inv (for_range i n f s) \<and> free_set (for_range i n f s) = free_set s - {unat i..<unat n}"
proof -
  let ?I = "\<lambda>k t. pmm_inv t \<and> free_set t = free_set s - {unat i..<unat k}"
  have "?I n (for_range i n f s)"
  proof (rule for_range_invariant)
    fix k and t :: "'a pmm_scheme"
    assume k: "i \<le> k" "k < n" and t: "?I k t"
    have "unat k \<in> free_set t"
      using t k assms(2) by (auto simp: word_le_nat_alt word_less_nat_alt)
    then have "pmm_inv (f k t)" using t take_frame_inv [of t k] by (simp add: f_def Let_def)
    moreover have "free_set (f k t) = free_set s - {unat i..<unat (k + 1)}"
    proof -
      have "{unat i..<unat (k + 1)} = insert (unat k) {unat i..<unat k}"
        using k(1) by (simp only: unat_Suc_less [OF k(2)] atLeastLessThanSuc word_le_nat_alt) simp
      moreover have "free_set (f k t) = free_set t - {unat k}"
        by (simp add: f_def Let_def free_set_bitmap_set)
      ultimately show ?thesis using t by blast
    qed
    ultimately show "?I (k + 1) (f k t)" ..
  qed (use assms in auto)
  then show ?thesis .
qed

lemma free_set_bound: "p \<in> free_set s \<Longrightarrow> p < unat (total_pages s)"
  by (simp add: free_set_def)

lemma run_used_iff:
  assumes "i + n \<le> unat (total_pages s)"
  shows "run_blocked (\<lambda>j. bitmap_test j s) i n \<longleftrightarrow> \<not> free_run s i n"
proof -
  have "free_run s i n" if r: "\<not> run_blocked (\<lambda>j. bitmap_test j s) i n"
  proof -
    have "p \<in> free_set s" if "i \<le> p" "p < i + n" for p
    proof -
      have "unat (of_nat p :: u64) = p"
        using that assms by (intro unat_of_nat_u64 total_pages_bound [of p s]) simp
      then show ?thesis
        using r that assms
        by (auto simp: run_blocked_def free_set_def bitmap_test_used dest!: spec [of _ "of_nat p"])
    qed
    then show ?thesis by (auto simp: free_run_def)
  qed
  then show ?thesis
    by (auto simp: run_blocked_def free_run_def free_set_def bitmap_test_used)
qed

lemma pmm_alloc_pages_spec:
  assumes "pmm_inv s" and "count \<noteq> 0"
  shows "(\<exists>i \<ge> 1. free_run s i (unat count)) \<Longrightarrow>
      \<exists>s' i. pmm_alloc_pages count s = (page_addr i, s')
        \<and> i = (LEAST i. 1 \<le> i \<and> free_run s i (unat count))
        \<and> free_set s' = free_set s - {i..<i + unat count} \<and> pmm_inv s'"
    and "\<not> (\<exists>i \<ge> 1. free_run s i (unat count)) \<Longrightarrow> pmm_alloc_pages count s = (0, s)"
proof -
  have c0: "0 < unat count" using assms(2) by (simp add: unat_gt_0)
  have in_total: "i + unat count \<le> unat (total_pages s)" if "free_run s i (unat count)" for i
  proof -
    have "i + unat count - 1 \<in> {i..<i + unat count}" using c0 by auto
    then have "i + unat count - 1 \<in> free_set s" using that by (auto simp: free_run_def)
    then show ?thesis using free_set_bound by fastforce
  qed
  define r where "r = pmm_find_run (total_pages s) count (\<lambda>j. bitmap_test j s) 1"
  have r_spec: "count \<le> total_pages s \<Longrightarrow> case r of
      Some q \<Rightarrow> 1 \<le> unat q \<and> unat q + unat count \<le> unat (total_pages s)
        \<and> free_run s (unat q) (unat count)
        \<and> (\<forall>p. 1 \<le> p \<and> p < unat q \<longrightarrow> \<not> free_run s p (unat count))
    | None \<Rightarrow> (\<forall>p. 1 \<le> p \<longrightarrow> \<not> free_run s p (unat count))"
  proof (cases r)
    case None
    assume "count \<le> total_pages s"
    then have "run_blocked (\<lambda>j. bitmap_test j s) p (unat count)"
      if "1 \<le> p" "p + unat count \<le> unat (total_pages s)" for p
      using pmm_find_run_spec [OF assms(2), where tot = "total_pages s" and used = "\<lambda>j. bitmap_test j s" and i = 1] that None
      by (simp add: r_def)
    then have "\<not> free_run s p (unat count)" if "1 \<le> p" for p
      using that in_total [of p] run_used_iff [of p "unat count" s] by auto
    then show ?thesis by (simp add: None)
  next
    case (Some q)
    assume "count \<le> total_pages s"
    then have q: "1 \<le> unat q" "unat q + unat count \<le> unat (total_pages s)"
      "\<not> run_blocked (\<lambda>j. bitmap_test j s) (unat q) (unat count)"
      "\<And>p. 1 \<le> p \<Longrightarrow> p < unat q \<Longrightarrow> run_blocked (\<lambda>j. bitmap_test j s) p (unat count)"
      using pmm_find_run_spec [OF assms(2), where tot = "total_pages s" and used = "\<lambda>j. bitmap_test j s" and i = 1] Some
      by (simp_all add: r_def)
    have "\<not> free_run s p (unat count)" if "1 \<le> p" "p < unat q" for p
      using that q(4) [of p] in_total [of p] run_used_iff [of p "unat count" s] by auto
    moreover have "free_run s (unat q) (unat count)"
      using q(2,3) run_used_iff [of "unat q" "unat count" s] by simp
    ultimately show ?thesis using q by (simp add: Some)
  qed
  show "pmm_alloc_pages count s = (0, s)" if no: "\<not> (\<exists>i \<ge> 1. free_run s i (unat count))"
    using r_spec no assms(2) by (auto simp: pmm_alloc_pages_def r_def [symmetric] not_less
        split: option.splits)
  show "\<exists>s' i. pmm_alloc_pages count s = (page_addr i, s')
        \<and> i = (LEAST i. 1 \<le> i \<and> free_run s i (unat count))
        \<and> free_set s' = free_set s - {i..<i + unat count} \<and> pmm_inv s'"
    if ex: "\<exists>i \<ge> 1. free_run s i (unat count)"
  proof -
    have ct: "count \<le> total_pages s" using ex in_total by (fastforce simp: word_le_nat_alt)
    obtain q where q: "r = Some q" "1 \<le> unat q" "unat q + unat count \<le> unat (total_pages s)"
      "free_run s (unat q) (unat count)"
      "\<And>p. 1 \<le> p \<Longrightarrow> p < unat q \<Longrightarrow> \<not> free_run s p (unat count)"
      using r_spec [OF ct] ex by (auto split: option.splits)
    have least: "unat q = (LEAST i. 1 \<le> i \<and> free_run s i (unat count))"
      using q by (intro Least_equality [symmetric]) (auto simp: not_less [symmetric])
    have qc: "unat (q + count) = unat q + unat count"
      using q(3) unat_u64_less [of "total_pages s"] by (simp add: unat_word_ariths)
    have "q \<le> q + count" using qc by (simp add: word_le_nat_alt)
    then show ?thesis
      using take_run_inv [OF assms(1), of q "q + count"] q(1,4) least qc ct assms(2)
      by (intro exI [of _ "snd (pmm_alloc_pages count s)"] exI [of _ "unat q"])
        (auto simp: pmm_alloc_pages_def r_def [symmetric] free_run_def page_addr_unat not_less)
  qed
qed

section \<open>What the bitmap operations touch\<close>

text \<open>
  \<open>pmm_frame s t\<close>: going from \<open>s\<close> to \<open>t\<close> only bytes of the bitmap changed, and
  the bitmap stayed where it is.
\<close>

definition pmm_frame :: "'a pmm_scheme \<Rightarrow> 'a pmm_scheme \<Rightarrow> bool" where
  "pmm_frame s t \<longleftrightarrow> bitmap t = bitmap s \<and> bitmap_size t = bitmap_size s \<and>
     total_pages t = total_pages s \<and> paging_arena_end t = paging_arena_end s \<and>
     (\<forall>x. x \<notin> bitmap_region s \<longrightarrow> mem t x = mem s x)"

lemma pmm_frame_refl [simp]: "pmm_frame s s"
  by (simp add: pmm_frame_def)

lemma pmm_frame_trans: "pmm_frame s t \<Longrightarrow> pmm_frame t u \<Longrightarrow> pmm_frame s u"
  by (auto simp: pmm_frame_def bitmap_region_def)

definition bitmap_geom :: "'a pmm_scheme \<Rightarrow> bool" where
  "bitmap_geom s \<longleftrightarrow> unat (bitmap_size s) = (unat (total_pages s) + 7) div 8"

lemma pmm_frame_geom: "pmm_frame s t \<Longrightarrow> bitmap_geom t = bitmap_geom s"
  by (simp add: pmm_frame_def bitmap_geom_def)

lemma pmm_inv_geom: "pmm_inv s \<Longrightarrow> bitmap_geom s"
  by (simp add: pmm_inv_def bitmap_geom_def)

lemma bitmap_byte_in_region:
  assumes "bitmap_geom s" and "unat i < unat (total_pages s)"
  shows "bitmap s + i div 8 \<in> bitmap_region s"
proof -
  have "unat i div 8 < (unat (total_pages s) + 7) div 8" using assms(2) by linarith
  then show ?thesis using assms(1) by (simp add: bitmap_region_def region_def unat_div bitmap_geom_def)
qed

lemma pmm_frame_bitmap:
  assumes "bitmap_geom s" and "unat i < unat (total_pages s)"
  shows "pmm_frame s ((bitmap_set i s)\<lparr>free_pages := x\<rparr>)"
    and "pmm_frame s ((bitmap_clear i s)\<lparr>free_pages := x\<rparr>)"
  using bitmap_byte_in_region [OF assms]
  by (auto simp: pmm_frame_def bitmap_set_def bitmap_clear_def Let_def)

lemma pmm_alloc_page_frame:
  assumes "bitmap_geom s"
  shows "pmm_frame s (snd (pmm_alloc_page s))"
proof (cases rule: pmm_alloc_page_cases [of s])
  case (some i)
  then have "unat i \<in> free_set s" by simp
  then show ?thesis
    using some pmm_frame_bitmap(1) [OF assms, of i] by (simp add: free_set_def)
qed simp

lemma pmm_free_page_pmm_frame:
  assumes "bitmap_geom s"
  shows "pmm_frame s (pmm_free_page a s)"
  using pmm_frame_bitmap(2) [OF assms, of "a div PAGE_SIZE"]
  by (simp add: pmm_free_page_def Let_def word_le_nat_alt)

section \<open>Reserving frames\<close>

definition count_ok :: "'a pmm_scheme \<Rightarrow> bool" where
  "count_ok s \<longleftrightarrow> unat (free_pages s) = card (free_set s)"

lemma reserve_page_spec:
  assumes "bitmap_geom s" and "count_ok s"
  shows "free_set (reserve_page p s) = free_set s - {unat p} \<and> count_ok (reserve_page p s) \<and>
    pmm_frame s (reserve_page p s)"
proof (cases "unat p \<in> free_set s")
  case True
  then have "card (free_set s) \<noteq> 0" by auto
  then have "free_pages s \<noteq> 0" using assms(2) by (auto simp: count_ok_def)
  then show ?thesis
    using True assms pmm_frame_bitmap(1) [OF assms(1), of p]
    by (auto simp: reserve_page_def Let_def bitmap_test_used free_set_bitmap_set count_ok_def
        unat_dec word_le_nat_alt free_set_def [THEN eqset_imp_iff])
next
  case False
  then have "reserve_page p s = s"
    by (auto simp: reserve_page_def bitmap_test_used free_set_def word_le_nat_alt)
  then show ?thesis using False assms by simp
qed

lemma reserve_loop_spec:
  assumes "bitmap_geom s" and "count_ok s"
  shows "free_set (for_range a b reserve_page s) = free_set s - {unat a..<unat b} \<and>
    count_ok (for_range a b reserve_page s) \<and> pmm_frame s (for_range a b reserve_page s)"
proof (cases "a \<le> b")
  case True
  let ?I = "\<lambda>k t. free_set t = free_set s - {unat a..<unat k} \<and> count_ok t \<and> pmm_frame s t"
  have "?I b (for_range a b reserve_page s)"
  proof (rule for_range_invariant)
    fix k and t :: "'a pmm_scheme"
    assume k: "a \<le> k" "k < b" and t: "?I k t"
    have "{unat a..<unat (k + 1)} = insert (unat k) {unat a..<unat k}"
      using k(1) by (simp only: unat_Suc_less [OF k(2)] atLeastLessThanSuc word_le_nat_alt) simp
    moreover have "bitmap_geom t" using t assms(1) pmm_frame_geom [of s t] by simp
    ultimately show "?I (k + 1) (reserve_page k t)"
      using t reserve_page_spec [of t k] by (auto intro: pmm_frame_trans)
  qed (use assms True in auto)
  then show ?thesis .
next
  case False
  then have "for_range a b reserve_page s = s" by (subst for_range.simps) auto
  then show ?thesis using False assms by (simp add: word_le_nat_alt)
qed

text \<open>The frames \<^verbatim>\<open>reserve_range(start, bytes)\<close> covers.\<close>

definition range_frames :: "u64 \<Rightarrow> u64 \<Rightarrow> nat set" where
  "range_frames start bytes = (if bytes = 0 then {} else
     {unat (start div PAGE_SIZE)..<unat ((start + bytes + PAGE_SIZE - 1) div PAGE_SIZE)})"

lemma reserve_range_spec:
  assumes "bitmap_geom s" and "count_ok s"
  shows "free_set (reserve_range start bytes s) = free_set s - range_frames start bytes \<and>
    count_ok (reserve_range start bytes s) \<and> pmm_frame s (reserve_range start bytes s)"
  using reserve_loop_spec [OF assms] assms
  by (simp add: reserve_range_def range_frames_def Let_def)

section \<open>What initialisation establishes\<close>

text \<open>The frames a descriptor names, and the bytes of it that the kernel reads.\<close>

definition desc_frames :: "pmem \<Rightarrow> u64 \<Rightarrow> nat set" where
  "desc_frames m d = (let p = unat (desc_PhysicalStart m d) div 4096
     in {p..<p + unat (desc_NumberOfPages m d)})"

definition desc_fits :: "pmem \<Rightarrow> u64 \<Rightarrow> bool" where
  "desc_fits m d \<longleftrightarrow>
     unat (desc_PhysicalStart m d) + unat (desc_NumberOfPages m d) * 4096 < 2 ^ 64"

lemma desc_cong:
  assumes "\<And>x. x \<in> region d 32 \<Longrightarrow> m x = m' x"
  shows "desc_Type m d = desc_Type m' d" "desc_PhysicalStart m d = desc_PhysicalStart m' d"
    "desc_NumberOfPages m d = desc_NumberOfPages m' d"
proof -
  have sub: "region (d + of_nat k) n \<subseteq> region d 32" if "k + n \<le> 32" for k n
  proof
    fix x assume "x \<in> region (d + of_nat k) n"
    then have "unat (x - d - of_nat k) < n" by (simp add: region_def diff_diff_eq)
    then show "x \<in> region d 32"
      using that by (auto simp: region_def unat_sub_if' unat_of_nat split: if_splits)
  qed
  show "desc_Type m d = desc_Type m' d"
    using sub [of 0 4] assms by (auto simp: desc_Type_def intro!: load32_cong)
  show "desc_PhysicalStart m d = desc_PhysicalStart m' d"
    using sub [of 8 8] assms by (auto simp: desc_PhysicalStart_def intro!: load64_cong)
  show "desc_NumberOfPages m d = desc_NumberOfPages m' d"
    using sub [of 24 8] assms by (auto simp: desc_NumberOfPages_def intro!: load64_cong)
qed

lemma pmm_max_addr_ge:
  assumes "off \<in> set offs"
  shows "desc_PhysicalStart m (mmap + off) + desc_NumberOfPages m (mmap + off) * PAGE_SIZE
    \<le> pmm_max_addr m mmap offs"
proof -
  let ?e = "\<lambda>off. desc_PhysicalStart m (mmap + off) + desc_NumberOfPages m (mmap + off) * PAGE_SIZE"
  let ?f = "\<lambda>off max_addr. let d = mmap + off;
    e = desc_PhysicalStart m d + desc_NumberOfPages m d * PAGE_SIZE
    in if e > max_addr then e else max_addr"
  have mono: "x \<le> fold ?f os x" for os x
    by (induction os arbitrary: x) (auto simp: Let_def intro: order_trans less_imp_le)
  have "?e off \<le> fold ?f os x" if "off \<in> set os" for os x
    using that
  proof (induction os arbitrary: x)
    case (Cons o' os)
    then show ?case
      using mono [of "?f off x" os] by (auto simp: Let_def intro: order_trans split: if_splits)
  qed simp
  then show ?thesis using assms by (simp add: pmm_max_addr_def)
qed

lemma desc_frames_bound:
  assumes "desc_fits m (mmap + off)" and "off \<in> set offs"
    and "p \<in> desc_frames m (mmap + off)"
  shows "p < unat (pmm_max_addr m mmap offs div PAGE_SIZE)"
proof -
  let ?S = "unat (desc_PhysicalStart m (mmap + off))"
  let ?N = "unat (desc_NumberOfPages m (mmap + off))"
  have "unat (desc_PhysicalStart m (mmap + off) + desc_NumberOfPages m (mmap + off) * PAGE_SIZE)
      = ?S + ?N * 4096"
    using assms(1) by (simp add: desc_fits_def unat_word_ariths)
  then have "?S + ?N * 4096 \<le> unat (pmm_max_addr m mmap offs)"
    using pmm_max_addr_ge [OF assms(2), of m mmap] by (simp only: word_le_nat_alt)
  then have "(?S + ?N * 4096) div 4096 \<le> unat (pmm_max_addr m mmap offs) div 4096"
    by (rule div_le_mono)
  then show ?thesis
    using assms(3) by (simp add: desc_frames_def unat_div Let_def)
qed

text \<open>Clearing the frames of one conventional descriptor.\<close>

lemma free_frame_spec:
  assumes "bitmap_geom s" and "count_ok s" and "unat p < unat (total_pages s)"
    and "unat p \<notin> free_set s"
  shows "let t = (bitmap_clear p s)\<lparr>free_pages := free_pages s + 1\<rparr>
    in free_set t = insert (unat p) (free_set s) \<and> count_ok t \<and> pmm_frame s t"
proof -
  have "free_set s \<subseteq> {..<unat (total_pages s)} - {unat p}"
    using assms(4) by (auto simp: free_set_def)
  then have "card (free_set s) \<le> card ({..<unat (total_pages s)} - {unat p})"
    by (intro card_mono) auto
  then have "card (free_set s) + 1 < 2 ^ 64"
    using assms(3) unat_u64_less [of "total_pages s"] by simp
  then have "unat (free_pages s + 1) = card (free_set s) + 1"
    using assms(2) by (simp add: count_ok_def unat_plus_if')
  then show ?thesis
    using assms pmm_frame_bitmap(2) [OF assms(1,3)]
    by (simp add: Let_def free_set_bitmap_clear count_ok_def)
qed

lemma pmm_free_desc_spec:
  assumes geom: "bitmap_geom s" and cnt: "count_ok s"
    and fits: "desc_fits (mem s) d" and out: "region d 32 \<inter> bitmap_region s = {}"
    and dis: "desc_Type (mem s) d = 7 \<Longrightarrow> desc_frames (mem s) d \<inter> free_set s = {}"
    and bnd: "desc_frames (mem s) d \<subseteq> {..<unat (total_pages s)}"
  shows "free_set (pmm_free_desc d s)
      = free_set s \<union> (if desc_Type (mem s) d = 7 then desc_frames (mem s) d else {})
    \<and> count_ok (pmm_free_desc d s) \<and> pmm_frame s (pmm_free_desc d s)"
proof (cases "desc_Type (mem s) d = 7")
  case True
  define P where "P = unat (desc_PhysicalStart (mem s) d) div 4096"
  let ?N = "desc_NumberOfPages (mem s) d"
  let ?I = "\<lambda>k t. k \<le> ?N \<and> free_set t = free_set s \<union> {P..<P + unat k} \<and> count_ok t \<and> pmm_frame s t"
  have same: "desc_PhysicalStart (mem t) d = desc_PhysicalStart (mem s) d"
    "desc_NumberOfPages (mem t) d = ?N" if "pmm_frame s t" for t
    using that out desc_cong [of d "mem t" "mem s"] by (auto simp: pmm_frame_def)
  have F: "desc_frames (mem s) d = {P..<P + unat ?N}"
    by (simp add: desc_frames_def P_def Let_def)
  let ?f = "\<lambda>p t. let page = desc_PhysicalStart (mem t) d div PAGE_SIZE + p; t' = bitmap_clear page t
    in t'\<lparr>free_pages := free_pages t' + 1\<rparr>"
  have "?I ?N (for_dyn 0 (\<lambda>t. desc_NumberOfPages (mem t) d) ?f s)"
  proof (rule for_dyn_invariant [where P = ?I])
    fix k t assume k: "k < ?N" and t: "?I k t"
    define p where "p = desc_PhysicalStart (mem s) d div PAGE_SIZE + k"
    have u: "unat p = P + unat k"
      using fits k by (simp add: p_def P_def desc_fits_def unat_word_ariths unat_div word_less_nat_alt)
    have ft: "?f k t = (bitmap_clear p t)\<lparr>free_pages := free_pages t + 1\<rparr>"
      using t same [of t] by (simp add: Let_def p_def)
    have "bitmap_geom t" "total_pages t = total_pages s"
      using t geom pmm_frame_geom [of s t] by (auto simp: pmm_frame_def)
    moreover have "P + unat k < unat (total_pages s)" "P + unat k \<notin> free_set t"
      using bnd dis [OF True] F k t by (auto simp: word_less_nat_alt)
    ultimately have "free_set (?f k t) = insert (P + unat k) (free_set t) \<and>
      count_ok (?f k t) \<and> pmm_frame t (?f k t)"
      unfolding ft using free_frame_spec [of t p] t by (simp only: Let_def u simp_thms)
    moreover have k1: "unat (k + 1) = Suc (unat k)" using unat_Suc_less [OF k] by simp
    moreover have "k + 1 \<le> ?N" using k by (simp only: word_le_nat_alt word_less_nat_alt k1 Suc_le_eq)
    moreover have "{P..<P + unat (k + 1)} = insert (P + unat k) {P..<P + unat k}"
      by (simp only: k1 add_Suc_right atLeastLessThanSuc) simp
    ultimately show "?I (k + 1) (?f k t)"
      using t by (simp only: Un_insert_right simp_thms) (blast intro: pmm_frame_trans)
  qed (use cnt in \<open>auto intro: same(2)\<close>)
  then show ?thesis using True by (simp add: pmm_free_desc_def F)
next
  case False
  then show ?thesis using cnt by (simp add: pmm_free_desc_def)
qed

text \<open>
  The conventional frames of a memory map, and what the firmware guarantees of the map:
  no descriptor runs past the end of the address space and conventional descriptors do
  not overlap.
\<close>

definition conventional :: "pmem \<Rightarrow> u64 \<Rightarrow> u64 list \<Rightarrow> nat set" where
  "conventional m mmap offs =
     \<Union> ((\<lambda>off. desc_frames m (mmap + off)) ` {off \<in> set offs. desc_Type m (mmap + off) = 7})"

definition mmap_ok :: "pmem \<Rightarrow> u64 \<Rightarrow> u64 list \<Rightarrow> bool" where
  "mmap_ok m mmap offs \<longleftrightarrow> (\<forall>off \<in> set offs. desc_fits m (mmap + off)) \<and>
     sorted_wrt (\<lambda>o1 o2. desc_Type m (mmap + o1) = 7 \<longrightarrow> desc_Type m (mmap + o2) = 7 \<longrightarrow>
       desc_frames m (mmap + o1) \<inter> desc_frames m (mmap + o2) = {}) offs"

lemma pmm_frame_desc:
  assumes "pmm_frame s t" and "region d 32 \<inter> bitmap_region s = {}"
  shows "desc_Type (mem t) d = desc_Type (mem s) d"
    "desc_frames (mem t) d = desc_frames (mem s) d" "desc_fits (mem t) d = desc_fits (mem s) d"
    "desc_PhysicalStart (mem t) d = desc_PhysicalStart (mem s) d"
    "desc_NumberOfPages (mem t) d = desc_NumberOfPages (mem s) d"
proof -
  have "mem t x = mem s x" if "x \<in> region d 32" for x
    using assms that by (auto simp: pmm_frame_def)
  note same = desc_cong [OF this]
  show "desc_Type (mem t) d = desc_Type (mem s) d"
    "desc_PhysicalStart (mem t) d = desc_PhysicalStart (mem s) d"
    "desc_NumberOfPages (mem t) d = desc_NumberOfPages (mem s) d" by (simp_all only: same)
  show "desc_frames (mem t) d = desc_frames (mem s) d" "desc_fits (mem t) d = desc_fits (mem s) d"
    by (simp_all add: desc_frames_def desc_fits_def same)
qed

lemma pmm_frame_region: "pmm_frame s t \<Longrightarrow> bitmap_region t = bitmap_region s"
  by (simp add: pmm_frame_def bitmap_region_def)

lemma free_descs_spec:
  assumes "bitmap_geom s" and "count_ok s" and "pmm_frame s0 s" and "mmap_ok (mem s0) mmap offs"
    and "\<forall>off \<in> set offs. region (mmap + off) 32 \<inter> bitmap_region s0 = {} \<and>
      desc_frames (mem s0) (mmap + off) \<subseteq> {..<unat (total_pages s)}"
    and "conventional (mem s0) mmap offs \<inter> free_set s = {}"
  shows "let t = fold (\<lambda>off. pmm_free_desc (mmap + off)) offs s
    in free_set t = free_set s \<union> conventional (mem s0) mmap offs \<and> count_ok t \<and> pmm_frame s0 t"
  using assms
proof (induction offs arbitrary: s)
  case Nil
  then show ?case by (simp add: conventional_def)
next
  case (Cons off offs)
  define t where "t = pmm_free_desc (mmap + off) s"
  let ?F = "if desc_Type (mem s0) (mmap + off) = 7 then desc_frames (mem s0) (mmap + off) else {}"
  note fr = pmm_frame_desc [OF Cons.prems(3), of "mmap + off"]
  have conv: "conventional (mem s0) mmap (off # offs) = ?F \<union> conventional (mem s0) mmap offs"
    by (auto simp: conventional_def)
  have step: "free_set t = free_set s \<union> ?F \<and> count_ok t \<and> pmm_frame s t"
    unfolding t_def fr(1,2) [symmetric, OF Cons.prems(5) [rule_format, OF list.set_intros(1), THEN conjunct1]]
    using Cons.prems conv pmm_frame_region [OF Cons.prems(3)]
    by (intro pmm_free_desc_spec) (auto simp: fr mmap_ok_def)
  then have t0: "pmm_frame s0 t" "bitmap_geom t" "total_pages t = total_pages s"
    using pmm_frame_trans [of s0 s t] Cons.prems(1,3) pmm_frame_geom [of s t]
    by (simp_all) (simp add: pmm_frame_def)
  have "conventional (mem s0) mmap offs \<inter> free_set t = {}"
    using step Cons.prems(4,6) conv by (auto simp: conventional_def mmap_ok_def)
  then have "let u = fold (\<lambda>off. pmm_free_desc (mmap + off)) offs t
    in free_set u = free_set t \<union> conventional (mem s0) mmap offs \<and> count_ok u \<and> pmm_frame s0 u"
    using step t0 Cons.prems by (intro Cons.IH) (auto simp: mmap_ok_def)
  then show ?case
    using step conv by (auto simp: Let_def t_def [symmetric])
qed

lemma bitmap_fill_spec:
  assumes "bitmap_geom s"
  shows "let t = for_range 0 (bitmap_size s) (\<lambda>i t. t\<lparr>mem := (mem t)(bitmap t + i := 0xFF)\<rparr>) s
    in free_set t = {} \<and> pmm_frame s t"
proof -
  let ?I = "\<lambda>k t. pmm_frame s t \<and> (\<forall>j < unat k. mem t (bitmap s + of_nat j) = 0xFF)"
  let ?f = "\<lambda>i t. t\<lparr>mem := (mem t)(bitmap t + i := 0xFF)\<rparr>"
  let ?t = "for_range 0 (bitmap_size s) ?f s"
  have "?I (bitmap_size s) ?t"
  proof (rule for_range_invariant [where I = ?I])
    fix k t assume k: "k < bitmap_size s" and t: "?I k t"
    have "bitmap s + k \<in> bitmap_region s"
      using k by (simp add: bitmap_region_def region_def word_less_nat_alt)
    then have "pmm_frame s (?f k t)" using t by (auto simp: pmm_frame_def)
    moreover have "mem (?f k t) (bitmap s + of_nat j) = 0xFF" if "j < unat (k + 1)" for j
    proof (cases "j = unat k")
      case False
      then have "j < unat k" using that by (simp only: unat_Suc_less [OF k])
      then show ?thesis using t by simp
    qed (use t in \<open>simp add: pmm_frame_def\<close>)
    ultimately show "?I (k + 1) (?f k t)" by blast
  qed auto
  then have t: "pmm_frame s ?t" "\<And>j. j < unat (bitmap_size s) \<Longrightarrow> mem ?t (bitmap s + of_nat j) = 0xFF"
    by auto
  have "page_used ?t p" if "p < unat (total_pages s)" for p
  proof -
    have "p div 8 < unat (bitmap_size s)" using that assms by (simp add: bitmap_geom_def)
    moreover have ff: "(0xFF :: u8) = - 1" by simp
    moreover have "bit (0xFF :: u8) (p mod 8)" unfolding ff by (simp add: bit_minus_1_iff)
    ultimately show ?thesis using t by (simp add: page_used_def pmm_frame_def)
  qed
  then have "free_set ?t = {}" using t(1) by (auto simp: free_set_def pmm_frame_def)
  then show ?thesis using t(1) by (simp add: Let_def)
qed

text \<open>The frames the fixed reservations take, and those of the reserved descriptor types.\<close>

definition fixed_frames :: "u64 \<Rightarrow> BootInfo \<Rightarrow> u64 \<Rightarrow> u64 \<Rightarrow> nat set" where
  "fixed_frames kernel_end bootInfo arena bytes =
     (let k_end = (kernel_end_phys kernel_end + PAGE_SIZE - 1) div PAGE_SIZE
      in {unat (KERNEL_PHYS_BASE div PAGE_SIZE)..<unat k_end}
       \<union> {unat k_end..<unat (arena div PAGE_SIZE)}
       \<union> {unat (arena div PAGE_SIZE)..<unat ((arena + bytes + PAGE_SIZE - 1) div PAGE_SIZE)}
       \<union> {0..<16}
       \<union> range_frames (framebuffer bootInfo)
           (ucast (height bootInfo) * ucast (pixels_per_scanline bootInfo) * 4)
       \<union> range_frames (rsdp bootInfo) PAGE_SIZE)"

definition firmware_frames :: "pmem \<Rightarrow> u64 \<Rightarrow> u64 list \<Rightarrow> nat set" where
  "firmware_frames m mmap offs =
     \<Union> ((\<lambda>off. range_frames (desc_PhysicalStart m (mmap + off))
                  (desc_NumberOfPages m (mmap + off) * PAGE_SIZE)) `
         {off \<in> set offs. desc_Type m (mmap + off) \<in> {5, 6, 9, 10, 11}})"

text \<open>A reservation step removes a set of frames and keeps count and layout.\<close>

definition reserves :: "nat set \<Rightarrow> 'a pmm_scheme \<Rightarrow> 'a pmm_scheme \<Rightarrow> bool" where
  "reserves R s t \<longleftrightarrow> free_set t = free_set s - R \<and> bitmap_geom t \<and> count_ok t \<and> pmm_frame s t"

lemma reserves_trans: "reserves R s t \<Longrightarrow> reserves R' t u \<Longrightarrow> reserves (R \<union> R') s u"
  by (auto simp: reserves_def intro: pmm_frame_trans)

lemma reserves_loop:
  "reserves R s t \<Longrightarrow> reserves (R \<union> {unat a..<unat b}) s (for_range a b reserve_page t)"
  using reserve_loop_spec [of t a b] pmm_frame_geom [of t "for_range a b reserve_page t"]
  by (auto simp: reserves_def intro: pmm_frame_trans)

lemma reserves_page: "reserves R s t \<Longrightarrow> reserves (R \<union> {unat p}) s (reserve_page p t)"
  using reserve_page_spec [of t p] pmm_frame_geom [of t "reserve_page p t"]
  by (auto simp: reserves_def intro: pmm_frame_trans)

lemma reserves_range:
  "reserves R s t \<Longrightarrow> reserves (R \<union> range_frames a n) s (reserve_range a n t)"
  using reserve_range_spec [of t a n] pmm_frame_geom [of t "reserve_range a n t"]
  by (auto simp: reserves_def intro: pmm_frame_trans)

lemma reserves_layout:
  "reserves R s t \<Longrightarrow> paging_arena_end t = paging_arena_end s \<and> bitmap_size t = bitmap_size s"
  by (simp add: reserves_def pmm_frame_def)

lemma pmm_reserve_fixed_spec:
  assumes "bitmap_geom s" and "count_ok s"
  shows "reserves (fixed_frames kernel_end bootInfo (paging_arena_end s) (bitmap_size s)) s
    (pmm_reserve_fixed kernel_end bootInfo s)"
proof -
  define k_end where "k_end = (kernel_end_phys kernel_end + PAGE_SIZE - 1) div PAGE_SIZE"
  define s1 where "s1 = for_range (KERNEL_PHYS_BASE div PAGE_SIZE) k_end reserve_page s"
  define s2 where "s2 = for_range k_end (paging_arena_end s div PAGE_SIZE) reserve_page s1"
  have "reserves {} s s" using assms by (simp add: reserves_def)
  note r1 = reserves_loop [OF this, of "KERNEL_PHYS_BASE div PAGE_SIZE" k_end, folded s1_def]
  note l1 = reserves_layout [OF r1, THEN conjunct1]
  note r2 = reserves_loop [OF r1, of k_end "paging_arena_end s div PAGE_SIZE", folded s2_def]
  note l2 = reserves_layout [OF r2]
  note r3 = reserves_loop [OF r2, of "paging_arena_end s2 div PAGE_SIZE"
    "(paging_arena_end s2 + bitmap_size s2 + PAGE_SIZE - 1) div PAGE_SIZE"]
  note r5 = reserves_loop [OF reserves_page [OF r3, of 0], of 1 16]
  note r6 = reserves_range [OF reserves_range [OF r5, of "framebuffer bootInfo"
    "ucast (height bootInfo) * ucast (pixels_per_scanline bootInfo) * 4"], of "rsdp bootInfo" PAGE_SIZE]
  have low: "{0..<16} = {0} \<union> {1..<16::nat}" by auto
  have "pmm_reserve_fixed kernel_end bootInfo s = reserve_range (rsdp bootInfo) PAGE_SIZE
    (reserve_range (framebuffer bootInfo)
      (ucast (height bootInfo) * ucast (pixels_per_scanline bootInfo) * 4)
      (for_range 1 16 reserve_page (reserve_page 0
        (for_range (paging_arena_end s2 div PAGE_SIZE)
          ((paging_arena_end s2 + bitmap_size s2 + PAGE_SIZE - 1) div PAGE_SIZE) reserve_page s2))))"
    by (simp only: pmm_reserve_fixed_def Let_def k_end_def [symmetric] s1_def [symmetric] l1
        s2_def [symmetric])
  then show ?thesis
    using r6 unfolding fixed_frames_def Let_def k_end_def [symmetric] l2 [THEN conjunct1]
      l2 [THEN conjunct2] low
    by (simp only: Un_assoc Un_empty_left unat_0 unat_1 unat_numeral) simp
qed

lemma reserve_descs_spec:
  assumes "bitmap_geom s" and "count_ok s" and "pmm_frame s0 s"
    and "\<forall>off \<in> set offs. region (mmap + off) 32 \<inter> bitmap_region s0 = {}"
  shows "reserves (firmware_frames (mem s0) mmap offs) s
    (fold (\<lambda>off. pmm_reserve_desc (mmap + off)) offs s)"
  using assms
proof (induction offs arbitrary: s)
  case Nil
  then show ?case by (simp add: firmware_frames_def reserves_def)
next
  case (Cons off offs)
  let ?R = "if desc_Type (mem s0) (mmap + off) \<in> {5, 6, 9, 10, 11}
    then range_frames (desc_PhysicalStart (mem s0) (mmap + off))
      (desc_NumberOfPages (mem s0) (mmap + off) * PAGE_SIZE) else {}"
  have "reserves {} s s" using Cons.prems by (simp add: reserves_def)
  note r = reserves_range [OF this]
  have "region (mmap + off) 32 \<inter> bitmap_region s0 = {}" using Cons.prems(4) by simp
  then have step: "reserves ?R s (pmm_reserve_desc (mmap + off) s)"
    using r \<open>reserves {} s s\<close> pmm_frame_desc [OF Cons.prems(3), of "mmap + off"]
    by (simp add: pmm_reserve_desc_def)
  have "firmware_frames (mem s0) mmap (off # offs) = ?R \<union> firmware_frames (mem s0) mmap offs"
    by (auto simp: firmware_frames_def)
  moreover have "reserves (firmware_frames (mem s0) mmap offs) (pmm_reserve_desc (mmap + off) s)
    (fold (\<lambda>off. pmm_reserve_desc (mmap + off)) offs (pmm_reserve_desc (mmap + off) s))"
    using step Cons.prems by (intro Cons.IH) (auto simp: reserves_def intro: pmm_frame_trans)
  ultimately show ?case using reserves_trans [OF step] by simp
qed

lemma pmm_report_frame [simp, frame_simps]:
  "mem (pmm_report k s) = mem s" "bitmap (pmm_report k s) = bitmap s"
  "bitmap_size (pmm_report k s) = bitmap_size s" "total_pages (pmm_report k s) = total_pages s"
  "free_pages (pmm_report k s) = free_pages s" "paging_arena_end (pmm_report k s) = paging_arena_end s"
  by (simp_all add: pmm_report_def Let_def print_def print_dec_def print_hex_def)

lemma pmm_report_sets [simp]:
  "free_set (pmm_report k s) = free_set s" "bitmap_region (pmm_report k s) = bitmap_region s"
  by (simp_all add: free_set_def page_used_def bitmap_region_def)

text \<open>The frames that overlap \<open>n\<close> bytes at \<open>a\<close> are those the rounded reservation covers.\<close>

lemma frame_overlap:
  assumes "unat a + n + 4096 \<le> 2 ^ 64" and "p < 2 ^ 52"
    and "p < unat a div 4096 \<or> (unat a + n + 4095) div 4096 \<le> p"
  shows "frame_region p \<inter> region a n = {}"
proof -
  have "unat (page_addr p) = p * 4096" using assms(2) by (simp add: unat_page_addr)
  moreover have "p * 4096 + 4096 \<le> unat a \<or> unat a + n \<le> p * 4096"
    using assms(3)
  proof
    assume "p < unat a div 4096"
    then have "(p + 1) * 4096 \<le> unat a div 4096 * 4096" by (intro mult_le_mono1) simp
    also have "\<dots> \<le> unat a" by simp
    finally show ?thesis by simp
  qed (use dividend_less_div_times [of 4096 "unat a + n + 4095"] in linarith)
  ultimately show ?thesis
    unfolding frame_region_def using assms(1,2) by (intro region_disjoint) auto
qed

lemma pmm_init_unreserved:
  assumes geom: "bitmap_geom s" and ok: "mmap_ok (mem s) mmap offs"
    and tot: "total_pages s = pmm_max_addr (mem s) mmap offs div PAGE_SIZE"
    and out: "\<forall>off \<in> set offs. region (mmap + off) 32 \<inter> bitmap_region s = {}"
  shows "let t = fold (\<lambda>off. pmm_free_desc (mmap + off)) offs
      ((for_range 0 (bitmap_size s) (\<lambda>i t. t\<lparr>mem := (mem t)(bitmap t + i := 0xFF)\<rparr>) s)\<lparr>free_pages := 0\<rparr>)
    in free_set t = conventional (mem s) mmap offs \<and> bitmap_geom t \<and> count_ok t \<and> pmm_frame s t"
proof -
  define s2 where "s2 = for_range 0 (bitmap_size s) (\<lambda>i t. t\<lparr>mem := (mem t)(bitmap t + i := 0xFF)\<rparr>) s"
  have "free_set s2 = {}" "pmm_frame s s2" using bitmap_fill_spec [OF geom] by (simp_all add: s2_def Let_def)
  then have f3: "free_set (s2\<lparr>free_pages := 0\<rparr>) = {}" "pmm_frame s (s2\<lparr>free_pages := 0\<rparr>)"
    "count_ok (s2\<lparr>free_pages := 0\<rparr>)"
    by (simp_all add: count_ok_def pmm_frame_def)
  have g3: "bitmap_geom (s2\<lparr>free_pages := 0\<rparr>)" using f3 geom pmm_frame_geom by blast
  have t3: "total_pages (s2\<lparr>free_pages := 0\<rparr>) = total_pages s" using f3(2) by (simp add: pmm_frame_def)
  have "\<forall>off \<in> set offs. region (mmap + off) 32 \<inter> bitmap_region s = {} \<and>
      desc_frames (mem s) (mmap + off) \<subseteq> {..<unat (total_pages s)}"
    using ok out desc_frames_bound [of "mem s" mmap _ offs] by (auto simp: tot mmap_ok_def)
  then have "let t = fold (\<lambda>off. pmm_free_desc (mmap + off)) offs (s2\<lparr>free_pages := 0\<rparr>)
    in free_set t = conventional (mem s) mmap offs \<and> count_ok t \<and> pmm_frame s t"
    using free_descs_spec [OF g3 f3(3,2) ok] unfolding f3(1) t3 by simp
  then show ?thesis
    using geom pmm_frame_geom unfolding s2_def [symmetric] Let_def by blast
qed

text \<open>
  After \<^verbatim>\<open>pmm_init\<close> the free frames are exactly the conventional ones minus the kernel image,
  the early page tables, the bitmap, the low 64 KiB, the framebuffer, the RSDP and the
  firmware descriptors.
\<close>

lemma pmm_inv_intro:
  assumes "bitmap_geom t" and "count_ok t" and "unat (total_pages t) < 2 ^ 52" and "0 \<notin> free_set t"
    and "unat (bitmap t) + unat (bitmap_size t) + 4096 \<le> 2 ^ 64"
    and "free_set t \<inter> {unat (bitmap t div PAGE_SIZE)..<
      unat ((bitmap t + bitmap_size t + PAGE_SIZE - 1) div PAGE_SIZE)} = {}"
  shows "pmm_inv t"
proof -
  have e: "unat ((bitmap t + bitmap_size t + PAGE_SIZE - 1) div PAGE_SIZE)
      = (unat (bitmap t) + unat (bitmap_size t) + 4095) div 4096"
  proof -
    have "unat (bitmap t + bitmap_size t) = unat (bitmap t) + unat (bitmap_size t)"
      using assms(5) by (simp add: unat_plus_if')
    moreover from this have "unat (bitmap t + bitmap_size t + 4095)
        = unat (bitmap t) + unat (bitmap_size t) + 4095"
      using assms(5) by (subst unat_plus_if') simp
    ultimately show ?thesis by (simp add: unat_div add.commute [of 4095])
  qed
  have "frame_region p \<inter> bitmap_region t = {}" if "p \<in> free_set t" for p
  proof -
    have "p < 2 ^ 52" using that assms(3) by (simp add: free_set_def)
    moreover have "p < unat (bitmap t) div 4096 \<or>
      (unat (bitmap t) + unat (bitmap_size t) + 4095) div 4096 \<le> p"
      using that assms(6) unfolding e by (auto simp: unat_div)
    ultimately show ?thesis unfolding bitmap_region_def by (rule frame_overlap [OF assms(5)])
  qed
  then show ?thesis
    using assms by (simp add: pmm_inv_def bitmap_geom_def count_ok_def)
qed

lemma pmm_init_spec:
  fixes s :: "'a pmm_scheme"
  assumes offs: "mmap_offsets 0 (memory_map_size bi) (memory_map_descriptor_size bi) = Some offs"
    and ok: "mmap_ok (mem s) (memory_map bi) offs"
    and bsz: "bsz = (pmm_max_addr (mem s) (memory_map bi) offs div PAGE_SIZE + 7) div 8"
    and fit: "unat (paging_arena_end s) + unat bsz + 4096 \<le> 2 ^ 64"
    and out: "\<forall>off \<in> set offs.
      region (memory_map bi + off) 32 \<inter> region (paging_arena_end s) (unat bsz) = {}"
  obtains t where "pmm_init kernel_end bi s = Ok () t" and "pmm_inv t"
    and "free_set t = conventional (mem s) (memory_map bi) offs
      - fixed_frames kernel_end bi (paging_arena_end s) bsz
      - firmware_frames (mem s) (memory_map bi) offs"
    and "\<forall>x. x \<notin> region (paging_arena_end s) (unat bsz) \<longrightarrow> mem t x = mem s x"
proof -
  define tp where "tp = pmm_max_addr (mem s) (memory_map bi) offs div PAGE_SIZE"
  define s1 where "s1 = s\<lparr>total_pages := tp, bitmap_size := bsz, bitmap := paging_arena_end s\<rparr>"
  define s4 where "s4 = fold (\<lambda>off. pmm_free_desc (memory_map bi + off)) offs
    ((for_range 0 (bitmap_size s1) (\<lambda>i t. t\<lparr>mem := (mem t)(bitmap t + i := 0xFF)\<rparr>) s1)\<lparr>free_pages := 0\<rparr>)"
  define s5 where "s5 = pmm_reserve_fixed kernel_end bi s4"
  define s6 where "s6 = fold (\<lambda>off. pmm_reserve_desc (memory_map bi + off)) offs s5"
  have tp: "unat tp < 2 ^ 52"
    using unat_u64_less [of "pmm_max_addr (mem s) (memory_map bi) offs"] by (simp add: tp_def unat_div)
  then have g1: "bitmap_geom s1"
    by (simp add: bitmap_geom_def s1_def bsz tp_def [symmetric] unat_div unat_word_ariths)
  have reg: "bitmap_region s1 = region (paging_arena_end s) (unat bsz)" "mem s1 = mem s"
    by (simp_all add: s1_def bitmap_region_def)
  have tot1: "total_pages s1 = pmm_max_addr (mem s) (memory_map bi) offs div PAGE_SIZE"
    by (simp add: s1_def tp_def)
  have "free_set s4 = conventional (mem s1) (memory_map bi) offs \<and> bitmap_geom s4 \<and> count_ok s4 \<and> pmm_frame s1 s4"
    using pmm_init_unreserved [OF g1, of "memory_map bi" offs, folded s4_def, unfolded Let_def] ok out tot1
    by (simp add: reg s4_def [symmetric])
  then have f4: "free_set s4 = conventional (mem s) (memory_map bi) offs" "bitmap_geom s4"
    "count_ok s4" "pmm_frame s1 s4" by (simp_all add: reg)
  have r5: "reserves (fixed_frames kernel_end bi (paging_arena_end s) bsz) s4 s5"
    using pmm_reserve_fixed_spec [OF f4(2,3)] f4(4) by (simp add: s5_def pmm_frame_def s1_def)
  then have "reserves (firmware_frames (mem s1) (memory_map bi) offs) s5 s6" unfolding s6_def
    using out f4(4) by (intro reserve_descs_spec) (auto simp: reserves_def reg intro: pmm_frame_trans)
  note r6 = reserves_trans [OF r5 this, unfolded reg(2)]
  have fr: "pmm_frame s1 s6" using f4(4) r6 by (auto simp: reserves_def intro: pmm_frame_trans)
  have free: "free_set s6 = conventional (mem s) (memory_map bi) offs
      - fixed_frames kernel_end bi (paging_arena_end s) bsz - firmware_frames (mem s) (memory_map bi) offs"
    using r6 f4(1) by (auto simp: reserves_def)
  have lay: "bitmap s6 = paging_arena_end s" "bitmap_size s6 = bsz" "total_pages s6 = tp"
    using fr by (simp_all add: pmm_frame_def s1_def)
  have "pmm_inv s6"
    using r6 fit tp by (intro pmm_inv_intro) (auto simp: reserves_def lay free fixed_frames_def Let_def)
  moreover have "pmm_init kernel_end bi s = Ok () (pmm_report kernel_end s6)"
    by (simp add: pmm_init_def offs Let_def s6_def s5_def s4_def s1_def bsz tp_def)
  ultimately show thesis
    using that [of "pmm_report kernel_end s6"] free fr by (simp add: pmm_inv_def pmm_frame_def reg)
qed

section \<open>Properties\<close>

text \<open>
  A machine for the examples: one conventional descriptor of 1024 frames from 1 MiB on,
  read from a memory map at \<open>0x300000\<close>, with the bitmap at \<open>0x200000\<close>.
\<close>

definition example_mem :: pmem where
  "example_mem = (\<lambda>_. 0)(0x300000 := 7, 0x30000A := 0x10, 0x300019 := 4)"

definition example_pmm :: pmm where
  "example_pmm = \<lparr>io_log = [], device = null_machine, if_flag = False,
     console = [], serial = [], serial_ready = False, g_ring = [], g_ring_head = 0,
     g_ring_count = 0, mem = example_mem, paging_arena_end = 0x200000, bitmap = 0, bitmap_size = 0,
     total_pages = 0, free_pages = 0\<rparr>"

definition example_boot :: BootInfo where
  "example_boot = \<lparr>framebuffer = 0x80000000, width = 800, height = 600, pixels_per_scanline = 800,
     memory_map = 0x300000, memory_map_size = 48, memory_map_descriptor_size = 48, rsdp = 0xE0000\<rparr>"

text \<open>The same machine with the bitmap in place and two of its 16 frames, 5 and 7, free.\<close>

definition example_frames :: pmm where
  "example_frames = example_pmm\<lparr>mem := (\<lambda>_. 0xFF)(0x200000 := 0x5F), bitmap := 0x200000,
     bitmap_size := 2, total_pages := 16, free_pages := 2\<rparr>"

lemma free_set_example: "free_set example_frames = {5, 7}"
proof -
  have bits: "bit (0x5F :: u8) k \<longleftrightarrow> k \<in> {0, 1, 2, 3, 4, 6}" if "k < 8" for k
    using that by (auto simp: less_Suc_eq numeral_eq_Suc bit_Suc)
  have ff: "(0xFF :: u8) = - 1" by simp
  have "p \<in> free_set example_frames \<longleftrightarrow> p \<in> {5, 7}" for p
  proof (cases "p < 8")
    case True
    then show ?thesis
      using bits [OF True] by (auto simp: free_set_def page_used_def example_frames_def example_pmm_def)
  next
    case False
    then have "\<not> (p < 16 \<and> \<not> bit (0xFF :: u8) (p mod 8))"
      unfolding ff by (simp add: bit_minus_1_iff)
    moreover have "(0x200000 :: u64) + of_nat (p div 8) \<noteq> 0x200000" if "p < 16"
    proof -
      have "p div 8 = 1" using that False by simp
      then show ?thesis by simp
    qed
    ultimately show ?thesis
      using False by (auto simp: free_set_def page_used_def example_frames_def example_pmm_def)
  qed
  then show ?thesis by blast
qed

lemma pmm_inv_example: "pmm_inv example_frames"
proof -
  have "frame_region p \<inter> bitmap_region example_frames = {}" if "p \<in> {5, 7}" for p
    unfolding bitmap_region_def using that
    by (intro frame_overlap) (auto simp: example_frames_def example_pmm_def)
  then show ?thesis unfolding pmm_inv_def free_set_example
    by (auto simp: example_frames_def example_pmm_def)
qed

text \<open>
  C9: the initialiser terminates normally and establishes the frame invariant. The free
  frames are then exactly the conventional frames of the firmware's map that no reservation
  covers, the free counter is their number, and no byte outside the bitmap has changed.
\<close>

theorem pmm_init_correct:
  fixes s :: "'a pmm_scheme"
  assumes "mmap_offsets 0 (memory_map_size bi) (memory_map_descriptor_size bi) = Some offs"
    and "mmap_ok (mem s) (memory_map bi) offs"
    and "bsz = (pmm_max_addr (mem s) (memory_map bi) offs div PAGE_SIZE + 7) div 8"
    and "unat (paging_arena_end s) + unat bsz + 4096 \<le> 2 ^ 64"
    and "\<forall>off \<in> set offs.
      region (memory_map bi + off) 32 \<inter> region (paging_arena_end s) (unat bsz) = {}"
  shows "\<exists>t. pmm_init kernel_end bi s = Ok () t \<and> pmm_inv t
    \<and> free_set t = conventional (mem s) (memory_map bi) offs
        - fixed_frames kernel_end bi (paging_arena_end s) bsz
        - firmware_frames (mem s) (memory_map bi) offs
    \<and> unat (pmm_get_free_pages t) = card (free_set t)
    \<and> (\<forall>x. x \<notin> region (paging_arena_end s) (unat bsz) \<longrightarrow> mem t x = mem s x)"
proof (rule pmm_init_spec [OF assms, of kernel_end])
  fix t assume "pmm_init kernel_end bi s = Ok () t" and "pmm_inv t"
    and "free_set t = conventional (mem s) (memory_map bi) offs
      - fixed_frames kernel_end bi (paging_arena_end s) bsz
      - firmware_frames (mem s) (memory_map bi) offs"
    and "\<forall>x. x \<notin> region (paging_arena_end s) (unat bsz) \<longrightarrow> mem t x = mem s x"
  moreover have "unat (pmm_get_free_pages t) = card (free_set t)"
    using \<open>pmm_inv t\<close> by (simp add: pmm_get_free_pages_def pmm_inv_def)
  ultimately show ?thesis by (intro exI [of _ t] conjI)
qed

lemma example_offsets: "mmap_offsets 0 48 48 = Some [0]"
  by (subst mmap_offsets.simps, subst mmap_offsets.simps) simp

lemma example_desc:
  "desc_Type example_mem 0x300000 = 7" "desc_PhysicalStart example_mem 0x300000 = 0x100000"
  "desc_NumberOfPages example_mem 0x300000 = 0x400"
  by (simp_all add: desc_Type_def desc_PhysicalStart_def desc_NumberOfPages_def load32_bytes
      load64_bytes example_mem_def)


theorem pmm_init_correct_witness:
  "\<exists>t. pmm_init 0xFFFFFFFF80020000 example_boot example_pmm = Ok () t \<and> pmm_inv t
    \<and> free_set t = conventional example_mem 0x300000 [0]
        - fixed_frames 0xFFFFFFFF80020000 example_boot 0x200000 160
        - firmware_frames example_mem 0x300000 [0]"
  using pmm_init_correct [where bi = example_boot and offs = "[0]" and s = example_pmm and bsz = 160
      and kernel_end = "0xFFFFFFFF80020000"]
    region_disjoint [where a = "0x300000" and n = 32 and b = "0x200000" and k = 160]
  by (auto simp: example_offsets example_boot_def example_pmm_def mmap_ok_def desc_fits_def
      pmm_max_addr_def example_desc)

text \<open>
  C10: allocating a frame returns the lowest free one and takes exactly that frame from the
  free set, or returns 0 and changes nothing when no frame is free. It keeps the
  invariant, and writes no byte outside the bitmap.
\<close>

theorem pmm_alloc_page_correct:
  assumes "pmm_inv s"
  shows "case pmm_alloc_page s of (p, s') \<Rightarrow> pmm_inv s' \<and> pmm_frame s s' \<and>
    (if free_set s = {} then p = 0 \<and> s' = s
     else p = page_addr (Min (free_set s)) \<and> p \<noteq> 0 \<and> free_set s' = free_set s - {Min (free_set s)})"
proof (cases "free_set s = {}")
  case True
  then show ?thesis using assms pmm_frames.alloc_none [OF assms True] by simp
next
  case False
  have "pmm_frame s (snd (pmm_alloc_page s))"
    using assms by (intro pmm_alloc_page_frame pmm_inv_geom)
  moreover have "fst (pmm_alloc_page s) \<noteq> 0"
    using pmm_frames.alloc_null_iff [OF assms] False by simp
  moreover obtain s' where "pmm_alloc_page s = (page_addr (Min (free_set s)), s')"
    "free_set s' = free_set s - {Min (free_set s)}" "pmm_inv s'"
    using pmm_alloc_page_some [OF assms False] by metis
  ultimately show ?thesis using False by simp
qed

theorem pmm_alloc_page_correct_witness:
  "case pmm_alloc_page example_frames of (p, s') \<Rightarrow> p = 0x5000 \<and> pmm_inv s' \<and> free_set s' = {7}"
proof -
  have m: "Min {5, 7 :: nat} = 5" "{5, 7 :: nat} - {5} = {7}" by auto
  show ?thesis
    using pmm_alloc_page_correct [OF pmm_inv_example] unfolding free_set_example m
    by (simp add: page_addr_def case_prod_unfold)
qed

text \<open>
  C11: successive allocations, as many as there are free frames, return pairwise different
  non-null frames that were free.
\<close>

theorem pmm_alloc_distinct:
  assumes "pmm_inv s" and "n \<le> card (free_set s)"
  shows "\<exists>ns s'. alloc_seq pmm_alloc_page n s = (map page_addr ns, s') \<and> length ns = n
    \<and> distinct (map page_addr ns) \<and> 0 \<notin> set (map page_addr ns) \<and> set ns \<subseteq> free_set s
    \<and> free_set s' = free_set s - set ns \<and> pmm_inv s'"
proof -
  obtain ns s' where ns: "alloc_seq pmm_alloc_page n s = (map page_addr ns, s')" "length ns = n"
    "distinct ns" "set ns \<subseteq> free_set s" "free_set s' = free_set s - set ns" "pmm_inv s'"
    using pmm_frames.alloc_seq_distinct [OF assms] by blast
  have b: "0 < k \<and> k < 2 ^ 52" if "k \<in> set ns" for k
    using pmm_frames.avail_frame [OF assms(1)] ns(4) that by blast
  have "inj_on page_addr (set ns)"
    using b page_addr_inj by (auto intro!: inj_onI)
  moreover have "0 \<notin> set (map page_addr ns)"
    using b page_addr_inj [of _ 0] by (auto simp: image_iff)
  ultimately show ?thesis
    using ns by (auto simp: distinct_map)
qed

theorem pmm_alloc_distinct_witness:
  "\<exists>a b s'. alloc_seq pmm_alloc_page 2 example_frames = ([a, b], s') \<and> a \<noteq> b \<and> a \<noteq> 0 \<and> b \<noteq> 0
    \<and> free_set s' \<subseteq> {5, 7}"
  using pmm_alloc_distinct [OF pmm_inv_example, of 2]
  by (auto simp: free_set_example length_Suc_conv numeral_2_eq_2)

text \<open>
  C12: a request for several frames returns the start of the lowest run of that many free
  frames and takes exactly the run, or returns 0 and changes nothing when there is no run.
\<close>

theorem pmm_alloc_pages_correct:
  assumes "pmm_inv s" and "count \<noteq> 0"
  shows "if \<exists>i \<ge> 1. free_run s i (unat count)
    then \<exists>s' i. pmm_alloc_pages count s = (page_addr i, s')
      \<and> i = (LEAST i. 1 \<le> i \<and> free_run s i (unat count))
      \<and> free_set s' = free_set s - {i..<i + unat count} \<and> pmm_inv s'
    else pmm_alloc_pages count s = (0, s)"
  using pmm_alloc_pages_spec [OF assms] by simp

theorem pmm_alloc_pages_correct_witness:
  "pmm_alloc_pages 2 example_frames = (0, example_frames)"
proof -
  have no: "\<not> (\<exists>i \<ge> 1. free_run example_frames i (unat (2 :: u64)))"
    by (auto simp: free_run_def free_set_example atLeastLessThan_def subset_iff) presburger
  show ?thesis using pmm_alloc_pages_correct [OF pmm_inv_example, of 2] unfolding if_not_P [OF no] by simp
qed

text \<open>
  C13: freeing a frame that the allocator handed out makes it free again and keeps the
  invariant, a second free of it changes nothing, and freeing right after allocating gives
  back the same set of free frames.
\<close>

theorem pmm_free_page_correct:
  assumes "pmm_inv s" and "freeable s n"
  shows "free_set (pmm_free_page (page_addr n) s) = insert n (free_set s)
    \<and> pmm_inv (pmm_free_page (page_addr n) s)
    \<and> pmm_free_page (page_addr n) (pmm_free_page (page_addr n) s) = pmm_free_page (page_addr n) s
    \<and> (free_set s \<noteq> {} \<longrightarrow> free_set (case pmm_alloc_page s of (p, t) \<Rightarrow> pmm_free_page p t) = free_set s)"
proof -
  let ?t = "pmm_free_page (page_addr n) s"
  have f: "free_set ?t = insert n (free_set s)" "pmm_inv ?t"
    using pmm_frames.free_frame [OF assms] by simp_all
  have "n < 2 ^ 52" using assms by (simp add: freeable_def pmm_inv_def)
  then have "unat (page_addr n div PAGE_SIZE) = n" by (simp add: unat_div unat_page_addr)
  moreover have "n \<in> free_set ?t" using f(1) by simp
  ultimately have "pmm_free_page (page_addr n) ?t = ?t"
    by (simp add: pmm_free_page_def [of _ ?t] Let_def bitmap_test_used free_set_def)
  then show ?thesis
    using f pmm_frames.alloc_free_avail [OF assms(1)] by (simp add: case_prod_unfold)
qed

theorem pmm_free_page_correct_witness:
  "free_set (pmm_free_page (page_addr 9) example_frames) = {5, 7, 9}"
proof -
  have "frame_region 9 \<inter> bitmap_region example_frames = {}" unfolding bitmap_region_def
    by (intro frame_overlap) (auto simp: example_frames_def example_pmm_def)
  then have "freeable example_frames 9"
    by (simp add: freeable_def example_frames_def)
  then show ?thesis
    using pmm_free_page_correct [OF pmm_inv_example] by (auto simp: free_set_example)
qed

end
