(* ===== verification/Mmu.thy ===== *)
theory Mmu
  imports Physmem
begin

text \<open>
  Page tables as the processor reads them: the entries of a table, the walk along present
  entries that point to a further table, and the translation of a virtual address with
  4 KiB, 2 MiB and 1 GiB pages. The lemmas say how one changed entry changes walks and
  translations; the page-table code of \<^verbatim>\<open>kernel/vmm.c\<close> is verified against them.
\<close>

unbundle bit_operations_syntax

section \<open>Entries\<close>

definition entry :: "pmem \<Rightarrow> u64 \<Rightarrow> u64 \<Rightarrow> u64" where
  "entry m table i = load64 m (table + 8 * i)"

definition pte_addr :: "u64 \<Rightarrow> u64" where "pte_addr e = e AND 0x000FFFFFFFFFF000"

definition page_base :: "u64 \<Rightarrow> u64" where "page_base a = a AND NOT 0xFFF"

definition pml4_i :: "u64 \<Rightarrow> u64" where "pml4_i virt = drop_bit 39 virt AND 0x1FF"
definition pdpt_i :: "u64 \<Rightarrow> u64" where "pdpt_i virt = drop_bit 30 virt AND 0x1FF"
definition pd_i :: "u64 \<Rightarrow> u64" where "pd_i virt = drop_bit 21 virt AND 0x1FF"
definition pt_i :: "u64 \<Rightarrow> u64" where "pt_i virt = drop_bit 12 virt AND 0x1FF"

abbreviation (input) present :: "u64 \<Rightarrow> bool" where "present e \<equiv> bit e 0"
abbreviation (input) user :: "u64 \<Rightarrow> bool" where "user e \<equiv> bit e 2"
abbreviation (input) huge :: "u64 \<Rightarrow> bool" where "huge e \<equiv> bit e 7"

lemma flag_bits [simp]:
  "e AND 1 = 0 \<longleftrightarrow> \<not> present e" "e AND 4 = 0 \<longleftrightarrow> \<not> user e" "e AND 128 = 0 \<longleftrightarrow> \<not> huge e" for e :: u64
  using and_exp_eq_0_iff_not_bit [of e 0] and_exp_eq_0_iff_not_bit [of e 2]
    and_exp_eq_0_iff_not_bit [of e 7] by simp_all

lemma and_1FF_less: "x AND 0x1FF < (512 :: u64)"
proof -
  have "x AND 0x1FF = take_bit 9 x" by (simp add: take_bit_eq_mask mask_eq_exp_minus_1)
  moreover have "unat (take_bit 9 x) < 512" by (simp add: take_bit_eq_mod unat_mod)
  ultimately show ?thesis by (simp add: word_less_nat_alt)
qed

lemma index_less [simp]: "pml4_i v < 512" "pdpt_i v < 512" "pd_i v < 512" "pt_i v < 512"
  by (simp_all add: pml4_i_def pdpt_i_def pd_i_def pt_i_def and_1FF_less)

section \<open>Address bits\<close>

lemma pte_mask_bit: "bit (0x000FFFFFFFFFF000 :: u64) k \<longleftrightarrow> 12 \<le> k \<and> k < 52"
proof -
  have eq: "(0x000FFFFFFFFFF000 :: u64) = push_bit 12 (mask 40)"
    by (simp add: mask_eq_exp_minus_1 push_bit_eq_mult)
  show ?thesis unfolding eq by (auto simp: bit_simps)
qed

lemma page_mask_bit: "bit (0xFFF :: u64) k \<longleftrightarrow> k < 12"
proof -
  have eq: "(0xFFF :: u64) = mask 12" by (simp add: mask_eq_exp_minus_1)
  show ?thesis unfolding eq by (auto simp: bit_simps)
qed

lemma bit_pte_addr: "bit (pte_addr e) k \<longleftrightarrow> bit e k \<and> 12 \<le> k \<and> k < 52"
  by (simp only: pte_addr_def bit_and_iff pte_mask_bit)

lemma bit_page_base: "bit (page_base e) k \<longleftrightarrow> bit e k \<and> 12 \<le> k"
proof -
  have "bit (page_base e) k \<longleftrightarrow> bit e k \<and> k < 64 \<and> \<not> k < 12"
    by (simp only: page_base_def bit_and_iff bit_not_iff page_mask_bit possible_bit_word) simp
  then show ?thesis using bit_imp_le_length [of e k] by auto
qed

lemma bit_page_offset: "bit (v AND 0xFFF) k \<longleftrightarrow> bit v k \<and> k < 12" for v :: u64
  by (simp only: bit_and_iff page_mask_bit)

lemma bit_page_addr: "bit (page_addr n) k \<longleftrightarrow> k < 64 \<and> 12 \<le> k \<and> bit n (k - 12)"
proof -
  have "page_addr n = push_bit 12 (of_nat n)" by (simp add: page_addr_def push_bit_eq_mult)
  then show ?thesis by (auto simp: bit_simps)
qed

lemma page_addr_bits:
  assumes "n < 2 ^ 40" and "bit (page_addr n) k"
  shows "12 \<le> k \<and> k < 52"
proof -
  have "bit n (k - 12)" "12 \<le> k" using assms(2) by (auto simp: bit_page_addr)
  moreover have "take_bit 40 n = n" using assms(1) by (simp add: take_bit_nat_eq_self)
  ultimately have "k - 12 < 40" by (metis bit_take_bit_iff)
  then show ?thesis using \<open>12 \<le> k\<close> by simp
qed

section \<open>Slots of aligned tables\<close>

definition aligned :: "u64 \<Rightarrow> bool" where
  "aligned t \<longleftrightarrow> 4096 dvd unat t"

lemma aligned_bound: "aligned t \<Longrightarrow> unat t + 4096 \<le> 2 ^ 64"
  using unat_u64_less [of t] by (auto simp: aligned_def elim!: dvdE)

lemma aligned_page_addr [simp]: "n < 2 ^ 52 \<Longrightarrow> aligned (page_addr n)"
  by (simp add: aligned_def unat_page_addr)

lemma unat_slot:
  assumes "aligned t" and "i < 512"
  shows "unat (t + 8 * i) = unat t + 8 * unat i" and "unat t + 8 * unat i + 8 \<le> unat t + 4096"
proof -
  have i: "unat i < 512" using assms(2) by (simp add: word_less_nat_alt)
  then show "unat t + 8 * unat i + 8 \<le> unat t + 4096" by simp
  have "unat (8 * i) = 8 * unat i" using i by (simp add: unat_word_ariths)
  then show "unat (t + 8 * i) = unat t + 8 * unat i"
    using i aligned_bound [OF assms(1)] by (simp add: unat_plus_if')
qed

lemma slot_subset:
  assumes "aligned t" and "i < 512"
  shows "region (t + 8 * i) 8 \<subseteq> region t 4096"
  using unat_slot [OF assms] aligned_bound [OF assms(1)]
  by (subst (1 2) region_interval) auto

lemma aligned_disjoint:
  assumes "aligned t" and "aligned t'" and "t \<noteq> t'"
  shows "region t 4096 \<inter> region t' 4096 = {}"
proof -
  obtain a b where a: "unat t = 4096 * a" and b: "unat t' = 4096 * b"
    using assms(1,2) unfolding aligned_def by (elim dvdE) blast
  have "a \<noteq> b" using a b assms(3) by (auto simp: word_unat_eq_iff)
  then have "a + 1 \<le> b \<or> b + 1 \<le> a" by auto
  then have "unat t + 4096 \<le> unat t' \<or> unat t' + 4096 \<le> unat t" using a b by auto
  then show ?thesis
    using aligned_bound [OF assms(1)] aligned_bound [OF assms(2)] by (intro region_disjoint)
qed

lemma entry_store:
  assumes "aligned t" and "aligned t'" and "i < 512" and "j < 512"
  shows "entry (store64 m (t + 8 * i) v) t' j = (if t' = t \<and> j = i then v else entry m t' j)"
proof (cases "t' = t \<and> j = i")
  case True
  then show ?thesis by (simp add: entry_def)
next
  case False
  have "region (t + 8 * i) 8 \<inter> region (t' + 8 * j) 8 = {}"
  proof (cases "t' = t")
    case True
    then have "unat i \<noteq> unat j" using False by (auto simp: word_unat_eq_iff)
    then show ?thesis
      using unat_slot [OF assms(1,3)] unat_slot [OF assms(1,4)] aligned_bound [OF assms(1)] True
      by (intro region_disjoint) auto
  next
    case False
    then show ?thesis
      using slot_subset [OF assms(1,3)] slot_subset [OF assms(2,4)] aligned_disjoint [OF assms(1,2)]
      by blast
  qed
  then show ?thesis using False by (auto simp: entry_def load64_store64_disjoint)
qed

lemma entry_cong:
  assumes "aligned t" and "i < 512" and "\<And>x. x \<in> region t 4096 \<Longrightarrow> m x = m' x"
  shows "entry m t i = entry m' t i"
  using assms slot_subset [OF assms(1,2)] by (auto simp: entry_def intro!: load64_cong)

section \<open>Walks\<close>

text \<open>
  One step goes through a present entry that points to a table. A path is a list of
  indices; a page table proper is at the end of a path of length three.
\<close>

definition walk_step :: "pmem \<Rightarrow> u64 \<Rightarrow> u64 \<Rightarrow> u64 option" where
  "walk_step m t i =
     (let e = entry m t i in if present e \<and> \<not> huge e then Some (pte_addr e) else None)"

fun walk :: "pmem \<Rightarrow> u64 \<Rightarrow> u64 list \<Rightarrow> u64 option" where
  "walk m t [] = Some t"
| "walk m t (i # is) = (case walk_step m t i of None \<Rightarrow> None | Some t' \<Rightarrow> walk m t' is)"

lemma walk_snoc:
  "walk m t (is @ [i]) = (case walk m t is of None \<Rightarrow> None | Some t' \<Rightarrow> walk_step m t' i)"
  by (induction "is" arbitrary: t) (auto split: option.splits)

lemma walk_append:
  "walk m t (p @ q) = (case walk m t p of None \<Rightarrow> None | Some t' \<Rightarrow> walk m t' q)"
  by (induction p arbitrary: t) (auto split: option.splits)

definition table_at :: "pmem \<Rightarrow> u64 \<Rightarrow> u64 list \<Rightarrow> u64 \<Rightarrow> bool" where
  "table_at m r p t \<longleftrightarrow> length p \<le> 3 \<and> set p \<subseteq> {..<512} \<and> walk m r p = Some t"

lemma table_at_root [simp]: "table_at m r [] t \<longleftrightarrow> t = r"
  by (auto simp: table_at_def)

lemma table_at_fun: "table_at m r p t \<Longrightarrow> table_at m r p t' \<Longrightarrow> t = t'"
  by (simp add: table_at_def)

lemma table_at_snoc:
  "table_at m r (p @ [i]) t' \<longleftrightarrow>
     length p \<le> 2 \<and> i < 512 \<and> (\<exists>t. table_at m r p t \<and> walk_step m t i = Some t')"
  by (auto simp: table_at_def walk_snoc split: option.splits)

text \<open>The four indices of a virtual address.\<close>

definition table_path :: "u64 \<Rightarrow> u64 list" where
  "table_path v = [pml4_i v, pdpt_i v, pd_i v]"

lemma table_path_props [simp]: "length (table_path v) = 3" "set (table_path v) \<subseteq> {..<512}"
  by (simp_all add: table_path_def)

section \<open>Translation\<close>

definition translate :: "pmem \<Rightarrow> u64 \<Rightarrow> u64 \<Rightarrow> u64 option" where
  "translate m r v =
     (let pml4e = entry m r (pml4_i v);
          pdpte = entry m (pte_addr pml4e) (pdpt_i v);
          pde = entry m (pte_addr pdpte) (pd_i v);
          pte = entry m (pte_addr pde) (pt_i v)
      in if \<not> present pml4e \<or> huge pml4e then None
         else if \<not> present pdpte then None
         else if huge pdpte then Some ((pdpte AND 0x000FFFFFC0000000) OR (v AND 0x3FFFFFFF))
         else if \<not> present pde then None
         else if huge pde then Some ((pde AND 0x000FFFFFFFE00000) OR (v AND 0x1FFFFF))
         else if \<not> present pte then None
         else Some (pte_addr pte OR (v AND 0xFFF)))"

definition leaf_4k :: "pmem \<Rightarrow> u64 \<Rightarrow> u64 \<Rightarrow> u64 option" where
  "leaf_4k m t v =
     (let e = entry m t (pt_i v) in if present e then Some (pte_addr e OR (v AND 0xFFF)) else None)"

definition leaf_2m :: "pmem \<Rightarrow> u64 \<Rightarrow> u64 \<Rightarrow> u64 option" where
  "leaf_2m m t v =
     (let e = entry m t (pd_i v) in if present e \<and> huge e
      then Some ((e AND 0x000FFFFFFFE00000) OR (v AND 0x1FFFFF)) else None)"

definition leaf_1g :: "pmem \<Rightarrow> u64 \<Rightarrow> u64 \<Rightarrow> u64 option" where
  "leaf_1g m t v =
     (let e = entry m t (pdpt_i v) in if present e \<and> huge e
      then Some ((e AND 0x000FFFFFC0000000) OR (v AND 0x3FFFFFFF)) else None)"

text \<open>The translation by the table in which the walk stops.\<close>

lemma translate_walk:
  "translate m r v =
     (case walk m r [pml4_i v] of None \<Rightarrow> None | Some pdpt \<Rightarrow>
      case walk m pdpt [pdpt_i v] of None \<Rightarrow> leaf_1g m pdpt v | Some pd \<Rightarrow>
      case walk m pd [pd_i v] of None \<Rightarrow> leaf_2m m pd v | Some pt \<Rightarrow> leaf_4k m pt v)"
  by (simp add: translate_def walk_step_def leaf_1g_def leaf_2m_def leaf_4k_def Let_def)

section \<open>How a changed entry changes walks and translations\<close>

lemma table_at_cong:
  assumes "\<And>p t i. table_at m r p t \<Longrightarrow> length p \<le> 2 \<Longrightarrow> i < 512 \<Longrightarrow> walk_step m' t i = walk_step m t i"
  shows "table_at m' r q t \<longleftrightarrow> table_at m r q t"
proof (induction q arbitrary: t rule: rev_induct)
  case (snoc i q)
  show ?case using assms by (auto simp: table_at_snoc snoc)
qed simp

lemma translate_tables:
  "translate m r v =
     (case walk m r (table_path v) of Some pt \<Rightarrow> leaf_4k m pt v | None \<Rightarrow>
      case walk m r [pml4_i v, pdpt_i v] of Some pd \<Rightarrow> leaf_2m m pd v | None \<Rightarrow>
      case walk m r [pml4_i v] of Some pdpt \<Rightarrow> leaf_1g m pdpt v | None \<Rightarrow> None)"
  by (auto simp: translate_walk table_path_def split: option.splits)

lemma leaf_cong:
  "entry m' t (pt_i v) = entry m t (pt_i v) \<Longrightarrow> leaf_4k m' t v = leaf_4k m t v"
  "entry m' t (pd_i v) = entry m t (pd_i v) \<Longrightarrow> leaf_2m m' t v = leaf_2m m t v"
  "entry m' t (pdpt_i v) = entry m t (pdpt_i v) \<Longrightarrow> leaf_1g m' t v = leaf_1g m t v"
  by (simp_all add: leaf_4k_def leaf_2m_def leaf_1g_def)

lemma leaf_absent:
  "\<not> present (entry m t (pt_i v)) \<Longrightarrow> leaf_4k m t v = None"
  "\<not> present (entry m t (pd_i v)) \<Longrightarrow> leaf_2m m t v = None"
  "\<not> present (entry m t (pdpt_i v)) \<Longrightarrow> leaf_1g m t v = None"
  by (simp_all add: leaf_4k_def leaf_2m_def leaf_1g_def)

lemma translate_cong:
  assumes "\<And>q u t. table_path v = q @ u \<Longrightarrow> table_at m' r q t \<longleftrightarrow> table_at m r q t"
    and "\<And>t. table_at m r [pml4_i v] t \<Longrightarrow> leaf_1g m' t v = leaf_1g m t v"
    and "\<And>t. table_at m r [pml4_i v, pdpt_i v] t \<Longrightarrow> leaf_2m m' t v = leaf_2m m t v"
    and "\<And>t. table_at m r (table_path v) t \<Longrightarrow> leaf_4k m' t v = leaf_4k m t v"
  shows "translate m' r v = translate m r v"
proof -
  have eq: "walk m' r q = walk m r q" if "table_path v = q @ u" "length q \<le> 3" "set q \<subseteq> {..<512}" for q u
  proof -
    have "walk m' r q = Some t \<longleftrightarrow> walk m r q = Some t" for t
      using assms(1) [OF that(1), of t] that(2,3) by (simp add: table_at_def)
    then show ?thesis by (metis not_None_eq)
  qed
  have e: "walk m' r (table_path v) = walk m r (table_path v)"
    "walk m' r [pml4_i v, pdpt_i v] = walk m r [pml4_i v, pdpt_i v]"
    "walk m' r [pml4_i v] = walk m r [pml4_i v]"
    using eq [of "table_path v" "[]"] eq [of "[pml4_i v, pdpt_i v]" "[pd_i v]"]
      eq [of "[pml4_i v]" "[pdpt_i v, pd_i v]"] by (simp_all add: table_path_def del: walk.simps)
  have l: "leaf_4k m' x v = leaf_4k m x v" if "walk m r (table_path v) = Some x" for x
    using assms(4) that by (simp add: table_at_def)
  have l2: "leaf_2m m' x v = leaf_2m m x v" if "walk m r [pml4_i v, pdpt_i v] = Some x" for x
    using assms(3) that by (simp add: table_at_def del: walk.simps)
  have l1: "leaf_1g m' x v = leaf_1g m x v" if "walk m r [pml4_i v] = Some x" for x
    using assms(2) that by (simp add: table_at_def del: walk.simps)
  show ?thesis
    unfolding translate_tables e using l l2 l1 by (auto split: option.split simp del: walk.simps)
qed

definition unique_paths :: "pmem \<Rightarrow> u64 set \<Rightarrow> bool" where
  "unique_paths m R \<longleftrightarrow> (\<forall>r \<in> R. \<forall>r' \<in> R. \<forall>p q t. table_at m r p t \<longrightarrow> table_at m r' q t \<longrightarrow> p = q)"

lemma unique_pathsD:
  "unique_paths m R \<Longrightarrow> r \<in> R \<Longrightarrow> r' \<in> R \<Longrightarrow> table_at m r p t \<Longrightarrow> table_at m r' q t \<Longrightarrow> p = q"
  by (auto simp: unique_paths_def)

text \<open>A table hung into an empty slot is reached by exactly the paths through that slot.\<close>

lemma table_at_new:
  assumes uniq: "unique_paths m R" and r0: "r0 \<in> R" "table_at m r0 p0 t0"
    and p0: "length p0 \<le> 2" "i0 < 512"
    and same: "\<And>r p t i. r \<in> R \<Longrightarrow> table_at m r p t \<Longrightarrow> i < 512 \<Longrightarrow> (t, i) \<noteq> (t0, i0) \<Longrightarrow>
      entry m' t i = entry m t i"
    and old: "\<not> present (entry m t0 i0)" and new: "walk_step m' t0 i0 = Some n"
    and zero: "\<And>i. i < 512 \<Longrightarrow> \<not> present (entry m' n i)"
    and r: "r \<in> R"
  shows "table_at m' r q t \<longleftrightarrow> table_at m r q t \<or> q = p0 @ [i0] \<and> table_at m r p0 t0 \<and> t = n"
proof (induction q arbitrary: t rule: rev_induct)
  case (snoc i q)
  have n0: "walk_step m' n j = None" if "j < 512" for j
    using zero [OF that] by (simp add: walk_step_def)
  have o0: "walk_step m t0 i0 = None" using old by (simp add: walk_step_def)
  have st: "walk_step m' t' j = (if t' = t0 \<and> j = i0 then Some n else walk_step m t' j)"
    if "table_at m r p t'" "j < 512" for p t' j
    using same [OF r that] new by (auto simp: walk_step_def)
  show ?case
  proof (cases "q = p0 \<and> i = i0 \<and> table_at m r p0 t0")
    case True
    then have "table_at m' r q t' \<longleftrightarrow> t' = t0" for t'
      using snoc [of t'] table_at_fun [of m r p0] by auto
    moreover have "table_at m r q t' \<longleftrightarrow> t' = t0" for t'
      using True table_at_fun [of m r p0] by blast
    ultimately show ?thesis using True p0 new o0 by (auto simp: table_at_snoc)
  next
    case False
    have "(\<exists>t'. table_at m' r q t' \<and> walk_step m' t' i = Some t)
        \<longleftrightarrow> (\<exists>t'. table_at m r q t' \<and> walk_step m t' i = Some t)" if "i < 512"
    proof -
      have "walk_step m' t' i = walk_step m t' i" if "table_at m r q t'" for t'
        using st [OF that \<open>i < 512\<close>] False unique_pathsD [OF uniq r r0(1) that] r0(2) that by auto
      then show ?thesis using n0 [OF that] by (auto simp: snoc)
    qed
    then show ?thesis using False by (auto simp: table_at_snoc)
  qed
qed (auto simp: table_at_def)

text \<open>A table that maps nothing yet changes no translation.\<close>

lemma translate_new:
  assumes uniq: "unique_paths m R" and r0: "r0 \<in> R" "table_at m r0 p0 t0"
    and p0: "length p0 \<le> 2" "i0 < 512"
    and same: "\<And>r p t i. r \<in> R \<Longrightarrow> table_at m r p t \<Longrightarrow> i < 512 \<Longrightarrow> (t, i) \<noteq> (t0, i0) \<Longrightarrow>
      entry m' t i = entry m t i"
    and old: "\<not> present (entry m t0 i0)" and new: "walk_step m' t0 i0 = Some n"
    and zero: "\<And>i. i < 512 \<Longrightarrow> \<not> present (entry m' n i)"
    and r: "r \<in> R"
  shows "translate m' r v = translate m r v"
proof (cases "table_at m r p0 t0 \<and> (\<exists>q. table_path v = p0 @ i0 # q)")
  case True
  then obtain q where at: "walk m r p0 = Some t0" and q: "table_path v = p0 @ i0 # q"
    by (auto simp: table_at_def)
  have at': "walk m' r p0 = Some t0"
    using table_at_new [OF uniq r0 p0 same old new zero r, where q = p0 and t = t0] True by (simp add: table_at_def)
  have dead: "walk m r (p0 @ i0 # u) = None" for u
    using old by (simp add: walk_append at walk_step_def)
  have live: "walk m' r (p0 @ i0 # u) = walk m' n u" for u
    using new by (simp add: walk_append at')
  have stuck: "walk_step m' n i = None" if "i < 512" for i
    using zero [OF that] by (simp add: walk_step_def)
  consider (a) "p0 = []" "i0 = pml4_i v" | (b) "p0 = [pml4_i v]" "i0 = pdpt_i v"
    | (c) "p0 = [pml4_i v, pdpt_i v]" "i0 = pd_i v"
    using q by (auto simp: table_path_def Cons_eq_append_conv)
  then show ?thesis
  proof cases
    case a
    then show ?thesis
      using dead [of "[]"] live [of "[]"] stuck zero
      by (simp add: translate_walk leaf_absent)
  next
    case b
    then show ?thesis
      using at at' dead [of "[]"] live [of "[]"] stuck zero old
      by (auto simp: translate_walk leaf_absent split: option.splits)
  next
    case c
    then show ?thesis
      using at at' dead [of "[]"] live [of "[]"] stuck zero old
      by (auto simp: translate_walk leaf_absent split: option.splits)
  qed
next
  case False
  have ne: "entry m' t i = entry m t i"
    if "table_at m r q t" "i < 512" "table_path v @ [pt_i v] = q @ i # u" for q t i u
  proof (rule same [OF r that(1,2)])
    show "(t, i) \<noteq> (t0, i0)"
    proof
      assume ti: "(t, i) = (t0, i0)"
      then have q: "q = p0" using unique_pathsD [OF uniq r r0(1) that(1)] r0(2) by simp
      then have "table_path v = p0 @ i0 # butlast u"
        using that(3) ti p0(1) by (cases u rule: rev_cases) (auto simp: table_path_def)
      then show False using False that(1) ti q by blast
    qed
  qed
  show ?thesis
  proof (rule translate_cong)
    show "table_at m' r q t \<longleftrightarrow> table_at m r q t" if "table_path v = q @ u" for q u t
      using table_at_new [OF uniq r0 p0 same old new zero r, where q = q and t = t] False that by auto
  qed (auto intro!: leaf_cong ne simp: table_path_def)
qed

text \<open>A changed leaf changes the translation of exactly the addresses of its page.\<close>

lemma leaf_store:
  assumes uniq: "unique_paths m R" and r0: "r0 \<in> R" "table_at m r0 p0 t0" and p0: "length p0 = 3"
    and same: "\<And>r p t i. r \<in> R \<Longrightarrow> table_at m r p t \<Longrightarrow> i < 512 \<Longrightarrow> (t, i) \<noteq> (t0, i0) \<Longrightarrow>
      entry m' t i = entry m t i"
    and r: "r \<in> R"
  shows "table_at m' r q t \<longleftrightarrow> table_at m r q t"
    and "translate m' r v = (if table_at m r (table_path v) t0 \<and> pt_i v = i0
      then leaf_4k m' t0 v else translate m r v)"
proof -
  have st: "entry m' t i = entry m t i" if "table_at m r p t" "length p \<le> 2" "i < 512" for p t i
  proof (rule same [OF r that(1,3)])
    show "(t, i) \<noteq> (t0, i0)"
      using unique_pathsD [OF uniq r r0(1) that(1)] r0(2) p0 that(2) by fastforce
  qed
  show tab: "table_at m' r q t \<longleftrightarrow> table_at m r q t" for q t
    by (rule table_at_cong) (simp add: walk_step_def st)
  show "translate m' r v = (if table_at m r (table_path v) t0 \<and> pt_i v = i0
      then leaf_4k m' t0 v else translate m r v)"
  proof (cases "table_at m r (table_path v) t0 \<and> pt_i v = i0")
    case True
    then show ?thesis using tab [of "table_path v" t0] by (simp add: translate_tables table_at_def)
  next
    case False
    have "translate m' r v = translate m r v"
    proof (rule translate_cong [OF tab])
      show "leaf_4k m' t v = leaf_4k m t v" if "table_at m r (table_path v) t" for t
        using False that same [OF r that, of "pt_i v"] by (intro leaf_cong) auto
    qed (auto intro!: leaf_cong st)
    then show ?thesis unfolding if_not_P [OF False] .
  qed
qed

end
