(* ===== verification/Vmm.thy ===== *)
theory Vmm
  imports Pmm Mmu
begin

text \<open>
  The virtual memory manager, \<^verbatim>\<open>kernel/vmm.c\<close>: four-level page tables in physical memory,
  reached through the identity map. An \<^verbatim>\<open>AddressSpace*\<close> is the address of the one-field
  structure, so \<^verbatim>\<open>as->pml4\<close> is the qword stored there. The state adds the address of the static
  \<^verbatim>\<open>kernel_address_space\<close> and the register CR3. Translation look-aside buffers are not part
  of the state, so \<^verbatim>\<open>tlb_flush\<close> has no effect here.
\<close>

unbundle bit_operations_syntax

section \<open>State\<close>

record vmm = pmm +
  kernel_address_space :: u64
  cr3 :: u64

abbreviation (input) VMM_FLAG_PRESENT :: u64 where "VMM_FLAG_PRESENT \<equiv> 1"
abbreviation (input) VMM_FLAG_WRITE :: u64 where "VMM_FLAG_WRITE \<equiv> 2"
abbreviation (input) VMM_FLAG_USER :: u64 where "VMM_FLAG_USER \<equiv> 4"
abbreviation (input) PAGE_HUGE :: u64 where "PAGE_HUGE \<equiv> 128"

definition pml4_of :: "'a vmm_scheme \<Rightarrow> u64 \<Rightarrow> u64" where
  "pml4_of s as = load64 (mem s) as"

definition set_entry :: "u64 \<Rightarrow> u64 \<Rightarrow> u64 \<Rightarrow> 'a vmm_scheme \<Rightarrow> 'a vmm_scheme" where
  "set_entry table i v s = s\<lparr>mem := store64 (mem s) (table + 8 * i) v\<rparr>"

section \<open>Operations\<close>

definition zero_table :: "u64 \<Rightarrow> pmem \<Rightarrow> pmem" where
  "zero_table pt m = for_range (0 :: u32) 512 (\<lambda>i m. store64 m (pt + 8 * ucast i) 0) m"

definition alloc_page_table :: "'a vmm_scheme \<Rightarrow> (u64, 'a vmm_scheme) outcome" where
  "alloc_page_table s =
     (let (pt, s1) = pmm_alloc_page s
      in if pt = 0 then Panic ''VMM: out of memory allocating page table'' s1
         else Ok pt (s1\<lparr>mem := zero_table pt (mem s1)\<rparr>))"

definition get_or_create_table ::
  "u64 \<Rightarrow> u64 \<Rightarrow> u64 \<Rightarrow> 'a vmm_scheme \<Rightarrow> (u64, 'a vmm_scheme) outcome" where
  "get_or_create_table table index flags s =
     (if entry (mem s) table index AND VMM_FLAG_PRESENT \<noteq> 0
      then let s1 = (if flags AND VMM_FLAG_USER \<noteq> 0
                     then set_entry table index (entry (mem s) table index OR VMM_FLAG_USER) s
                     else s)
           in Ok (pte_addr (entry (mem s1) table index)) s1
      else kbind (alloc_page_table s) (\<lambda>new_table s1.
             Ok new_table (set_entry table index (new_table OR flags OR VMM_FLAG_PRESENT) s1)))"

definition vmm_init :: "'a vmm_scheme \<Rightarrow> 'a vmm_scheme" where
  "vmm_init s =
     (let s1 = s\<lparr>mem := store64 (mem s) (kernel_address_space s) (cr3 s)\<rparr>;
          s2 = print (''VMM: initialized'' @ [NL]) s1
      in print [NL] (print_hex (pml4_of s2 (kernel_address_space s2))
           (print ''VMM: kernel PML4 at: '' s2)))"

definition vmm_create_address_space :: "'a vmm_scheme \<Rightarrow> (u64, 'a vmm_scheme) outcome" where
  "vmm_create_address_space s =
     (let (as, s1) = pmm_alloc_page s
      in if as = 0 then Ok 0 s1
         else kbind (alloc_page_table s1) (\<lambda>pml4 s2.
           let s3 = s2\<lparr>mem := store64 (mem s2) as pml4\<rparr>;
               s4 = s3\<lparr>mem := zero_table (pml4_of s3 as) (mem s3)\<rparr>;
               s5 = set_entry (pml4_of s4 as) 0
                      (entry (mem s4) (pml4_of s4 (kernel_address_space s4)) 0 OR VMM_FLAG_USER) s4;
               s6 = set_entry (pml4_of s5 as) 511
                      (entry (mem s5) (pml4_of s5 (kernel_address_space s5)) 511) s5
           in Ok as s6))"

definition destroy_pt :: "u64 \<Rightarrow> u32 \<Rightarrow> 'a vmm_scheme \<Rightarrow> 'a vmm_scheme" where
  "destroy_pt pd i s =
     (if entry (mem s) pd (ucast i) AND VMM_FLAG_PRESENT = 0 then s
      else pmm_free_page (page_base (entry (mem s) pd (ucast i))) s)"

definition destroy_pd :: "u64 \<Rightarrow> u32 \<Rightarrow> 'a vmm_scheme \<Rightarrow> 'a vmm_scheme" where
  "destroy_pd pdpt i s =
     (if entry (mem s) pdpt (ucast i) AND VMM_FLAG_PRESENT = 0 then s
      else let pd = page_base (entry (mem s) pdpt (ucast i))
           in pmm_free_page pd (for_range 0 512 (destroy_pt pd) s))"

definition destroy_pdpt :: "u64 \<Rightarrow> u32 \<Rightarrow> 'a vmm_scheme \<Rightarrow> 'a vmm_scheme" where
  "destroy_pdpt as i s =
     (if entry (mem s) (pml4_of s as) (ucast i) AND VMM_FLAG_PRESENT = 0 then s
      else let pdpt = page_base (entry (mem s) (pml4_of s as) (ucast i))
           in pmm_free_page pdpt (for_range 0 512 (destroy_pd pdpt) s))"

definition vmm_destroy_address_space :: "u64 \<Rightarrow> 'a vmm_scheme \<Rightarrow> 'a vmm_scheme" where
  "vmm_destroy_address_space as s =
     (let s1 = for_range 1 511 (destroy_pdpt as) s;
          s2 = pmm_free_page (pml4_of s1 as) s1
      in pmm_free_page as s2)"

definition vmm_map ::
  "u64 \<Rightarrow> u64 \<Rightarrow> u64 \<Rightarrow> u64 \<Rightarrow> 'a vmm_scheme \<Rightarrow> (unit, 'a vmm_scheme) outcome" where
  "vmm_map as virt phys flags s =
     kbind (kassert (as \<noteq> 0) ''vmm_map: null address space'' s) (\<lambda>_ s.
     kbind (kassert (virt AND 0xFFF = 0) ''vmm_map: virtual address is not page aligned'' s) (\<lambda>_ s.
     kbind (kassert (phys AND 0xFFF = 0) ''vmm_map: physical address is not page aligned'' s) (\<lambda>_ s.
     let table_flags = VMM_FLAG_PRESENT OR VMM_FLAG_WRITE OR
           (if flags AND VMM_FLAG_USER \<noteq> 0 then VMM_FLAG_USER else 0)
     in
     kbind (get_or_create_table (pml4_of s as) (pml4_i virt) table_flags s) (\<lambda>pdpt s.
     kbind (get_or_create_table pdpt (pdpt_i virt) table_flags s) (\<lambda>pd s.
     kbind (kassert (entry (mem s) pd (pd_i virt) AND PAGE_HUGE = 0)
       ''vmm_map: cannot map through a huge page'' s) (\<lambda>_ s.
     kbind (get_or_create_table pd (pd_i virt) table_flags s) (\<lambda>pt s.
     kbind (kassert (entry (mem s) pt (pt_i virt) AND VMM_FLAG_PRESENT = 0)
       ''vmm_map: virtual page is already mapped'' s) (\<lambda>_ s.
     Ok () (set_entry pt (pt_i virt) (page_base phys OR flags OR VMM_FLAG_PRESENT) s)))))))))"

definition vmm_unmap :: "u64 \<Rightarrow> u64 \<Rightarrow> 'a vmm_scheme \<Rightarrow> (unit, 'a vmm_scheme) outcome" where
  "vmm_unmap as virt s =
     kbind (kassert (as \<noteq> 0) ''vmm_unmap: null address space'' s) (\<lambda>_ s.
     kbind (kassert (virt AND 0xFFF = 0) ''vmm_unmap: virtual address is not page aligned'' s) (\<lambda>_ s.
     let pml4e = entry (mem s) (pml4_of s as) (pml4_i virt); pdpt = page_base pml4e;
         pdpte = entry (mem s) pdpt (pdpt_i virt); pd = page_base pdpte;
         pde = entry (mem s) pd (pd_i virt); pt = page_base pde
     in if pml4e AND VMM_FLAG_PRESENT = 0 then Ok () s
        else if pdpte AND VMM_FLAG_PRESENT = 0 then Ok () s
        else if pde AND VMM_FLAG_PRESENT = 0 then Ok () s
        else Ok () (set_entry pt (pt_i virt) 0 s)))"

definition vmm_switch :: "u64 \<Rightarrow> 'a vmm_scheme \<Rightarrow> 'a vmm_scheme" where
  "vmm_switch as s = s\<lparr>cr3 := pml4_of s as\<rparr>"

definition vmm_virt_to_phys :: "u64 \<Rightarrow> u64 \<Rightarrow> 'a vmm_scheme \<Rightarrow> u64" where
  "vmm_virt_to_phys as virt s =
     (let pml4e = entry (mem s) (pml4_of s as) (pml4_i virt);
          pdpte = entry (mem s) (pte_addr pml4e) (pdpt_i virt);
          pde = entry (mem s) (pte_addr pdpte) (pd_i virt);
          pte = entry (mem s) (pte_addr pde) (pt_i virt)
      in if pml4e AND VMM_FLAG_PRESENT = 0 then 0
         else if pdpte AND VMM_FLAG_PRESENT = 0 then 0
         else if pde AND VMM_FLAG_PRESENT = 0 then 0
         else if pte AND VMM_FLAG_PRESENT = 0 then 0
         else pte_addr pte OR (virt AND 0xFFF))"

section \<open>What the operations may touch\<close>

text \<open>Only memory and the free counter differ between \<open>s\<close> and \<open>t\<close>.\<close>

definition mem_only :: "'a pmm_scheme \<Rightarrow> 'a pmm_scheme \<Rightarrow> bool" where
  "mem_only s t \<longleftrightarrow> (\<exists>m f. t = s\<lparr>mem := m, free_pages := f\<rparr>)"

lemma mem_only_refl [simp]: "mem_only s s"
  unfolding mem_only_def by (rule exI [of _ "mem s"], rule exI [of _ "free_pages s"]) simp

lemma mem_only_trans: "mem_only s t \<Longrightarrow> mem_only t u \<Longrightarrow> mem_only s u"
  unfolding mem_only_def by force

lemma mem_only_mem [simp]: "mem_only s (s\<lparr>mem := m\<rparr>)" "mem_only s (s\<lparr>mem := m, free_pages := f\<rparr>)"
  unfolding mem_only_def by (rule exI [of _ m], rule exI [of _ "free_pages s"], simp) blast

lemma mem_only_fields:
  assumes "mem_only s t"
  shows "bitmap t = bitmap s" "bitmap_size t = bitmap_size s" "total_pages t = total_pages s"
    "bitmap_region t = bitmap_region s"
  using assms by (auto simp: mem_only_def bitmap_region_def)

lemma mem_only_vmm:
  fixes s t :: "'a vmm_scheme"
  assumes "mem_only s t"
  shows "kernel_address_space t = kernel_address_space s" "cr3 t = cr3 s"
  using assms by (auto simp: mem_only_def)

lemma mem_only_pmm_alloc_page: "mem_only s (snd (pmm_alloc_page s))"
  by (cases rule: pmm_alloc_page_cases [of s]) (auto simp: bitmap_set_def Let_def)

lemma mem_only_pmm_free_page: "mem_only s (pmm_free_page a s)"
  by (simp add: pmm_free_page_def bitmap_clear_def Let_def)

text \<open>A write outside the bitmap leaves the set of free frames alone.\<close>

lemma pmm_mem_update:
  assumes "bitmap_geom s" and "\<And>x. x \<in> bitmap_region s \<Longrightarrow> m x = mem s x"
  shows "free_set (s\<lparr>mem := m\<rparr>) = free_set s" and "pmm_inv (s\<lparr>mem := m\<rparr>) = pmm_inv s"
proof -
  have "page_used (s\<lparr>mem := m\<rparr>) p = page_used s p" if "p < unat (total_pages s)" for p
  proof -
    have "p < 2 ^ 64" using that by (rule total_pages_bound)
    then have "unat (of_nat p :: u64) = p" by simp
    then have "bitmap s + of_nat (p div 8) \<in> bitmap_region s"
      using bitmap_byte_in_region [OF assms(1), of "of_nat p"] that by (simp add: word_div_8)
    then show ?thesis using assms(2) by (simp add: page_used_def)
  qed
  then show fs: "free_set (s\<lparr>mem := m\<rparr>) = free_set s" by (auto simp: free_set_def)
  show "pmm_inv (s\<lparr>mem := m\<rparr>) = pmm_inv s"
    by (simp add: pmm_inv_def fs bitmap_region_def)
qed

section \<open>Fresh tables\<close>

lemma zero_table_spec:
  assumes "aligned pt"
  shows "i < 512 \<Longrightarrow> entry (zero_table pt m) pt i = 0"
    and "x \<notin> region pt 4096 \<Longrightarrow> zero_table pt m x = m x"
proof -
  let ?I = "\<lambda>k m'. (\<forall>j. unat j < unat k \<longrightarrow> entry m' pt j = 0) \<and> (\<forall>x. x \<notin> region pt 4096 \<longrightarrow> m' x = m x)"
  have "?I (512 :: u32) (zero_table pt m)" unfolding zero_table_def
  proof (rule for_range_invariant [where I = ?I])
    fix k :: u32 and m' assume k: "k < 512" and I: "?I k m'"
    have uk: "unat (ucast k :: u64) = unat k"
      using unat_u32_less [of k] by (simp add: unsigned_ucast_eq take_bit_eq_mod)
    have k': "(ucast k :: u64) < 512" using k uk by (simp add: word_less_nat_alt)
    have "entry (store64 m' (pt + 8 * ucast k) 0) pt j = 0" if "unat j < unat (k + 1)" for j
    proof -
      have j: "unat j \<le> unat k" using that by (simp only: unat_Suc_less [OF k])
      then have "j < 512" using k by (simp add: word_less_nat_alt)
      moreover have "unat j < unat k" if "j \<noteq> ucast k"
        using that j uk by (metis le_neq_implies_less word_unat_eq_iff)
      ultimately show ?thesis
        using I entry_store [OF assms assms k'] by auto
    qed
    moreover have "store64 m' (pt + 8 * ucast k) 0 x = m x" if "x \<notin> region pt 4096" for x
      using that I slot_subset [OF assms k'] by (subst store64_apply_out) auto
    ultimately show "?I (k + 1) (store64 m' (pt + 8 * ucast k) 0)" by blast
  qed auto
  then show "i < 512 \<Longrightarrow> entry (zero_table pt m) pt i = 0" "x \<notin> region pt 4096 \<Longrightarrow> zero_table pt m x = m x"
    by (auto simp: word_less_nat_alt)
qed

text \<open>
  A frame a table may live in: a used frame below the end of memory that does not overlap
  the bitmap.
\<close>

definition kframe :: "'a pmm_scheme \<Rightarrow> u64 \<Rightarrow> bool" where
  "kframe s t \<longleftrightarrow> (\<exists>n. t = page_addr n \<and> 0 < n \<and> n < unat (total_pages s) \<and> n \<notin> free_set s
     \<and> frame_region n \<inter> bitmap_region s = {})"

lemma alloc_page_table_cases:
  fixes s :: "'a vmm_scheme"
  assumes "pmm_inv s"
  obtains (none) "free_set s = {}"
      "alloc_page_table s = Panic ''VMM: out of memory allocating page table'' s"
  | (some) n s' where "alloc_page_table s = Ok (page_addr n) s'" "n \<in> free_set s"
      "free_set s' = free_set s - {n}" "pmm_inv s'" "mem_only s s'" "kframe s' (page_addr n)"
      "\<And>i. i < 512 \<Longrightarrow> entry (mem s') (page_addr n) i = 0"
      "\<And>x. x \<notin> bitmap_region s \<Longrightarrow> x \<notin> frame_region n \<Longrightarrow> mem s' x = mem s x"
proof (cases "free_set s = {}")
  case True
  then show ?thesis
    using none pmm_frames.alloc_none [OF assms] by (simp add: alloc_page_table_def)
next
  case False
  obtain n s1 where n: "pmm_alloc_page s = (page_addr n, s1)" "n \<in> free_set s"
    "free_set s1 = free_set s - {n}" "pmm_inv s1"
    using pmm_frames.alloc_some [OF assms False] by blast
  have f1: "mem_only s s1" "pmm_frame s s1"
    using mem_only_pmm_alloc_page [of s] pmm_alloc_page_frame [OF pmm_inv_geom [OF assms]] n(1) by simp_all
  have nb: "0 < n" "n < 2 ^ 52" "frame_region n \<inter> bitmap_region s = {}" "n < unat (total_pages s)"
    using pmm_frames.avail_frame [OF assms n(2)] by (auto simp: freeable_def)
  then have nz: "page_addr n \<noteq> 0" using page_addr_inj [of n 0] by auto
  let ?m = "zero_table (page_addr n) (mem s1)"
  have out: "?m x = mem s1 x" if "x \<notin> frame_region n" for x
    using zero_table_spec(2) [of "page_addr n"] nb(2) that by (simp add: frame_region_def)
  have fs: "free_set (s1\<lparr>mem := ?m\<rparr>) = free_set s1" "pmm_inv (s1\<lparr>mem := ?m\<rparr>) = pmm_inv s1"
    using nb(3) mem_only_fields(4) [OF f1(1)]
    by (intro pmm_mem_update pmm_inv_geom n out; blast)+
  show ?thesis
  proof (rule some)
    show "alloc_page_table s = Ok (page_addr n) (s1\<lparr>mem := ?m\<rparr>)"
      using n(1) nz by (simp add: alloc_page_table_def)
    show "mem_only s (s1\<lparr>mem := ?m\<rparr>)" by (rule mem_only_trans [OF f1(1)]) simp
    show "kframe (s1\<lparr>mem := ?m\<rparr>) (page_addr n)"
      unfolding kframe_def using n nb fs mem_only_fields [OF f1(1)]
      by (intro exI [of _ n]) (auto simp: bitmap_region_def)
    show "mem (s1\<lparr>mem := ?m\<rparr>) x = mem s x" if "x \<notin> bitmap_region s" "x \<notin> frame_region n" for x
      using that out f1(2) by (simp add: pmm_frame_def)
  qed (use n nb fs zero_table_spec(1) [of "page_addr n"] in auto)
qed

section \<open>Invariant of a set of address spaces\<close>

text \<open>
  The roots of the address spaces in \<open>S\<close>, and what holds of their tables: every table is a
  used frame, a table has one path (the same from every root that shares it), upper
  levels hold no 1 GiB pages and no attribute bits above the address, an absent entry is
  not marked as a large page, and the \<^verbatim>\<open>AddressSpace\<close> structures lie outside the
  bitmap, the free frames and the tables.
\<close>

definition roots :: "'a vmm_scheme \<Rightarrow> u64 set \<Rightarrow> u64 set" where
  "roots s S = pml4_of s ` S"

definition table_ok :: "pmem \<Rightarrow> u64 list \<Rightarrow> u64 \<Rightarrow> bool" where
  "table_ok m p t \<longleftrightarrow> (\<forall>i < 512. let e = entry m t i in
     (length p \<le> 1 \<longrightarrow> \<not> huge e) \<and>
     (length p \<le> 2 \<longrightarrow> (huge e \<longrightarrow> present e) \<and>
        (present e \<and> \<not> huge e \<longrightarrow> page_base e = pte_addr e)))"

definition space_ok :: "'a vmm_scheme \<Rightarrow> u64 set \<Rightarrow> u64 \<Rightarrow> bool" where
  "space_ok s R as \<longleftrightarrow> region as 8 \<inter> bitmap_region s = {} \<and>
     (\<forall>n \<in> free_set s. region as 8 \<inter> frame_region n = {}) \<and>
     (\<forall>r \<in> R. \<forall>p t. table_at (mem s) r p t \<longrightarrow> region as 8 \<inter> region t 4096 = {})"

definition vm_inv :: "'a vmm_scheme \<Rightarrow> u64 set \<Rightarrow> bool" where
  "vm_inv s S \<longleftrightarrow> pmm_inv s \<and> unat (total_pages s) \<le> 2 ^ 40 \<and> unique_paths (mem s) (roots s S) \<and>
     (\<forall>r \<in> roots s S. \<forall>p t. table_at (mem s) r p t \<longrightarrow> kframe s t \<and> table_ok (mem s) p t) \<and>
     (\<forall>as \<in> S. space_ok s (roots s S) as)"

lemma kframe_aligned: "vm_inv s S \<Longrightarrow> kframe s t \<Longrightarrow> aligned t"
  by (auto simp: vm_inv_def pmm_inv_def kframe_def)

lemma vm_invD:
  assumes "vm_inv s S"
  shows "pmm_inv s" "unique_paths (mem s) (roots s S)"
    and "r \<in> roots s S \<Longrightarrow> table_at (mem s) r p t \<Longrightarrow> kframe s t"
    and "r \<in> roots s S \<Longrightarrow> table_at (mem s) r p t \<Longrightarrow> table_ok (mem s) p t"
    and "r \<in> roots s S \<Longrightarrow> table_at (mem s) r p t \<Longrightarrow> aligned t"
    and "as \<in> S \<Longrightarrow> space_ok s (roots s S) as"
  using assms kframe_aligned [OF assms] by (auto simp: vm_inv_def)

lemma kframe_disjoint:
  assumes "vm_inv s S" and "kframe s t"
  shows "region t 4096 \<inter> bitmap_region s = {}"
    and "n \<in> free_set s \<Longrightarrow> region t 4096 \<inter> frame_region n = {}"
proof -
  obtain k where k: "t = page_addr k" "k < unat (total_pages s)" "k \<notin> free_set s"
    "frame_region k \<inter> bitmap_region s = {}"
    using assms(2) by (auto simp: kframe_def)
  show "region t 4096 \<inter> bitmap_region s = {}" using k by (simp add: frame_region_def)
  assume n: "n \<in> free_set s"
  then have b: "k < 2 ^ 52" "n < 2 ^ 52" "n \<noteq> k"
    using k assms(1) by (auto simp: vm_inv_def pmm_inv_def free_set_def)
  then show "region t 4096 \<inter> frame_region n = {}"
    unfolding k(1) frame_region_def using page_addr_inj [of k n] by (intro aligned_disjoint) auto
qed

text \<open>The entry that \<^verbatim>\<open>get_or_create_table\<close> writes points to the new table.\<close>

lemma pte_addr_table:
  assumes "n < 2 ^ 40" and "\<And>k. bit flags k \<Longrightarrow> k < 3"
  shows "pte_addr (page_addr n OR flags OR 1) = page_addr n"
    and "page_base (page_addr n OR flags OR 1) = page_addr n"
    and "present (page_addr n OR flags OR 1)" and "\<not> huge (page_addr n OR flags OR 1)"
proof -
  note pb = page_addr_bits [OF assms(1)]
  have f: "\<not> bit flags k" if "12 \<le> k" for k using assms(2) [of k] that by auto
  show "pte_addr (page_addr n OR flags OR 1) = page_addr n"
    by (rule bit_word_eqI) (auto simp: bit_pte_addr bit_or_iff bit_1_iff f dest: pb)
  show "page_base (page_addr n OR flags OR 1) = page_addr n"
    by (rule bit_word_eqI) (auto simp: bit_page_base bit_or_iff bit_1_iff f dest: pb)
  show "present (page_addr n OR flags OR 1)" by (simp add: bit_simps)
  show "\<not> huge (page_addr n OR flags OR 1)"
    using assms(2) [of 7] pb [of 7] by (auto simp: bit_simps)
qed

section \<open>Steps that keep the invariant\<close>

definition fresh_table :: "'a vmm_scheme \<Rightarrow> u64 set \<Rightarrow> u64 \<Rightarrow> bool" where
  "fresh_table s S n \<longleftrightarrow> (\<forall>r \<in> roots s S. \<forall>p. \<not> table_at (mem s) r p n) \<and>
     (\<forall>as \<in> S. region as 8 \<inter> region n 4096 = {})"

lemma fresh_table_free:
  assumes inv: "vm_inv s S" and k: "k \<in> free_set s"
  shows "fresh_table s S (page_addr k)"
proof -
  have "\<not> table_at (mem s) r p (page_addr k)" if "r \<in> roots s S" for r p
  proof
    assume "table_at (mem s) r p (page_addr k)"
    then have "kframe s (page_addr k)" using vm_invD(3) [OF inv that] by blast
    then obtain j where j: "page_addr k = page_addr j" "j < unat (total_pages s)" "j \<notin> free_set s"
      by (auto simp: kframe_def)
    have "j < 2 ^ 52" "k < 2 ^ 52" using j(2) k inv by (auto simp: vm_inv_def pmm_inv_def free_set_def)
    then show False using j k page_addr_inj by auto
  qed
  then show ?thesis
    using vm_invD(6) [OF inv] k by (auto simp: fresh_table_def space_ok_def frame_region_def)
qed

lemma vm_inv_rebuild:
  assumes inv: "vm_inv s S" and mo: "mem_only s s'" and pi: "pmm_inv s'"
    and fs: "free_set s' \<subseteq> free_set s" and root: "\<And>as. as \<in> S \<Longrightarrow> pml4_of s' as = pml4_of s as"
    and tab: "\<And>r p t. r \<in> roots s S \<Longrightarrow> table_at (mem s') r p t \<Longrightarrow>
      table_at (mem s) r p t \<or> fresh_table s S n \<and> t = n \<and> p = p1"
    and ok: "\<And>r p t. r \<in> roots s S \<Longrightarrow> table_at (mem s') r p t \<Longrightarrow> kframe s' t \<and> table_ok (mem s') p t"
  shows "vm_inv s' S"
proof -
  have rs: "roots s' S = roots s S" using root by (auto simp: roots_def)
  have "unique_paths (mem s') (roots s S)"
    unfolding unique_paths_def
  proof (intro ballI allI impI)
    fix r r' p q t
    assume h: "r \<in> roots s S" "r' \<in> roots s S" "table_at (mem s') r p t" "table_at (mem s') r' q t"
    from tab [OF h(1,3)] tab [OF h(2,4)] show "p = q"
      using unique_pathsD [OF vm_invD(2) [OF inv] h(1,2)] h(1,2) unfolding fresh_table_def by blast
  qed
  moreover have "space_ok s' (roots s S) as" if "as \<in> S" for as
  proof -
    have so: "space_ok s (roots s S) as" using vm_invD(6) [OF inv that] .
    have "region as 8 \<inter> region t 4096 = {}" if "r \<in> roots s S" "table_at (mem s') r p t" for r p t
      using tab [OF that] so that(1) \<open>as \<in> S\<close> unfolding space_ok_def fresh_table_def by blast
    then show ?thesis
      using so fs mem_only_fields [OF mo] by (auto simp: space_ok_def)
  qed
  ultimately show ?thesis
    using inv pi ok mem_only_fields(3) [OF mo] unfolding vm_inv_def rs by auto
qed

definition user_entry :: "pmem \<Rightarrow> u64 \<Rightarrow> u64 \<Rightarrow> bool" where
  "user_entry m t i \<longleftrightarrow> present (entry m t i) \<and> user (entry m t i)"

definition vm_step :: "'a vmm_scheme \<Rightarrow> u64 set \<Rightarrow> 'a vmm_scheme \<Rightarrow> bool" where
  "vm_step s S s' \<longleftrightarrow> mem_only s s' \<and> vm_inv s' S \<and> free_set s' \<subseteq> free_set s \<and>
     (\<forall>as \<in> S. pml4_of s' as = pml4_of s as) \<and>
     (\<forall>r \<in> roots s S. (\<forall>p t. table_at (mem s) r p t \<longrightarrow> table_at (mem s') r p t \<and>
          (\<forall>j < 512. user_entry (mem s) t j \<longrightarrow> user_entry (mem s') t j)) \<and>
        (\<forall>v. translate (mem s') r v = translate (mem s) r v))"

lemma vm_step_roots: "vm_step s S s' \<Longrightarrow> roots s' S = roots s S"
  by (auto simp: vm_step_def roots_def)

lemma vm_step_refl: "vm_inv s S \<Longrightarrow> vm_step s S s"
  by (simp add: vm_step_def)

lemma vm_step_trans: "vm_step s S t \<Longrightarrow> vm_step t S u \<Longrightarrow> vm_step s S u"
  using vm_step_roots [of s S t] unfolding vm_step_def by (auto intro: mem_only_trans) blast

text \<open>Writing one slot of a table in use.\<close>

lemma set_entry_frame:
  assumes inv: "vm_inv s S" and t: "r \<in> roots s S" "table_at (mem s) r p t" and i: "i < 512"
  shows "mem_only s (set_entry t i v s)" "free_set (set_entry t i v s) = free_set s"
    "pmm_inv (set_entry t i v s)" "as \<in> S \<Longrightarrow> pml4_of (set_entry t i v s) as = pml4_of s as"
    "aligned t' \<Longrightarrow> j < 512 \<Longrightarrow>
      entry (mem (set_entry t i v s)) t' j = (if t' = t \<and> j = i then v else entry (mem s) t' j)"
    "kframe (set_entry t i v s) = kframe s"
proof -
  note al = vm_invD(5) [OF inv t]
  have sub: "region (t + 8 * i) 8 \<subseteq> region t 4096" using slot_subset [OF al i] .
  have out: "store64 (mem s) (t + 8 * i) v x = mem s x" if "x \<notin> region t 4096" for x
    using that sub by (subst store64_apply_out) auto
  have bm: "store64 (mem s) (t + 8 * i) v x = mem s x" if "x \<in> bitmap_region s" for x
    using that kframe_disjoint(1) [OF inv vm_invD(3) [OF inv t]] by (intro out) auto
  have geom: "bitmap_geom s" using vm_invD(1) [OF inv] by (rule pmm_inv_geom)
  show mo: "mem_only s (set_entry t i v s)" by (simp add: set_entry_def)
  show fs: "free_set (set_entry t i v s) = free_set s"
    unfolding set_entry_def by (rule pmm_mem_update(1) [OF geom bm])
  show "pmm_inv (set_entry t i v s)"
    unfolding set_entry_def using vm_invD(1) [OF inv] pmm_mem_update(2) [OF geom bm] by simp
  show "pml4_of (set_entry t i v s) as = pml4_of s as" if "as \<in> S"
  proof -
    have "region as 8 \<inter> region t 4096 = {}"
      using vm_invD(6) [OF inv that] t unfolding space_ok_def by blast
    then have "store64 (mem s) (t + 8 * i) v x = mem s x" if "x \<in> region as 8" for x
      using that by (intro out) blast
    then show ?thesis unfolding pml4_of_def set_entry_def by (simp cong: load64_cong)
  qed
  show "entry (mem (set_entry t i v s)) t' j = (if t' = t \<and> j = i then v else entry (mem s) t' j)"
    if "aligned t'" "j < 512"
    using entry_store [OF al that(1) i that(2)] by (simp add: set_entry_def)
  show "kframe (set_entry t i v s) = kframe s"
    using mem_only_fields [OF mo] fs by (simp add: kframe_def fun_eq_iff)
qed

text \<open>Making an entry user-visible keeps every walk and every translation.\<close>

lemma user_bit:
  "pte_addr (e OR 4) = pte_addr e" "page_base (e OR 4) = page_base e"
  "present (e OR 4) = present e" "huge (e OR 4) = huge e" "user (e OR 4)" for e :: u64
proof -
  have b: "bit (4 :: u64) k \<longleftrightarrow> k = 2" for k
    using bit_exp_iff [where ?'a = "64 word", of 2 k] by auto
  show "pte_addr (e OR 4) = pte_addr e" "page_base (e OR 4) = page_base e"
    by (rule bit_word_eqI; auto simp only: bit_pte_addr bit_page_base bit_or_iff b; simp)+
  show "present (e OR 4) = present e" "huge (e OR 4) = huge e" "user (e OR 4)"
    by (simp_all only: bit_or_iff b) simp_all
qed

lemma upgrade_step:
  assumes inv: "vm_inv s S" and t: "r0 \<in> roots s S" "table_at (mem s) r0 p0 t0"
    and i: "length p0 \<le> 2" "i0 < 512"
    and e: "present (entry (mem s) t0 i0)" "\<not> huge (entry (mem s) t0 i0)"
  shows "vm_step s S (set_entry t0 i0 (entry (mem s) t0 i0 OR 4) s)"
proof -
  define s' where "s' = set_entry t0 i0 (entry (mem s) t0 i0 OR 4) s"
  note fr = set_entry_frame [OF inv t i(2), where v = "entry (mem s) t0 i0 OR 4", folded s'_def]
  have st: "walk_step (mem s') t j = walk_step (mem s) t j" if "r \<in> roots s S" "table_at (mem s) r p t" "j < 512" for r p t j
    using fr(5) [OF vm_invD(5) [OF inv that(1,2)] that(3)] by (simp add: walk_step_def user_bit Let_def)
  have tab: "table_at (mem s') r p t \<longleftrightarrow> table_at (mem s) r p t" if "r \<in> roots s S" for r p t
    using st that by (intro table_at_cong) blast
  have ok: "table_ok (mem s') p t" if "r \<in> roots s S" "table_at (mem s) r p t" for r p t
  proof -
    have "table_ok (mem s) p t" using vm_invD(4) [OF inv that] .
    then show ?thesis
      using fr(5) [OF vm_invD(5) [OF inv that]] by (auto simp: table_ok_def Let_def user_bit)
  qed
  have inv': "vm_inv s' S"
  proof (rule vm_inv_rebuild [OF inv fr(1,3)])
    show "kframe s' t \<and> table_ok (mem s') p t" if "r \<in> roots s S" "table_at (mem s') r p t" for r p t
      using that tab ok vm_invD(3) [OF inv] fr(6) by auto
  qed (use fr tab in auto)
  have lf: "entry (mem s') t j = entry (mem s) t j" if "r \<in> roots s S" "table_at (mem s) r p t" "j < 512" "(t, j) \<noteq> (t0, i0)" for r p t j
    using fr(5) [OF vm_invD(5) [OF inv that(1,2)] that(3)] that(4) by auto
  have "translate (mem s') r v = translate (mem s) r v" if "r \<in> roots s S" for r v
  proof (rule translate_cong)
    have np: "p \<noteq> table_path v" if "table_at (mem s) r p t0" for p
      using unique_pathsD [OF vm_invD(2) [OF inv] \<open>r \<in> roots s S\<close> t(1) that t(2)] i(1) by auto
    show "leaf_4k (mem s') t v = leaf_4k (mem s) t v" if "table_at (mem s) r (table_path v) t" for t
      using np lf [OF \<open>r \<in> roots s S\<close> that, of "pt_i v"] that by (intro leaf_cong) auto
    show "leaf_2m (mem s') t v = leaf_2m (mem s) t v" if "table_at (mem s) r [pml4_i v, pdpt_i v] t" for t
      using fr(5) [OF vm_invD(5) [OF inv \<open>r \<in> roots s S\<close> that], of "pd_i v"] e
      by (auto simp: leaf_2m_def Let_def user_bit)
    show "leaf_1g (mem s') t v = leaf_1g (mem s) t v" if "table_at (mem s) r [pml4_i v] t" for t
      using fr(5) [OF vm_invD(5) [OF inv \<open>r \<in> roots s S\<close> that], of "pdpt_i v"] e
      by (auto simp: leaf_1g_def Let_def user_bit)
  qed (use tab that in blast)
  moreover have "user_entry (mem s') t j"
    if "r \<in> roots s S" "table_at (mem s) r p t" "j < 512" "user_entry (mem s) t j" for r p t j
    using fr(5) [OF vm_invD(5) [OF inv that(1,2)] that(3)] that(4) by (auto simp: user_entry_def user_bit)
  ultimately show ?thesis
    using inv' fr tab by (auto simp: vm_step_def s'_def [symmetric])
qed

text \<open>Taking a frame for a new table, and hanging it into an empty slot.\<close>

lemma alloc_step:
  assumes inv: "vm_inv s S" and pi: "pmm_inv s'" and mo: "mem_only s s'" and n: "n \<in> free_set s"
    and fs: "free_set s' = free_set s - {n}"
    and out: "\<And>x. x \<notin> bitmap_region s \<Longrightarrow> x \<notin> frame_region n \<Longrightarrow> mem s' x = mem s x"
  shows "vm_step s S s'" and "fresh_table s' S (page_addr n)"
    and "r \<in> roots s S \<Longrightarrow> table_at (mem s') r p t = table_at (mem s) r p t"
proof -
  have en: "entry (mem s') t j = entry (mem s) t j" if "r \<in> roots s S" "table_at (mem s) r p t" "j < 512" for r p t j
    using kframe_disjoint [OF inv vm_invD(3) [OF inv that(1,2)]] n
    by (intro entry_cong vm_invD(5) [OF inv that(1,2)] that(3) out) blast+
  show tab: "table_at (mem s') r p t = table_at (mem s) r p t" if "r \<in> roots s S" for r p t
    by (rule table_at_cong) (simp add: walk_step_def en [OF that])
  have ok: "table_ok (mem s') p t" if "r \<in> roots s S" "table_at (mem s) r p t" for r p t
    using vm_invD(4) [OF inv that] en [OF that] by (simp add: table_ok_def)
  have kf: "kframe s' t" if "r \<in> roots s S" "table_at (mem s) r p t" for r p t
    using vm_invD(3) [OF inv that] fs mem_only_fields [OF mo] by (auto simp: kframe_def)
  have rt: "pml4_of s' as = pml4_of s as" if "as \<in> S" for as
    using vm_invD(6) [OF inv that] n unfolding pml4_of_def space_ok_def
    by (intro load64_cong out) blast+
  have "vm_inv s' S"
    by (rule vm_inv_rebuild [OF inv mo pi]) (use fs tab ok kf rt in auto)
  moreover have "translate (mem s') r v = translate (mem s) r v" if "r \<in> roots s S" for r v
    by (rule translate_cong) (auto intro!: leaf_cong en [OF that] simp: tab [OF that])
  ultimately show "vm_step s S s'"
    using fs tab rt mo en by (auto simp: vm_step_def user_entry_def)
  then show "fresh_table s' S (page_addr n)"
    using fresh_table_free [OF inv n] tab vm_step_roots [of s S s'] by (auto simp: fresh_table_def)
qed

lemma link_step:
  assumes inv: "vm_inv s S" and t: "r0 \<in> roots s S" "table_at (mem s) r0 p0 t0"
    and i: "length p0 \<le> 2" "i0 < 512" and absent: "\<not> present (entry (mem s) t0 i0)"
    and n: "kframe s n" "fresh_table s S n" and zero: "\<And>j. j < 512 \<Longrightarrow> entry (mem s) n j = 0"
    and e: "pte_addr e = n" "page_base e = n" "present e" "\<not> huge e"
  shows "vm_step s S (set_entry t0 i0 e s)"
    and "table_at (mem (set_entry t0 i0 e s)) r0 (p0 @ [i0]) n"
proof -
  define s' where "s' = set_entry t0 i0 e s"
  note fr = set_entry_frame [OF inv t i(2), where v = e, folded s'_def]
  have nt0: "n \<noteq> t0" using n(2) t by (auto simp: fresh_table_def)
  have zero': "entry (mem s') n j = 0" if "j < 512" for j
    using fr(5) [OF kframe_aligned [OF inv n(1)] that] zero [OF that] nt0 by simp
  have same: "entry (mem s') t j = entry (mem s) t j"
    if "r \<in> roots s S" "table_at (mem s) r p t" "j < 512" "(t, j) \<noteq> (t0, i0)" for r p t j
    using fr(5) [OF vm_invD(5) [OF inv that(1,2)] that(3)] that(4) by auto
  have new: "entry (mem s') t0 i0 = e" using fr(5) [OF vm_invD(5) [OF inv t] i(2)] by simp
  then have ws: "walk_step (mem s') t0 i0 = Some n" using e by (simp add: walk_step_def)
  have z: "\<And>j. j < 512 \<Longrightarrow> \<not> present (entry (mem s') n j)" using zero' by simp
  have tab: "table_at (mem s') r q t \<longleftrightarrow>
      table_at (mem s) r q t \<or> q = p0 @ [i0] \<and> table_at (mem s) r p0 t0 \<and> t = n"
    if "r \<in> roots s S" for r q t
    by (rule table_at_new [OF vm_invD(2) [OF inv] t i _ absent ws _ that], erule (3) same, erule z)
  have ok: "kframe s' t \<and> table_ok (mem s') p t" if "r \<in> roots s S" "table_at (mem s') r p t" for r p t
  proof (cases "table_at (mem s) r p t")
    case True
    have "table_ok (mem s) p t" "aligned t" using vm_invD(4,5) [OF inv that(1) True] by auto
    then show ?thesis
      using fr(5,6) vm_invD(3) [OF inv that(1) True] e by (auto simp: table_ok_def Let_def)
  next
    case False
    then have "t = n" using tab [OF that(1)] that(2) by blast
    then show ?thesis using zero' n(1) fr(6) by (simp add: table_ok_def)
  qed
  have "vm_inv s' S"
    by (rule vm_inv_rebuild [OF inv fr(1,3), where n = n and ?p1.0 = "p0 @ [i0]"])
      (use fr(2,4) tab ok n(2) in auto)
  moreover have "translate (mem s') r v = translate (mem s) r v" if "r \<in> roots s S" for r v
    by (rule translate_new [OF vm_invD(2) [OF inv] t i _ absent ws _ that], erule (3) same, erule z)
  moreover have "user_entry (mem s') t j"
    if "r \<in> roots s S" "table_at (mem s) r p t" "j < 512" "user_entry (mem s) t j" for r p t j
  proof -
    have "(t, j) \<noteq> (t0, i0)" using that(4) absent by (auto simp: user_entry_def)
    then show ?thesis using same [OF that(1-3)] that(4) by (simp add: user_entry_def)
  qed
  ultimately show "vm_step s S (set_entry t0 i0 e s)"
    using fr tab unfolding vm_step_def s'_def [symmetric] by auto
  show "table_at (mem (set_entry t0 i0 e s)) r0 (p0 @ [i0]) n"
    using tab [OF t(1)] t(2) by (simp add: s'_def)
qed

lemma get_or_create_table_cases:
  assumes inv: "vm_inv s S" and t: "r0 \<in> roots s S" "table_at (mem s) r0 p0 t0"
    and i: "length p0 \<le> 2" "i0 < 512" and nh: "\<not> huge (entry (mem s) t0 i0)"
    and fl: "\<forall>k. bit flags k \<longrightarrow> k < 3"
  obtains (none) "free_set s = {}" "\<not> present (entry (mem s) t0 i0)"
      "get_or_create_table t0 i0 flags s = Panic ''VMM: out of memory allocating page table'' s"
  | (some) t' s' where "get_or_create_table t0 i0 flags s = Ok t' s'" "vm_step s S s'"
      "table_at (mem s') r0 (p0 @ [i0]) t'" "card (free_set s) \<le> card (free_set s') + 1"
      "user flags \<Longrightarrow> user_entry (mem s') t0 i0"
proof (cases "present (entry (mem s) t0 i0)")
  case True
  define e where "e = entry (mem s) t0 i0"
  define s' where "s' = (if user flags then set_entry t0 i0 (e OR 4) s else s)"
  have st: "vm_step s S s'"
    using upgrade_step [OF inv t i] True nh vm_step_refl [OF inv] by (auto simp: s'_def e_def)
  have en: "entry (mem s') t0 i0 = (if user flags then e OR 4 else e)"
    using set_entry_frame(5) [OF inv t i(2) vm_invD(5) [OF inv t] i(2)] by (simp add: s'_def e_def)
  have pa: "pte_addr (entry (mem s') t0 i0) = pte_addr e" by (simp add: en user_bit)
  have "table_at (mem s') r0 p0 t0" using st t by (auto simp: vm_step_def)
  then have "table_at (mem s') r0 (p0 @ [i0]) (pte_addr e)"
    using i True nh unfolding table_at_snoc
    by (auto intro!: exI [of _ t0] simp: walk_step_def en e_def [symmetric] user_bit Let_def split: if_splits)
  moreover have "get_or_create_table t0 i0 flags s = Ok (pte_addr e) s'"
    using True pa unfolding get_or_create_table_def Let_def
    by (auto simp: s'_def e_def [symmetric] split: if_splits)
  moreover have "card (free_set s) \<le> card (free_set s') + 1"
    using set_entry_frame(2) [OF inv t i(2)] by (simp add: s'_def)
  ultimately show ?thesis
    using st True by (intro some) (auto simp: user_entry_def en user_bit e_def)
next
  case False
  show ?thesis
  proof (cases rule: alloc_page_table_cases [OF vm_invD(1) [OF inv]])
    case 1
    then show ?thesis using False none by (simp add: get_or_create_table_def)
  next
    case (2 n s1)
    have a: "vm_step s S s1" "fresh_table s1 S (page_addr n)"
      using alloc_step [OF inv 2(4,5,2,3,8)] by auto
    have inv1: "vm_inv s1 S" and t1: "r0 \<in> roots s1 S" "table_at (mem s1) r0 p0 t0"
      using a t vm_step_roots [OF a(1)] by (auto simp: vm_step_def)
    have "t0 \<noteq> page_addr n" using a(2) t1 by (auto simp: fresh_table_def)
    have "entry (mem s1) t0 i0 = entry (mem s) t0 i0"
      using kframe_disjoint [OF inv vm_invD(3) [OF inv t]] 2(2)
      by (intro entry_cong vm_invD(5) [OF inv t] i(2) 2(8)) blast+
    then have ab: "\<not> present (entry (mem s1) t0 i0)" using False by simp
    have n40: "n < 2 ^ 40" using 2(2) inv by (auto simp: vm_inv_def free_set_def)
    let ?e = "page_addr n OR flags OR 1"
    note l = link_step [OF inv1 t1 i ab 2(6) a(2) 2(7) pte_addr_table [OF n40 fl [rule_format]]]
    have fs: "free_set (set_entry t0 i0 ?e s1) = free_set s1"
      using set_entry_frame(2) [OF inv1 t1 i(2)] .
    have en: "entry (mem (set_entry t0 i0 ?e s1)) t0 i0 = ?e"
      using set_entry_frame(5) [OF inv1 t1 i(2) vm_invD(5) [OF inv1 t1] i(2)] by simp
    show ?thesis
    proof (rule some)
      show "get_or_create_table t0 i0 flags s = Ok (page_addr n) (set_entry t0 i0 ?e s1)"
        using False 2(1) by (simp add: get_or_create_table_def)
      show "vm_step s S (set_entry t0 i0 ?e s1)" using vm_step_trans [OF a(1) l(1)] .
      show "card (free_set s) \<le> card (free_set (set_entry t0 i0 ?e s1)) + 1"
        using fs 2(2,3) by simp
      show "user_entry (mem (set_entry t0 i0 ?e s1)) t0 i0" if "user flags"
        using that by (simp add: user_entry_def en bit_or_iff)
    qed (use l(2) in auto)
  qed
qed

section \<open>Mapping a page\<close>

lemma translate_leaf: "table_at m r (table_path v) t \<Longrightarrow> translate m r v = leaf_4k m t v"
  by (simp add: translate_tables table_at_def)

lemma translate_huge:
  assumes "table_at m r [pml4_i v, pdpt_i v] t" and "present (entry m t (pd_i v))" "huge (entry m t (pd_i v))"
  shows "translate m r v \<noteq> None"
proof -
  have w: "walk m r [pml4_i v, pdpt_i v] = Some t" using assms(1) by (simp add: table_at_def)
  have "walk m r (table_path v) = None"
    using assms(2,3) walk_snoc [of m r "[pml4_i v, pdpt_i v]" "pd_i v"] w
    by (simp add: table_path_def walk_step_def Let_def del: walk.simps)
  then show ?thesis using w assms(2,3) by (simp add: translate_tables leaf_2m_def Let_def del: walk.simps)
qed

definition table_flags :: "u64 \<Rightarrow> u64" where
  "table_flags flags = VMM_FLAG_PRESENT OR VMM_FLAG_WRITE OR
     (if flags AND VMM_FLAG_USER \<noteq> 0 then VMM_FLAG_USER else 0)"

lemma table_flags_bits: "bit (table_flags flags) k \<Longrightarrow> k < 3" "user (table_flags flags) = user flags"
proof -
  have "table_flags flags = 3 \<or> table_flags flags = 7" by (auto simp: table_flags_def)
  moreover have m: "(3 :: u64) = mask 2" "(7 :: u64) = mask 3" by (simp_all add: mask_eq_exp_minus_1)
  ultimately have "table_flags flags = mask 2 \<or> table_flags flags = mask 3" by (simp only: m)
  then show "bit (table_flags flags) k \<Longrightarrow> k < 3" by (auto simp only: bit_mask_iff)
  have "bit (7 :: u64) 2" "\<not> bit (3 :: u64) 2" by simp_all
  then show "user (table_flags flags) = user flags" by (auto simp: table_flags_def)
qed

definition user_path :: "pmem \<Rightarrow> u64 \<Rightarrow> u64 \<Rightarrow> bool" where
  "user_path m r v \<longleftrightarrow> (\<exists>pdpt pd. table_at m r [pml4_i v] pdpt \<and> table_at m r [pml4_i v, pdpt_i v] pd \<and>
     user_entry m r (pml4_i v) \<and> user_entry m pdpt (pdpt_i v) \<and> user_entry m pd (pd_i v))"

lemma vm_step_user:
  "vm_step s S s' \<Longrightarrow> r \<in> roots s S \<Longrightarrow> table_at (mem s) r p t \<Longrightarrow> j < 512 \<Longrightarrow>
   user_entry (mem s) t j \<Longrightarrow> user_entry (mem s') t j"
  by (auto simp: vm_step_def)

lemma vm_step_table:
  "vm_step s S s' \<Longrightarrow> r \<in> roots s S \<Longrightarrow> table_at (mem s) r p t \<Longrightarrow> table_at (mem s') r p t"
  by (auto simp: vm_step_def)

lemma vm_step_translate:
  "vm_step s S s' \<Longrightarrow> r \<in> roots s S \<Longrightarrow> translate (mem s') r v = translate (mem s) r v"
  by (auto simp: vm_step_def)

lemma upper_not_huge:
  "vm_inv s S \<Longrightarrow> r \<in> roots s S \<Longrightarrow> table_at (mem s) r p t \<Longrightarrow> length p \<le> 1 \<Longrightarrow> i < 512 \<Longrightarrow>
   \<not> huge (entry (mem s) t i)"
  using vm_invD(4) [of s S r p t] by (simp add: table_ok_def Let_def)

lemma user_path_steps:
  assumes st: "vm_step s1 S s2" "vm_step s2 S s3" and r: "r \<in> roots s1 S"
    and t1: "table_at (mem s1) r [pml4_i v] pdpt" and t2: "table_at (mem s2) r [pml4_i v, pdpt_i v] pd"
    and u: "user_entry (mem s1) r (pml4_i v)" "user_entry (mem s2) pdpt (pdpt_i v)"
      "user_entry (mem s3) pd (pd_i v)"
  shows "user_path (mem s3) r v"
proof -
  have r2: "r \<in> roots s2 S" using r vm_step_roots [OF st(1)] by simp
  have "user_entry (mem s2) r (pml4_i v)" using vm_step_user [OF st(1) r, of "[]"] u(1) by simp
  then have "user_entry (mem s3) r (pml4_i v)" using vm_step_user [OF st(2) r2, of "[]"] by simp
  moreover note t1' = vm_step_table [OF st(1) r t1]
  have "user_entry (mem s3) pdpt (pdpt_i v)" using vm_step_user [OF st(2) r2 t1'] u(2) by simp
  ultimately show ?thesis
    unfolding user_path_def using vm_step_table [OF st(2) r2] t1' t2 u(3) by blast
qed

text \<open>The second half of \<^verbatim>\<open>vmm_map\<close>, from the page directory on.\<close>

definition map_in_pd ::
  "u64 \<Rightarrow> u64 \<Rightarrow> u64 \<Rightarrow> u64 \<Rightarrow> 'a vmm_scheme \<Rightarrow> (unit, 'a vmm_scheme) outcome" where
  "map_in_pd virt phys flags pd s =
     kbind (kassert (\<not> huge (entry (mem s) pd (pd_i virt)))
       ''vmm_map: cannot map through a huge page'' s) (\<lambda>_ s.
     kbind (get_or_create_table pd (pd_i virt) (table_flags flags) s) (\<lambda>pt s.
     kbind (kassert (\<not> present (entry (mem s) pt (pt_i virt)))
       ''vmm_map: virtual page is already mapped'' s) (\<lambda>_ s.
     Ok () (set_entry pt (pt_i virt) (page_base phys OR flags OR VMM_FLAG_PRESENT) s))))"

lemma vmm_map_eq:
  assumes "as \<noteq> 0" and "virt AND 0xFFF = 0" and "phys AND 0xFFF = 0"
  shows "vmm_map as virt phys flags s =
     kbind (get_or_create_table (pml4_of s as) (pml4_i virt) (table_flags flags) s) (\<lambda>pdpt s.
     kbind (get_or_create_table pdpt (pdpt_i virt) (table_flags flags) s) (map_in_pd virt phys flags))"
  using assms by (simp add: vmm_map_def table_flags_def map_in_pd_def [abs_def] Let_def)

lemma map_in_pd_cases:
  assumes inv: "vm_inv s S" and r: "r \<in> roots s S"
    and t: "table_at (mem s) r [pml4_i virt, pdpt_i virt] pd"
  obtains (mapped) msg s' where "translate (mem s) r virt \<noteq> None" "vm_step s S s'"
      "map_in_pd virt phys flags pd s = Panic msg s'"
  | (oom) "free_set s = {}"
      "map_in_pd virt phys flags pd s = Panic ''VMM: out of memory allocating page table'' s"
  | (ok) pt s' where "translate (mem s) r virt = None" "vm_step s S s'"
      "table_at (mem s') r (table_path virt) pt" "\<not> present (entry (mem s') pt (pt_i virt))"
      "user flags \<Longrightarrow> user_entry (mem s') pd (pd_i virt)" "card (free_set s) \<le> card (free_set s') + 1"
      "map_in_pd virt phys flags pd s =
        Ok () (set_entry pt (pt_i virt) (page_base phys OR flags OR VMM_FLAG_PRESENT) s')"
proof (cases "huge (entry (mem s) pd (pd_i virt))")
  case True
  then have "present (entry (mem s) pd (pd_i virt))"
    using vm_invD(4) [OF inv r t] by (simp add: table_ok_def Let_def)
  then have "translate (mem s) r virt \<noteq> None" using translate_huge [OF t _ True] by simp
  then show ?thesis using mapped [OF _ vm_step_refl [OF inv]] True by (simp add: map_in_pd_def)
next
  case False
  have l2: "length [pml4_i virt, pdpt_i virt] \<le> 2" by simp
  have fl: "\<forall>k. bit (table_flags flags) k \<longrightarrow> k < 3" using table_flags_bits(1) by blast
  show ?thesis
  proof (cases rule: get_or_create_table_cases [OF inv r t l2 index_less(3) False fl])
    case 1
    then show ?thesis using oom False by (simp add: map_in_pd_def)
  next
    case (2 pt s')
    have t3: "table_at (mem s') r (table_path virt) pt" using 2(3) by (simp add: table_path_def)
    have tr: "translate (mem s) r virt = leaf_4k (mem s') pt virt"
      using translate_leaf [OF t3] vm_step_translate [OF 2(2) r] by simp
    show ?thesis
      using mapped [OF _ 2(2)] ok [OF _ 2(2) t3] 2(4,5) False 2(1) tr
      by (cases "present (entry (mem s') pt (pt_i virt))")
        (auto simp: map_in_pd_def leaf_4k_def Let_def table_flags_bits(2))
  qed
qed

lemma vmm_map_cases:
  assumes inv: "vm_inv s S" and as: "as \<in> S" "as \<noteq> 0"
    and al: "virt AND 0xFFF = 0" "phys AND 0xFFF = 0"
  obtains (mapped) msg s' where "translate (mem s) (pml4_of s as) virt \<noteq> None" "vm_step s S s'"
      "vmm_map as virt phys flags s = Panic msg s'"
  | (oom) s' where "card (free_set s) < 3" "vm_step s S s'"
      "vmm_map as virt phys flags s = Panic ''VMM: out of memory allocating page table'' s'"
  | (ok) pt s' where "translate (mem s) (pml4_of s as) virt = None" "vm_step s S s'"
      "table_at (mem s') (pml4_of s as) (table_path virt) pt"
      "\<not> present (entry (mem s') pt (pt_i virt))"
      "user flags \<Longrightarrow> user_path (mem s') (pml4_of s as) virt"
      "card (free_set s) \<le> card (free_set s') + 3"
      "vmm_map as virt phys flags s =
        Ok () (set_entry pt (pt_i virt) (page_base phys OR flags OR VMM_FLAG_PRESENT) s')"
proof -
  let ?r = "pml4_of s as"
  have r: "?r \<in> roots s S" using as(1) by (simp add: roots_def)
  note map = vmm_map_eq [OF as(2) al, of flags s]
  have fl: "\<forall>k. bit (table_flags flags) k \<longrightarrow> k < 3" using table_flags_bits(1) by blast
  have t0: "table_at (mem s) ?r [] ?r" by simp
  have l0: "length [] \<le> (2 :: nat)" and l1: "length [pml4_i virt] \<le> 2" by simp_all
  have h0: "\<not> huge (entry (mem s) ?r (pml4_i virt))" using upper_not_huge [OF inv r t0] by simp
  show thesis
  proof (cases rule: get_or_create_table_cases [OF inv r t0 l0 index_less(1) h0 fl])
    case 1
    then show ?thesis using oom [of s] vm_step_refl [OF inv] by (simp add: map)
  next
    case g1: (2 pdpt s1)
    have inv1: "vm_inv s1 S" and r1: "?r \<in> roots s1 S" and t1: "table_at (mem s1) ?r [pml4_i virt] pdpt"
      using g1(2,3) r vm_step_roots [OF g1(2)] by (auto simp: vm_step_def)
    have h1: "\<not> huge (entry (mem s1) pdpt (pdpt_i virt))" using upper_not_huge [OF inv1 r1 t1] by simp
    show ?thesis
    proof (cases rule: get_or_create_table_cases [OF inv1 r1 t1 l1 index_less(2) h1 fl])
      case 1
      then show ?thesis using oom [of s1] g1 by (simp add: map)
    next
      case g2: (2 pd s2)
      have st2: "vm_step s S s2" using vm_step_trans [OF g1(2) g2(2)] .
      have inv2: "vm_inv s2 S" and r2: "?r \<in> roots s2 S"
        and t2: "table_at (mem s2) ?r [pml4_i virt, pdpt_i virt] pd"
        using g2(3) st2 r vm_step_roots [OF st2] by (auto simp: vm_step_def)
      note tr = vm_step_translate [OF st2 r, of virt]
      have m: "vmm_map as virt phys flags s = map_in_pd virt phys flags pd s2"
        using g1(1) g2(1) by (simp add: map)
      show ?thesis
      proof (cases rule: map_in_pd_cases [OF inv2 r2 t2, of phys flags])
        case (1 msg s')
        then show ?thesis using mapped [OF _ vm_step_trans [OF st2 1(2)]] m tr by simp
      next
        case 2
        then show ?thesis using oom [OF _ st2] g1(4) g2(4) m by simp
      next
        case g3: (3 pt s3)
        have "user_path (mem s3) ?r virt" if "user flags"
          using user_path_steps [OF g2(2) g3(2) r1 t1 t2] g1(5) g2(5) g3(5) that
          by (simp add: table_flags_bits(2))
        then show ?thesis using ok [OF _ vm_step_trans [OF st2 g3(2)] g3(3,4)] g3(1,6,7) g1(4) g2(4) m tr by simp
      qed
    qed
  qed
qed

text \<open>Writing a leaf entry.\<close>

lemma leaf_step:
  assumes inv: "vm_inv s S" and t: "r0 \<in> roots s S" "table_at (mem s) r0 p0 t0"
    and p0: "length p0 = 3" and i0: "i0 < 512"
  shows "vm_inv (set_entry t0 i0 e s) S"
    and "as \<in> S \<Longrightarrow> pml4_of (set_entry t0 i0 e s) as = pml4_of s as"
    and "free_set (set_entry t0 i0 e s) = free_set s"
    and "r \<in> roots s S \<Longrightarrow> table_at (mem (set_entry t0 i0 e s)) r q t = table_at (mem s) r q t"
    and "r \<in> roots s S \<Longrightarrow> translate (mem (set_entry t0 i0 e s)) r v =
      (if table_at (mem s) r (table_path v) t0 \<and> pt_i v = i0
       then if present e then Some (pte_addr e OR (v AND 0xFFF)) else None
       else translate (mem s) r v)"
proof -
  define s' where "s' = set_entry t0 i0 e s"
  note fr = set_entry_frame [OF inv t i0, where v = e, folded s'_def]
  have same: "entry (mem s') t j = entry (mem s) t j"
    if "r \<in> roots s S" "table_at (mem s) r p t" "j < 512" "(t, j) \<noteq> (t0, i0)" for r p t j
    using fr(5) [OF vm_invD(5) [OF inv that(1,2)] that(3)] that(4) by auto
  have new: "entry (mem s') t0 i0 = e" using fr(5) [OF vm_invD(5) [OF inv t] i0] by simp
  have tab: "table_at (mem s') r q t \<longleftrightarrow> table_at (mem s) r q t" if "r \<in> roots s S" for r q t
    by (rule leaf_store(1) [OF vm_invD(2) [OF inv] t p0 _ that], erule (3) same)
  then show "r \<in> roots s S \<Longrightarrow> table_at (mem (set_entry t0 i0 e s)) r q t = table_at (mem s) r q t"
    by (simp add: s'_def)
  have ok: "table_ok (mem s') p t" if "r \<in> roots s S" "table_at (mem s) r p t" for r p t
  proof (cases "t = t0")
    case True
    then have "length p = 3" using unique_pathsD [OF vm_invD(2) [OF inv] that(1) t(1)] that(2) t(2) p0 by blast
    then show ?thesis by (simp add: table_ok_def)
  next
    case False
    then show ?thesis using vm_invD(4) [OF inv that] same [OF that] by (simp add: table_ok_def)
  qed
  show "vm_inv (set_entry t0 i0 e s) S"
    unfolding s'_def [symmetric]
    by (rule vm_inv_rebuild [OF inv fr(1,3)]) (use fr(2,4,6) tab ok vm_invD(3) [OF inv] in auto)
  show "as \<in> S \<Longrightarrow> pml4_of (set_entry t0 i0 e s) as = pml4_of s as"
    "free_set (set_entry t0 i0 e s) = free_set s"
    using fr(2,4) by (simp_all add: s'_def)
  show "translate (mem (set_entry t0 i0 e s)) r v =
      (if table_at (mem s) r (table_path v) t0 \<and> pt_i v = i0
       then if present e then Some (pte_addr e OR (v AND 0xFFF)) else None
       else translate (mem s) r v)" if "r \<in> roots s S"
  proof -
    have "translate (mem s') r v = (if table_at (mem s) r (table_path v) t0 \<and> pt_i v = i0
      then leaf_4k (mem s') t0 v else translate (mem s) r v)"
      by (rule leaf_store(2) [OF vm_invD(2) [OF inv] t p0 _ that], erule (3) same)
    then show ?thesis unfolding s'_def [symmetric] using new by (auto simp: leaf_4k_def Let_def)
  qed
qed

lemma leaf_step_user:
  assumes inv: "vm_inv s S" and t: "r0 \<in> roots s S" "table_at (mem s) r0 p0 t0"
    and p0: "length p0 = 3" and i0: "i0 < 512" and r: "r \<in> roots s S"
    and u: "user_path (mem s) r v"
  shows "user_path (mem (set_entry t0 i0 e s)) r v"
proof -
  have ue: "user_entry (mem (set_entry t0 i0 e s)) t j"
    if "user_entry (mem s) t j" "table_at (mem s) r p t" "length p \<le> 2" "j < 512" for p t j
  proof -
    have "t \<noteq> t0" using unique_pathsD [OF vm_invD(2) [OF inv] r t(1) that(2)] t(2) p0 that(3) by fastforce
    then show ?thesis
      using set_entry_frame(5) [OF inv t i0 vm_invD(5) [OF inv r that(2)] that(4)] that(1)
      by (simp add: user_entry_def)
  qed
  obtain pdpt pd where p: "table_at (mem s) r [pml4_i v] pdpt"
    "table_at (mem s) r [pml4_i v, pdpt_i v] pd" "user_entry (mem s) r (pml4_i v)"
    "user_entry (mem s) pdpt (pdpt_i v)" "user_entry (mem s) pd (pd_i v)"
    using u by (auto simp: user_path_def)
  show ?thesis unfolding user_path_def
    using p leaf_step(4) [OF inv t p0 i0 r] ue [OF p(3), of "[]"] ue [OF p(4) p(1)] ue [OF p(5) p(2)]
    by (intro exI [of _ pdpt] exI [of _ pd]) simp
qed

text \<open>Two addresses of the same 4 KiB page.\<close>

definition same_page :: "u64 \<Rightarrow> u64 \<Rightarrow> bool" where
  "same_page v w \<longleftrightarrow> table_path v = table_path w \<and> pt_i v = pt_i w"

lemma pte_addr_leaf:
  assumes "phys AND 0xFFF = 0" and "phys < 2 ^ 52" and "flags AND 0x000FFFFFFFFFF000 = 0"
  shows "pte_addr (page_base phys OR flags OR 1) = phys"
proof (rule bit_word_eqI)
  fix k assume "k < LENGTH(64)"
  have hi: "k < 52" if "bit phys k"
  proof -
    have "unat phys < 2 ^ 52" using assms(2) by (simp add: word_less_nat_alt)
    then have "take_bit 52 phys = phys"
      by (simp only: word_unat_eq_iff unsigned_take_bit_eq take_bit_nat_eq_self)
    then show ?thesis using that by (metis bit_take_bit_iff)
  qed
  have lo: "12 \<le> k" if "bit phys k"
    using assms(1) bit_page_offset [of phys k] that by (cases "k < 12") auto
  have fl: "\<not> bit flags k" if "12 \<le> k" "k < 52"
    using assms(3) bit_pte_addr [of flags k] that by (simp add: pte_addr_def)
  show "bit (pte_addr (page_base phys OR flags OR 1)) k \<longleftrightarrow> bit phys k"
    using hi lo fl by (auto simp: bit_pte_addr bit_or_iff bit_page_base bit_1_iff)
qed

lemma vmm_map_ok:
  assumes inv: "vm_inv s S" and as: "as \<in> S" "as \<noteq> 0"
    and al: "virt AND 0xFFF = 0" "phys AND 0xFFF = 0" and ph: "phys < 2 ^ 52"
    and fl: "flags AND 0x000FFFFFFFFFF000 = 0"
    and ok: "vmm_map as virt phys flags s = Ok () s'"
  shows "translate (mem s) (pml4_of s as) virt = None" "mem_only s s'" "vm_inv s' S"
    "a \<in> S \<Longrightarrow> pml4_of s' a = pml4_of s a" "free_set s' \<subseteq> free_set s"
    "same_page v virt \<Longrightarrow> translate (mem s') (pml4_of s as) v = Some (phys OR (v AND 0xFFF))"
    "r \<in> roots s S \<Longrightarrow> \<not> same_page v virt \<Longrightarrow> translate (mem s') r v = translate (mem s) r v"
    "user flags \<Longrightarrow> user_path (mem s') (pml4_of s as) virt"
    "r \<in> roots s S \<Longrightarrow> table_at (mem s) r p t \<Longrightarrow> table_at (mem s') r p t"
    "card (free_set s) \<le> card (free_set s') + 3"
proof -
  let ?r = "pml4_of s as"
  have r: "?r \<in> roots s S" using as(1) by (simp add: roots_def)
  obtain pt s1 where g: "translate (mem s) ?r virt = None" "vm_step s S s1"
    "table_at (mem s1) ?r (table_path virt) pt" "\<not> present (entry (mem s1) pt (pt_i virt))"
    "user flags \<Longrightarrow> user_path (mem s1) ?r virt"
    "s' = set_entry pt (pt_i virt) (page_base phys OR flags OR VMM_FLAG_PRESENT) s1"
    "card (free_set s) \<le> card (free_set s1) + 3"
    using ok by (cases rule: vmm_map_cases [OF inv as al, of flags]) auto
  let ?e = "page_base phys OR flags OR VMM_FLAG_PRESENT"
  have inv1: "vm_inv s1 S" and rs: "roots s1 S = roots s S"
    using g(2) vm_step_roots by (auto simp: vm_step_def)
  have r1: "?r \<in> roots s1 S" using r rs by simp
  have p3: "length (table_path virt) = 3" by simp
  note ls = leaf_step [OF inv1 r1 g(3) p3 index_less(4) [of virt], where e = ?e]
  show "translate (mem s) ?r virt = None" by (rule g(1))
  show "mem_only s s'" using g(2) set_entry_frame(1) [OF inv1 r1 g(3) index_less(4)]
    by (auto simp: vm_step_def g(6) intro: mem_only_trans)
  show "vm_inv s' S" unfolding g(6) by (rule ls(1))
  show "a \<in> S \<Longrightarrow> pml4_of s' a = pml4_of s a" using ls(2) g(2) by (auto simp: vm_step_def g(6))
  show "free_set s' \<subseteq> free_set s" using ls(3) g(2) by (auto simp: vm_step_def g(6))
  show "translate (mem s') ?r v = Some (phys OR (v AND 0xFFF))" if "same_page v virt"
    using ls(5) [OF r1, of v] that g(3) pte_addr_leaf [OF al(2) ph fl]
    by (simp add: same_page_def bit_or_iff g(6))
  show "translate (mem s') r v = translate (mem s) r v" if "r \<in> roots s S" "\<not> same_page v virt"
  proof -
    have n: "\<not> (table_at (mem s1) r (table_path v) pt \<and> pt_i v = pt_i virt)"
      using that unique_pathsD [OF vm_invD(2) [OF inv1] _ r1 _ g(3)] rs by (auto simp: same_page_def)
    show ?thesis
      using ls(5) [of r v] that(1) rs vm_step_translate [OF g(2) that(1)]
      unfolding if_not_P [OF n] by (simp add: g(6))
  qed
  show "user_path (mem s') ?r virt" if "user flags"
    using leaf_step_user [OF inv1 r1 g(3) p3 index_less(4) r1 g(5) [OF that]] by (simp add: g(6))
  show "table_at (mem s') r p t" if "r \<in> roots s S" "table_at (mem s) r p t"
    using ls(4) [of r p t] vm_step_table [OF g(2) that] that(1) rs by (simp add: g(6))
  show "card (free_set s) \<le> card (free_set s') + 3" using ls(3) g(7) by (simp add: g(6))
qed

section \<open>Looking up and unmapping a page\<close>

text \<open>The address is not inside a 2 MiB page.\<close>

definition small_page :: "pmem \<Rightarrow> u64 \<Rightarrow> u64 \<Rightarrow> bool" where
  "small_page m r v \<longleftrightarrow>
     (\<forall>pd. walk m r [pml4_i v, pdpt_i v] = Some pd \<longrightarrow> \<not> huge (entry m pd (pd_i v)))"

lemma walk_levels:
  fixes s :: "'a vmm_scheme"
  assumes inv: "vm_inv s S" and r: "r \<in> roots s S" and sm: "small_page (mem s) r v"
  defines "e0 \<equiv> entry (mem s) r (pml4_i v)"
  defines "e1 \<equiv> entry (mem s) (pte_addr e0) (pdpt_i v)"
  defines "e2 \<equiv> entry (mem s) (pte_addr e1) (pd_i v)"
  obtains (absent) "\<not> (present e0 \<and> present e1 \<and> present e2)" "translate (mem s) r v = None"
      "present e0 \<Longrightarrow> page_base e0 = pte_addr e0"
      "present e0 \<Longrightarrow> present e1 \<Longrightarrow> page_base e1 = pte_addr e1"
  | (table) "present e0" "present e1" "present e2" "table_at (mem s) r (table_path v) (pte_addr e2)"
      "page_base e0 = pte_addr e0" "page_base e1 = pte_addr e1" "page_base e2 = pte_addr e2"
proof -
  have t0: "table_at (mem s) r [] r" by simp
  have h0: "\<not> huge e0" using upper_not_huge [OF inv r t0] by (simp add: e0_def)
  have b0: "page_base e0 = pte_addr e0" if "present e0"
    using vm_invD(4) [OF inv r t0] that h0 by (simp add: table_ok_def Let_def e0_def)
  have t1: "table_at (mem s) r [pml4_i v] (pte_addr e0)" if "present e0"
    using that h0 by (simp add: table_at_def walk_step_def e0_def Let_def)
  have h1: "\<not> huge e1" if "present e0"
    using upper_not_huge [OF inv r t1 [OF that]] by (simp add: e1_def)
  have b1: "page_base e1 = pte_addr e1" if "present e0" "present e1"
    using vm_invD(4) [OF inv r t1 [OF that(1)]] that h1 by (simp add: table_ok_def Let_def e1_def)
  have t2: "table_at (mem s) r [pml4_i v, pdpt_i v] (pte_addr e1)" if "present e0" "present e1"
    using that t1 h1 by (simp add: table_at_def walk_step_def e1_def Let_def split: option.splits if_splits)
  have h2: "\<not> huge e2" if "present e0" "present e1"
    using sm t2 [OF that] by (simp add: small_page_def table_at_def e2_def del: walk.simps)
  have b2: "page_base e2 = pte_addr e2" if "present e0" "present e1" "present e2"
    using vm_invD(4) [OF inv r t2 [OF that(1,2)]] that h2 by (simp add: table_ok_def Let_def e2_def)
  have tr: "translate (mem s) r v = (if present e0 \<and> present e1 \<and> present e2
      then leaf_4k (mem s) (pte_addr e2) v else None)"
    using h0 h1 h2 by (simp add: translate_def e0_def e1_def e2_def Let_def leaf_4k_def)
  show thesis
  proof (cases "present e0 \<and> present e1 \<and> present e2")
    case True
    have "table_at (mem s) r ([pml4_i v, pdpt_i v] @ [pd_i v]) (pte_addr e2)"
      unfolding table_at_snoc using t2 h2 True by (auto simp: walk_step_def e2_def Let_def)
    then show ?thesis using True b0 b1 b2 table by (simp add: table_path_def)
  next
    case False
    then show ?thesis using absent tr b0 b1 by auto
  qed
qed

lemma vmm_virt_to_phys_translate:
  assumes inv: "vm_inv s S" and as: "as \<in> S" and sm: "small_page (mem s) (pml4_of s as) v"
  shows "vmm_virt_to_phys as v s =
    (case translate (mem s) (pml4_of s as) v of None \<Rightarrow> 0 | Some p \<Rightarrow> p)"
proof -
  have r: "pml4_of s as \<in> roots s S" using as by (simp add: roots_def)
  show ?thesis
  proof (cases rule: walk_levels [OF inv r sm])
    case 1
    then show ?thesis by (auto simp: vmm_virt_to_phys_def Let_def)
  next
    case 2
    then show ?thesis
      using translate_leaf [OF 2(4)] by (simp add: vmm_virt_to_phys_def leaf_4k_def Let_def)
  qed
qed

lemma translate_same_page:
  "same_page v w \<Longrightarrow> translate m r v = None \<longleftrightarrow> translate m r w = None"
  by (simp add: translate_def same_page_def table_path_def Let_def)

lemma vmm_unmap_spec:
  assumes inv: "vm_inv s S" and as: "as \<in> S" "as \<noteq> 0" and al: "virt AND 0xFFF = 0"
    and sm: "small_page (mem s) (pml4_of s as) virt"
  obtains s' where "vmm_unmap as virt s = Ok () s'" "vm_inv s' S" "mem_only s s'"
    "free_set s' = free_set s" "\<And>a. a \<in> S \<Longrightarrow> pml4_of s' a = pml4_of s a"
    "\<And>v. same_page v virt \<Longrightarrow> translate (mem s') (pml4_of s as) v = None"
    "\<And>r v. r \<in> roots s S \<Longrightarrow> \<not> same_page v virt \<Longrightarrow> translate (mem s') r v = translate (mem s) r v"
proof -
  have r: "pml4_of s as \<in> roots s S" using as by (simp add: roots_def)
  show thesis
  proof (cases rule: walk_levels [OF inv r sm])
    case 1
    have "translate (mem s) (pml4_of s as) v = None" if "same_page v virt" for v
      using 1(2) translate_same_page [OF that] by simp
    moreover have "vmm_unmap as virt s = Ok () s"
      using 1 as(2) al by (auto simp: vmm_unmap_def Let_def)
    ultimately show ?thesis using that [of s] inv by simp
  next
    case 2
    define pt where "pt = pte_addr (entry (mem s) (pte_addr (entry (mem s) (pte_addr
      (entry (mem s) (pml4_of s as) (pml4_i virt))) (pdpt_i virt))) (pd_i virt))"
    have t: "table_at (mem s) (pml4_of s as) (table_path virt) pt" using 2(4) by (simp add: pt_def)
    have p3: "length (table_path virt) = 3" by simp
    note ls = leaf_step [OF inv r t p3 index_less(4) [of virt], where e = 0]
    have "vmm_unmap as virt s = Ok () (set_entry pt (pt_i virt) 0 s)"
      using 2 as(2) al by (simp add: vmm_unmap_def Let_def pt_def)
    moreover have "translate (mem (set_entry pt (pt_i virt) 0 s)) (pml4_of s as) v = None"
      if "same_page v virt" for v
      using ls(5) [OF r, of v] that t by (simp add: same_page_def)
    moreover have "translate (mem (set_entry pt (pt_i virt) 0 s)) r' v = translate (mem s) r' v"
      if "r' \<in> roots s S" "\<not> same_page v virt" for r' v
    proof -
      have n: "\<not> (table_at (mem s) r' (table_path v) pt \<and> pt_i v = pt_i virt)"
        using that unique_pathsD [OF vm_invD(2) [OF inv] that(1) r _ t] by (auto simp: same_page_def)
      show ?thesis using ls(5) [OF that(1), of v] unfolding if_not_P [OF n] .
    qed
    ultimately show ?thesis
      using that [of "set_entry pt (pt_i virt) 0 s"] ls(1-3) set_entry_frame(1) [OF inv r t index_less(4)] by blast
  qed
qed

section \<open>Creating an address space\<close>

text \<open>
  A root that holds the kernel's first and last entries and nothing else, in a state whose
  other tables are untouched.
\<close>

definition installs :: "'a vmm_scheme \<Rightarrow> u64 set \<Rightarrow> u64 \<Rightarrow> u64 \<Rightarrow> u64 \<Rightarrow> 'a vmm_scheme \<Rightarrow> bool" where
  "installs s S kr as n s' \<longleftrightarrow> mem_only s s' \<and> free_pages s' = free_pages s \<and>
     (\<forall>x. x \<notin> region as 8 \<union> region n 4096 \<longrightarrow> mem s' x = mem s x) \<and> load64 (mem s') as = n \<and>
     (\<forall>j < 512. entry (mem s') n j = (if j = 0 then entry (mem s) kr 0 OR 4
        else if j = 511 then entry (mem s) kr 511 else 0))"

definition space_room :: "'a vmm_scheme \<Rightarrow> u64 set \<Rightarrow> u64 \<Rightarrow> u64 \<Rightarrow> bool" where
  "space_room s S as n \<longleftrightarrow> kframe s n \<and> fresh_table s S n \<and> kframe s as \<and> fresh_table s S as \<and> n \<noteq> as"


lemma install_entries:
  assumes inv: "vm_inv s S" and room: "space_room s S as n" and ins: "installs s S kr as n s'"
    and r: "r \<in> roots s S" "table_at (mem s) r p t" and j: "j < 512"
  shows "entry (mem s') t j = entry (mem s) t j"
proof (rule entry_cong [OF vm_invD(5) [OF inv r] j])
  have "t \<noteq> n" "t \<noteq> as" using room r by (auto simp: space_room_def fresh_table_def)
  then have "region t 4096 \<inter> region n 4096 = {}" "region t 4096 \<inter> region as 4096 = {}"
    using room kframe_aligned [OF inv] vm_invD(5) [OF inv r]
    by (simp_all add: space_room_def aligned_disjoint)
  moreover have "region as 8 \<subseteq> region as 4096" by (auto simp: region_def)
  ultimately show "mem s' x = mem s x" if "x \<in> region t 4096" for x
    using that ins unfolding installs_def by blast
qed

lemma install_tables:
  assumes inv: "vm_inv s S" and room: "space_room s S as n" and ins: "installs s S kr as n s'"
  shows "r \<in> roots s S \<Longrightarrow> table_at (mem s') r q t = table_at (mem s) r q t"
    and "r \<in> roots s S \<Longrightarrow> translate (mem s') r v = translate (mem s) r v"
proof -
  note en = install_entries [OF inv room ins]
  show tab: "table_at (mem s') r q t = table_at (mem s) r q t" if "r \<in> roots s S" for r q t
    by (rule table_at_cong) (simp add: walk_step_def en [OF that])
  show "translate (mem s') r v = translate (mem s) r v" if "r \<in> roots s S"
    by (rule translate_cong) (auto intro!: leaf_cong en [OF that] simp: tab [OF that])
qed

lemma install_walk:
  assumes inv: "vm_inv s S" and kr: "kr \<in> roots s S"
    and room: "space_room s S as n" and ins: "installs s S kr as n s'" and j: "j < 512"
  shows "walk (mem s') n (j # q) = (if j = 0 \<or> j = 511 then walk (mem s') kr (j # q) else None)"
proof -
  have t: "table_at (mem s) kr [] kr" by simp
  have k: "entry (mem s') kr j = entry (mem s) kr j" using install_entries [OF inv room ins kr t j] .
  have "walk_step (mem s') n j = (if j = 0 \<or> j = 511 then walk_step (mem s') kr j else None)"
    using ins j k unfolding installs_def walk_step_def Let_def by (auto simp: user_bit)
  then show ?thesis by simp
qed

lemma install_new_tables:
  assumes inv: "vm_inv s S" and kr: "kr \<in> roots s S"
    and room: "space_room s S as n" and ins: "installs s S kr as n s'"
  shows "table_at (mem s') n q t \<longleftrightarrow> q = [] \<and> t = n \<or>
      (\<exists>j u. q = j # u \<and> (j = 0 \<or> j = 511) \<and> table_at (mem s) kr q t)"
    and "translate (mem s') n v = (if pml4_i v = 0 \<or> pml4_i v = 511 then translate (mem s) kr v else None)"
proof -
  note w = install_walk [OF inv kr room ins]
  show "table_at (mem s') n q t \<longleftrightarrow> q = [] \<and> t = n \<or>
      (\<exists>j u. q = j # u \<and> (j = 0 \<or> j = 511) \<and> table_at (mem s) kr q t)"
  proof (cases q)
    case (Cons j u)
    have "table_at (mem s') n q t \<longleftrightarrow> (j = 0 \<or> j = 511) \<and> table_at (mem s') kr q t"
      using w [of j u] Cons unfolding table_at_def by (cases "j < 512") (auto simp del: walk.simps split: if_splits)
    then show ?thesis using install_tables(1) [OF inv room ins kr] Cons by simp
  qed auto
  define c where "c \<longleftrightarrow> pml4_i v = 0 \<or> pml4_i v = 511"
  have e: "walk (mem s') n (pml4_i v # q) = (if c then walk (mem s') kr (pml4_i v # q) else None)" for q
    using w [OF index_less(1)] unfolding c_def .
  have "translate (mem s') n v = (if c then translate (mem s') kr v else None)"
    unfolding translate_tables table_path_def e by (cases c) simp_all
  then show "translate (mem s') n v = (if pml4_i v = 0 \<or> pml4_i v = 511 then translate (mem s) kr v else None)"
    using install_tables(2) [OF inv room ins kr] unfolding c_def by simp
qed

lemma install_frame:
  assumes inv: "vm_inv s S" and room: "space_room s S as n" and ins: "installs s S kr as n s'"
  shows "free_set s' = free_set s" "pmm_inv s'" "kframe s' = kframe s"
    "a \<in> S \<Longrightarrow> pml4_of s' a = pml4_of s a"
proof -
  have sub: "region as 8 \<subseteq> region as 4096" by (auto simp: region_def)
  obtain m where m: "s' = s\<lparr>mem := m\<rparr>"
    using ins unfolding installs_def mem_only_def by force
  have bm: "m x = mem s x" if "x \<in> bitmap_region s" for x
    using that ins kframe_disjoint(1) [OF inv] room sub
    unfolding installs_def space_room_def m by (simp add: m) blast
  have geom: "bitmap_geom s" using vm_invD(1) [OF inv] by (rule pmm_inv_geom)
  show fs: "free_set s' = free_set s" "pmm_inv s'"
    using pmm_mem_update [OF geom, of m] bm vm_invD(1) [OF inv] by (simp_all add: m)
  then show "kframe s' = kframe s"
    by (simp add: kframe_def fun_eq_iff m bitmap_region_def)
  show "pml4_of s' a = pml4_of s a" if "a \<in> S"
  proof -
    have "region a 8 \<inter> region n 4096 = {}" "region a 8 \<inter> region as 4096 = {}"
      using room that by (auto simp: space_room_def fresh_table_def)
    then show ?thesis
      using ins sub unfolding pml4_of_def installs_def by (intro load64_cong) blast
  qed
qed

lemma install_space:
  assumes inv: "vm_inv s S" and kr: "kr \<in> roots s S"
    and room: "space_room s S as n" and ins: "installs s S kr as n s'" and a: "a \<in> insert as S"
  shows "space_ok s' (insert n (roots s S)) a"
proof -
  note fr = install_frame [OF inv room ins]
  note kf = kframe_disjoint [OF inv]
  have al: "aligned as" "aligned n" "as \<noteq> n"
    using room kframe_aligned [OF inv] by (auto simp: space_room_def)
  have sub: "region as 8 \<subseteq> region as 4096" by (auto simp: region_def)
  have "region a 8 \<inter> bitmap_region s = {}" "\<forall>k \<in> free_set s. region a 8 \<inter> frame_region k = {}"
    using a kf [of as] room sub vm_invD(6) [OF inv] by (auto simp: space_room_def space_ok_def) blast+
  moreover have n: "region a 8 \<inter> region n 4096 = {}"
    using a room aligned_disjoint [OF al] sub by (auto simp: space_room_def fresh_table_def)
  moreover have old: "region a 8 \<inter> region t 4096 = {}" if "r \<in> roots s S" "table_at (mem s) r p t" for r p t
  proof (cases "a = as")
    case True
    have "t \<noteq> as" using room that by (auto simp: space_room_def fresh_table_def)
    then show ?thesis using aligned_disjoint [OF al(1) vm_invD(5) [OF inv that]] sub True by blast
  next
    case False
    then show ?thesis using a vm_invD(6) [OF inv, of a] that by (auto simp: space_ok_def)
  qed
  moreover have "bitmap_region s' = bitmap_region s"
    using ins mem_only_fields(4) by (auto simp: installs_def)
  moreover have "region a 8 \<inter> region t 4096 = {}" if "r \<in> insert n (roots s S)" "table_at (mem s') r p t" for r p t
  proof (cases "r = n")
    case True
    then have "t = n \<or> table_at (mem s) kr p t" using install_new_tables(1) [OF inv kr room ins] that(2) by blast
    then show ?thesis using n old kr by blast
  next
    case False
    then show ?thesis using that install_tables(1) [OF inv room ins] old by blast
  qed
  ultimately show ?thesis unfolding space_ok_def fr(1) by blast
qed

lemma install_inv:
  assumes inv: "vm_inv s S" and kr: "kr \<in> roots s S"
    and room: "space_room s S as n" and ins: "installs s S kr as n s'"
  shows "vm_inv s' (insert as S)"
proof -
  note fr = install_frame [OF inv room ins]
  note old = install_tables(1) [OF inv room ins]
  note new = install_new_tables(1) [OF inv kr room ins]
  have rs: "roots s' (insert as S) = insert n (roots s S)"
    using fr(4) ins by (auto simp: roots_def pml4_of_def installs_def)
  have tab: "table_at (mem s') r p t \<Longrightarrow> t = n \<and> p = [] \<or> (\<exists>r' \<in> roots s S. table_at (mem s) r' p t)"
    if "r \<in> insert n (roots s S)" for r p t
    using that old new kr by auto
  have nn: "\<not> table_at (mem s) r p n" if "r \<in> roots s S" for r p
    using room that by (auto simp: space_room_def fresh_table_def)
  have uniq: "unique_paths (mem s') (insert n (roots s S))"
    unfolding unique_paths_def using tab nn unique_pathsD [OF vm_invD(2) [OF inv]] by metis
  have okn: "table_ok (mem s') [] n"
  proof -
    have "table_ok (mem s) [] kr" using vm_invD(4) [OF inv kr] by simp
    then show ?thesis
      using ins unfolding table_ok_def installs_def Let_def by (auto simp: user_bit)
  qed
  have oko: "table_ok (mem s') p t" if "r \<in> roots s S" "table_at (mem s) r p t" for r p t
    using vm_invD(4) [OF inv that] install_entries [OF inv room ins that] by (simp add: table_ok_def)
  have ok: "kframe s' t \<and> table_ok (mem s') p t" if "r \<in> insert n (roots s S)" "table_at (mem s') r p t" for r p t
    using tab [OF that] okn oko vm_invD(3) [OF inv] room fr(3) by (auto simp: space_room_def)
  have "space_ok s' (insert n (roots s S)) a" if "a \<in> insert as S" for a
    using install_space [OF inv kr room ins that] .
  then show ?thesis
    using inv fr(2) uniq ok ins mem_only_fields(3) [of s s'] unfolding vm_inv_def rs
    by (auto simp: installs_def)
qed

lemma kernel_root_stable:
  assumes inv: "vm_inv s S" and room: "space_room s S as n" and ka: "ka \<in> S"
    and out: "\<forall>x. x \<notin> region as 8 \<union> region n 4096 \<longrightarrow> m x = mem s x" and j: "j < 512"
  shows "load64 m ka = pml4_of s ka" "entry m (pml4_of s ka) j = entry (mem s) (pml4_of s ka) j"
proof -
  have sub: "region as 8 \<subseteq> region as 4096" by (auto simp: region_def)
  have "region ka 8 \<inter> region n 4096 = {}" "region ka 8 \<inter> region as 4096 = {}"
    using room ka by (auto simp: space_room_def fresh_table_def)
  then show "load64 m ka = pml4_of s ka"
    unfolding pml4_of_def using out sub by (intro load64_cong) blast
  have kr: "pml4_of s ka \<in> roots s S" "table_at (mem s) (pml4_of s ka) [] (pml4_of s ka)"
    using ka by (auto simp: roots_def)
  then have "pml4_of s ka \<noteq> n" "pml4_of s ka \<noteq> as"
    using room unfolding space_room_def fresh_table_def by blast+
  then have "region (pml4_of s ka) 4096 \<inter> region n 4096 = {}" "region (pml4_of s ka) 4096 \<inter> region as 4096 = {}"
    using room kframe_aligned [OF inv] vm_invD(5) [OF inv kr] by (simp_all add: space_room_def aligned_disjoint)
  then show "entry m (pml4_of s ka) j = entry (mem s) (pml4_of s ka) j"
    using out sub by (intro entry_cong vm_invD(5) [OF inv kr] j) blast
qed

lemma create_installs:
  fixes s :: "'a vmm_scheme"
  assumes inv: "vm_inv s S" and room: "space_room s S as n" and ka: "kernel_address_space s \<in> S"
  defines "s3 \<equiv> s\<lparr>mem := store64 (mem s) as n\<rparr>"
  defines "s4 \<equiv> s3\<lparr>mem := zero_table (pml4_of s3 as) (mem s3)\<rparr>"
  defines "s5 \<equiv> set_entry (pml4_of s4 as) 0
    (entry (mem s4) (pml4_of s4 (kernel_address_space s4)) 0 OR VMM_FLAG_USER) s4"
  defines "s6 \<equiv> set_entry (pml4_of s5 as) 511
    (entry (mem s5) (pml4_of s5 (kernel_address_space s5)) 511) s5"
  shows "installs s S (pml4_of s (kernel_address_space s)) as n s6"
proof -
  let ?ka = "kernel_address_space s" and ?kr = "pml4_of s (kernel_address_space s)"
  let ?out = "\<lambda>m. \<forall>x. x \<notin> region as 8 \<union> region n 4096 \<longrightarrow> m x = mem s x"
  have al: "aligned n" "aligned as" "n \<noteq> as"
    using room kframe_aligned [OF inv] by (auto simp: space_room_def)
  have sub: "region as 8 \<subseteq> region as 4096" by (auto simp: region_def)
  have dis: "region as 8 \<inter> region n 4096 = {}" using aligned_disjoint [OF al(2,1)] al(3) sub by blast
  have slot: "region (n + 8 * j) 8 \<subseteq> region n 4096" if "j < 512" for j using slot_subset [OF al(1) that] .
  have keep: "load64 (store64 m (n + 8 * j) w) as = load64 m as" if "j < 512" for m j w
    using slot [OF that] dis by (intro load64_store64_disjoint) blast
  have put: "?out (store64 m (n + 8 * j) w)" if "?out m" "j < 512" for m j w
  proof (intro allI impI)
    fix x assume x: "x \<notin> region as 8 \<union> region n 4096"
    then have "x \<notin> region (n + 8 * j) 8" using slot [OF that(2)] by blast
    then show "store64 m (n + 8 * j) w x = mem s x" using that(1) x by (simp add: store64_apply_out)
  qed
  have o3: "?out (mem s3)" "load64 (mem s3) as = n" by (simp_all add: s3_def store64_apply_out)
  have m4: "mem s4 = zero_table n (mem s3)" using o3(2) by (simp add: s4_def pml4_of_def)
  have "load64 (mem s4) as = load64 (mem s3) as"
    unfolding m4 using dis zero_table_spec(2) [OF al(1)] by (intro load64_cong) blast
  then have o4: "?out (mem s4)" "load64 (mem s4) as = n" "\<And>j. j < 512 \<Longrightarrow> entry (mem s4) n j = 0"
    using o3 zero_table_spec [OF al(1)] by (simp_all add: m4)
  have s5: "s5 = set_entry n 0 (entry (mem s) ?kr 0 OR 4) s4"
    using kernel_root_stable [OF inv room ka o4(1), of 0] o4(2)
    by (simp add: s5_def pml4_of_def s4_def s3_def)
  have o5: "?out (mem s5)" "load64 (mem s5) as = n"
    "\<And>j. j < 512 \<Longrightarrow> entry (mem s5) n j = (if j = 0 then entry (mem s) ?kr 0 OR 4 else 0)"
    using put [OF o4(1), of 0] o4(2,3) keep [of 0] entry_store [OF al(1) al(1), of 0]
    by (simp_all add: s5 set_entry_def)
  have s6: "s6 = set_entry n 511 (entry (mem s) ?kr 511) s5"
    using kernel_root_stable [OF inv room ka o5(1), of 511] o5(2)
    by (simp add: s6_def pml4_of_def s5 set_entry_def s4_def s3_def)
  have o6: "?out (mem s6)" "load64 (mem s6) as = n"
    "\<And>j. j < 512 \<Longrightarrow> entry (mem s6) n j = (if j = 0 then entry (mem s) ?kr 0 OR 4
       else if j = 511 then entry (mem s) ?kr 511 else 0)"
    using put [OF o5(1), of 511] o5(2,3) keep [of 511] entry_store [OF al(1) al(1), of 511]
    by (simp_all add: s6 set_entry_def)
  have "mem_only s s6" "free_pages s6 = free_pages s"
    by (simp_all add: s6 s5 s4_def s3_def set_entry_def)
  then show ?thesis using o6 by (simp add: installs_def)
qed

lemma create_room:
  assumes inv: "vm_inv s S" and two: "2 \<le> card (free_set s)"
  obtains as n s1 s2 where "pmm_alloc_page s = (as, s1)" "alloc_page_table s1 = Ok n s2"
    "vm_step s S s2" "space_room s2 S as n" "as \<noteq> 0" "card (free_set s) \<le> card (free_set s2) + 2"
proof -
  note pi = vm_invD(1) [OF inv]
  have "free_set s \<noteq> {}" using two by auto
  then obtain a s1 where a: "pmm_alloc_page s = (page_addr a, s1)" "a \<in> free_set s"
    "free_set s1 = free_set s - {a}" "pmm_inv s1"
    using pmm_frames.alloc_some [OF pi] by blast
  have ab: "0 < a" "a < unat (total_pages s)" "frame_region a \<inter> bitmap_region s = {}" "a < 2 ^ 52"
    using pmm_frames.avail_frame [OF pi a(2)] by (auto simp: freeable_def)
  have mo1: "mem_only s s1" and "pmm_frame s s1"
    using mem_only_pmm_alloc_page [of s] pmm_alloc_page_frame [OF pmm_inv_geom [OF pi]] a(1) by simp_all
  then have "\<And>x. x \<notin> bitmap_region s \<Longrightarrow> x \<notin> frame_region a \<Longrightarrow> mem s1 x = mem s x"
    by (simp add: pmm_frame_def)
  note al1 = alloc_step [OF inv a(4) mo1 a(2,3) this]
  have inv1: "vm_inv s1 S" using al1(1) by (simp add: vm_step_def)
  have "card (free_set s1) \<noteq> 0" using two a(2,3) by simp
  then have "free_set s1 \<noteq> {}" by auto
  then obtain n s2 where n: "alloc_page_table s1 = Ok (page_addr n) s2" "n \<in> free_set s1"
    "free_set s2 = free_set s1 - {n}" "pmm_inv s2" "mem_only s1 s2" "kframe s2 (page_addr n)"
    "\<And>x. x \<notin> bitmap_region s1 \<Longrightarrow> x \<notin> frame_region n \<Longrightarrow> mem s2 x = mem s1 x"
    by (cases rule: alloc_page_table_cases [OF a(4)]) auto
  note al2 = alloc_step [OF inv1 n(4,5,2,3,7)]
  have rs: "roots s2 S = roots s1 S" using vm_step_roots [OF al2(1)] .
  have "kframe s2 (page_addr a)"
    unfolding kframe_def using ab a n mem_only_fields [OF mo1] mem_only_fields [OF n(5)]
    by (intro exI [of _ a]) simp
  moreover have "fresh_table s2 S (page_addr a)"
    using al1(2) al2(3) rs by (simp add: fresh_table_def)
  moreover have "page_addr n \<noteq> page_addr a"
    using n(2) a(3) ab(4) pmm_frames.avail_frame [OF a(4) n(2)] page_addr_inj by auto
  ultimately have "space_room s2 S (page_addr a) (page_addr n)"
    using n(6) al2(2) by (simp add: space_room_def)
  moreover have "page_addr a \<noteq> 0" using ab page_addr_inj [of a 0] by auto
  moreover have "card (free_set s) \<le> card (free_set s2) + 2" using a(2,3) n(2,3) by simp
  ultimately show thesis
    using that [OF a(1) n(1) vm_step_trans [OF al1(1) al2(1)]] by blast
qed

lemma vmm_create_spec:
  assumes inv: "vm_inv s S" and ka: "kernel_address_space s \<in> S" and two: "2 \<le> card (free_set s)"
  obtains as s' where "vmm_create_address_space s = Ok as s'" "as \<noteq> 0" "as \<notin> S"
    "vm_inv s' (insert as S)" "mem_only s s'" "free_set s' \<subseteq> free_set s"
    "\<And>a. a \<in> S \<Longrightarrow> pml4_of s' a = pml4_of s a"
    "\<And>r v. r \<in> roots s S \<Longrightarrow> translate (mem s') r v = translate (mem s) r v"
    "\<And>v. translate (mem s') (pml4_of s' as) v = (if pml4_i v = 0 \<or> pml4_i v = 511
      then translate (mem s) (pml4_of s (kernel_address_space s)) v else None)"
    "walk (mem s') (pml4_of s' as) [0] = walk (mem s') (pml4_of s' (kernel_address_space s)) [0]"
    "card (free_set s) \<le> card (free_set s') + 2"
proof -
  obtain as n s1 s2 where c: "pmm_alloc_page s = (as, s1)" "alloc_page_table s1 = Ok n s2"
    and st: "vm_step s S s2" and room: "space_room s2 S as n" and nz: "as \<noteq> 0"
    and crd: "card (free_set s) \<le> card (free_set s2) + 2"
    using create_room [OF inv two] .
  have inv2: "vm_inv s2 S" and rs: "roots s2 S = roots s S" and mo: "mem_only s s2"
    using st vm_step_roots [OF st] by (simp_all add: vm_step_def)
  have ka2: "kernel_address_space s2 = kernel_address_space s" "kernel_address_space s2 \<in> S"
    using mem_only_vmm [OF mo] ka by simp_all
  have kr: "pml4_of s2 (kernel_address_space s2) \<in> roots s2 S" using ka2(2) by (simp add: roots_def)
  define s6 where "s6 = (case vmm_create_address_space s of Ok _ t \<Rightarrow> t)"
  have ins: "installs s2 S (pml4_of s2 (kernel_address_space s2)) as n s6"
    and ok: "vmm_create_address_space s = Ok as s6"
    using create_installs [OF inv2 room ka2(2)] c nz
    by (simp_all add: s6_def vmm_create_address_space_def Let_def)
  note fin = install_inv [OF inv2 kr room ins] install_frame [OF inv2 room ins]
    install_tables(2) [OF inv2 room ins] install_new_tables(2) [OF inv2 kr room ins]
  have root: "pml4_of s6 as = n" "mem_only s2 s6" using ins by (simp_all add: installs_def pml4_of_def)
  have old: "pml4_of s2 a = pml4_of s a" if "a \<in> S" for a using st that by (simp add: vm_step_def)
  show thesis
  proof (rule that [OF ok nz])
    have "as \<in> region as 8" "as \<in> region as 4096" by (simp_all add: region_def)
    then show "as \<notin> S" using room unfolding space_room_def fresh_table_def by blast
    show "vm_inv s6 (insert as S)" by (rule fin(1))
    show "mem_only s s6" using mem_only_trans [OF mo root(2)] .
    show "free_set s6 \<subseteq> free_set s" using fin(2) st by (simp add: vm_step_def)
    show "pml4_of s6 a = pml4_of s a" if "a \<in> S" for a using fin(5) [OF that] old [OF that] by simp
    show "translate (mem s6) r v = translate (mem s) r v" if "r \<in> roots s S" for r v
      using fin(6) [of r v] that rs vm_step_translate [OF st that] by simp
    show "translate (mem s6) (pml4_of s6 as) v = (if pml4_i v = 0 \<or> pml4_i v = 511
      then translate (mem s) (pml4_of s (kernel_address_space s)) v else None)" for v
      using fin(7) [of v] root(1) ka2(1) old [OF ka] vm_step_translate [OF st, of "pml4_of s (kernel_address_space s)"] kr rs
      by simp
    show "walk (mem s6) (pml4_of s6 as) [0] = walk (mem s6) (pml4_of s6 (kernel_address_space s)) [0]"
      using install_walk [OF inv2 kr room ins, of 0 "[]"] root(1) fin(5) [OF ka] ka2(1) by (simp del: walk.simps)
    show "card (free_set s) \<le> card (free_set s6) + 2" using crd fin(2) by simp
  qed
qed

section \<open>Properties of the page-table code\<close>

text \<open>
  A small machine for the examples: 16 frames of which 0 to 2 are used, the kernel's
  \<^verbatim>\<open>AddressSpace\<close> at \<open>0x100\<close>, its empty root in frame 1, the bitmap in frame 2.
\<close>

definition example_vm :: vmm where
  "example_vm = \<lparr>io_log = [], device = null_machine, if_flag = False,
     console = [], serial = [], serial_ready = False, g_ring = [], g_ring_head = 0,
     g_ring_count = 0, mem = (\<lambda>_. 0)(0x101 := 0x10, 0x2000 := 0x07), paging_arena_end = 0x2000,
     bitmap = 0x2000, bitmap_size = 2, total_pages = 16, free_pages = 13,
     kernel_address_space = 0x100, cr3 = 0x1000\<rparr>"

lemma example_vm_free: "free_set example_vm = {3..<16}"
proof -
  have b: "bit (7 :: u8) k \<longleftrightarrow> k < 3" for k
  proof -
    have e: "(7 :: u8) = mask 3" by (simp add: mask_eq_exp_minus_1)
    show ?thesis unfolding e by (auto simp: bit_mask_iff)
  qed
  have "page_used example_vm p \<longleftrightarrow> p < 3" if "p < 16" for p
  proof (cases "p < 8")
    case True
    then show ?thesis using b [of p] by (simp add: page_used_def example_vm_def)
  next
    case False
    then have "p div 8 = 1" using that by simp
    then show ?thesis using False by (simp add: page_used_def example_vm_def)
  qed
  then show ?thesis by (auto simp: free_set_def) (auto simp: example_vm_def)
qed

lemma example_vm_pmm: "pmm_inv example_vm"
proof -
  have "frame_region p \<inter> bitmap_region example_vm = {}" if "p \<in> {3..<16}" for p
    unfolding bitmap_region_def using that by (intro frame_overlap) (auto simp: example_vm_def)
  then show ?thesis unfolding pmm_inv_def example_vm_free by (auto simp: example_vm_def)
qed

lemma example_vm_total: "total_pages example_vm = 16" "kernel_address_space example_vm = 0x100"
  by (simp_all add: example_vm_def)

lemma example_vm_root: "pml4_of example_vm 0x100 = 0x1000" "roots example_vm {0x100} = {0x1000}"
  by (simp_all add: roots_def pml4_of_def load64_bytes example_vm_def)

lemma example_vm_entry: "i < 512 \<Longrightarrow> entry (mem example_vm) 0x1000 i = 0"
proof -
  assume "i < 512"
  then have i: "unat i < 512" by (simp add: word_less_nat_alt)
  have "mem example_vm x = 0" if "x \<in> region (0x1000 + 8 * i) 8" for x
  proof -
    have "unat (0x1000 + 8 * i) = 0x1000 + 8 * unat i" using i by (simp add: unat_word_ariths)
    then have x: "0x1000 \<le> unat x" "unat x < 0x2000"
      using that i region_interval [of "0x1000 + 8 * i" 8] by auto
    then have "x \<noteq> 0x101" "x \<noteq> 0x2000" by auto
    then show ?thesis by (simp add: example_vm_def)
  qed
  then have "entry (mem example_vm) 0x1000 i = load64 (\<lambda>_. 0) (0x1000 + 8 * i)"
    unfolding entry_def by (intro load64_cong) simp
  then show ?thesis by (simp add: load64_bytes)
qed

lemma example_vm_tables: "table_at (mem example_vm) 0x1000 p t \<longleftrightarrow> p = [] \<and> t = 0x1000"
proof (cases p)
  case (Cons i q)
  have "walk_step (mem example_vm) 0x1000 i = None" if "i < 512"
    using example_vm_entry [OF that] by (simp add: walk_step_def)
  then show ?thesis using Cons by (auto simp: table_at_def)
qed auto

lemma example_vm_inv: "vm_inv example_vm {0x100}"
proof -
  have r: "region 0x100 8 \<inter> region (page_addr n) 4096 = {}" if "1 \<le> n" "n < 16" for n
    using that by (intro region_disjoint) (auto simp: unat_page_addr)
  have b: "region 0x100 8 \<inter> bitmap_region example_vm = {}" "frame_region 1 \<inter> bitmap_region example_vm = {}"
    using region_disjoint [of "0x100" 8 "0x2000" 2] region_disjoint [of "0x1000" 4096 "0x2000" 2]
    by (simp_all add: bitmap_region_def frame_region_def example_vm_def page_addr_def)
  have "kframe example_vm 0x1000"
    unfolding kframe_def using b by (intro exI [of _ 1]) (simp add: example_vm_free example_vm_total page_addr_def)
  moreover have "table_ok (mem example_vm) [] 0x1000"
    by (simp add: table_ok_def example_vm_entry)
  moreover have "space_ok example_vm {0x1000} 0x100"
    using b r [of 1] r by (auto simp: space_ok_def example_vm_free example_vm_tables frame_region_def page_addr_def)
  ultimately show ?thesis
    unfolding vm_inv_def example_vm_root
    by (auto simp: example_vm_pmm unique_paths_def example_vm_tables example_vm_total)
qed


lemma example_vm_unmapped: "translate (mem example_vm) 0x1000 v = None"
  using example_vm_entry by (simp add: translate_def)


text \<open>
  C3: unmapping a 4 KiB page always succeeds; afterwards no address of the page translates,
  every other address translates as before in every address space, and the frame that was
  mapped is not given back to the allocator.
\<close>

theorem vmm_unmap_correct:
  assumes "vm_inv s S" and "as \<in> S" and "as \<noteq> 0" and "virt AND 0xFFF = 0"
    and "small_page (mem s) (pml4_of s as) virt"
  shows "\<exists>s'. vmm_unmap as virt s = Ok () s' \<and> vm_inv s' S \<and> free_set s' = free_set s \<and>
    (\<forall>v. same_page v virt \<longrightarrow> translate (mem s') (pml4_of s' as) v = None) \<and>
    (\<forall>a \<in> S. \<forall>v. \<not> same_page v virt \<longrightarrow>
       translate (mem s') (pml4_of s' a) v = translate (mem s) (pml4_of s a) v)"
proof (rule vmm_unmap_spec [OF assms])
  fix s' assume "vmm_unmap as virt s = Ok () s'" "vm_inv s' S" "free_set s' = free_set s"
    "\<And>a. a \<in> S \<Longrightarrow> pml4_of s' a = pml4_of s a"
    "\<And>v. same_page v virt \<Longrightarrow> translate (mem s') (pml4_of s as) v = None"
    "\<And>r v. r \<in> roots s S \<Longrightarrow> \<not> same_page v virt \<Longrightarrow> translate (mem s') r v = translate (mem s) r v"
  then show ?thesis using assms(2) by (auto simp: roots_def)
qed

lemma example_vm_small: "small_page (mem example_vm) 0x1000 v"
  using example_vm_entry by (simp add: small_page_def walk_step_def)

theorem vmm_unmap_correct_witness:
  "\<exists>s'. vmm_unmap 0x100 0x400000 example_vm = Ok () s' \<and>
     translate (mem s') (pml4_of s' 0x100) 0x400000 = None"
  using vmm_unmap_correct [OF example_vm_inv, of "0x100" "0x400000"]
  by (auto simp: example_vm_root example_vm_small same_page_def)

text \<open>
  C4: the software page walk agrees with the processor's translation on every address that is
  not inside a large page, with 0 for an unmapped address.
\<close>

theorem vmm_virt_to_phys_correct:
  assumes "vm_inv s S" and "as \<in> S" and "small_page (mem s) (pml4_of s as) v"
  shows "vmm_virt_to_phys as v s =
    (case translate (mem s) (pml4_of s as) v of None \<Rightarrow> 0 | Some p \<Rightarrow> p)"
  by (rule vmm_virt_to_phys_translate [OF assms])

theorem vmm_virt_to_phys_correct_witness: "vmm_virt_to_phys 0x100 0x400123 example_vm = 0"
  using vmm_virt_to_phys_correct [OF example_vm_inv, of "0x100" "0x400123"]
  by (simp add: example_vm_root example_vm_small example_vm_unmapped)

text \<open>
  C2: a new address space translates the addresses of the first and of the last top-level
  entry as the kernel's address space does and nothing else; all other address spaces are
  unchanged and the tables of all of them stay well formed.
\<close>

theorem vmm_create_address_space_correct:
  assumes "vm_inv s S" and "kernel_address_space s \<in> S" and "2 \<le> card (free_set s)"
  shows "\<exists>as s'. vmm_create_address_space s = Ok as s' \<and> as \<noteq> 0 \<and> as \<notin> S \<and> vm_inv s' (insert as S) \<and>
    (\<forall>a \<in> S. \<forall>v. translate (mem s') (pml4_of s' a) v = translate (mem s) (pml4_of s a) v) \<and>
    (\<forall>v. translate (mem s') (pml4_of s' as) v = (if pml4_i v = 0 \<or> pml4_i v = 511
       then translate (mem s) (pml4_of s (kernel_address_space s)) v else None))"
proof (rule vmm_create_spec [OF assms])
  fix as s' assume "vmm_create_address_space s = Ok as s'" "as \<noteq> 0" "as \<notin> S" "vm_inv s' (insert as S)"
    "\<And>a. a \<in> S \<Longrightarrow> pml4_of s' a = pml4_of s a"
    "\<And>r v. r \<in> roots s S \<Longrightarrow> translate (mem s') r v = translate (mem s) r v"
    "\<And>v. translate (mem s') (pml4_of s' as) v = (if pml4_i v = 0 \<or> pml4_i v = 511
      then translate (mem s) (pml4_of s (kernel_address_space s)) v else None)"
  then show ?thesis by (intro exI [of _ as] exI [of _ s']) (auto simp: roots_def)
qed

theorem vmm_create_address_space_correct_witness:
  "\<exists>as s'. vmm_create_address_space example_vm = Ok as s' \<and> as \<noteq> 0 \<and> vm_inv s' {as, 0x100}"
  using vmm_create_address_space_correct [OF example_vm_inv]
  by (auto simp: example_vm_free example_vm_total)

text \<open>
  C5: address spaces are not isolated below a shared top-level entry. When two of them hold the
  same table in the entry of an address, a page mapped in one of them is at once mapped to the
  same frame in the other.
\<close>

theorem vmm_map_shared:
  assumes "vm_inv s S" and "as \<in> S" and "as \<noteq> 0" and "virt AND 0xFFF = 0" and "phys AND 0xFFF = 0"
    and "phys < 2 ^ 52" and "flags AND 0x000FFFFFFFFFF000 = 0"
    and "vmm_map as virt phys flags s = Ok () s'" and "a \<in> S"
    and "walk (mem s) (pml4_of s a) [pml4_i virt] = walk (mem s) (pml4_of s as) [pml4_i virt]"
    and "walk (mem s) (pml4_of s as) [pml4_i virt] \<noteq> None"
  shows "translate (mem s') (pml4_of s' a) virt = Some phys"
proof -
  obtain pdpt where pdpt: "walk (mem s) (pml4_of s as) [pml4_i virt] = Some pdpt" using assms(11) by blast
  note r = vmm_map_ok [OF assms(1-8)]
  have "walk (mem s') (pml4_of s x) [pml4_i virt] = Some pdpt"
    if "x \<in> S" "walk (mem s) (pml4_of s x) [pml4_i virt] = Some pdpt" for x
    using r(9) [of "pml4_of s x" "[pml4_i virt]" pdpt] that
    by (auto simp: table_at_def roots_def simp del: walk.simps)
  then have "translate (mem s') (pml4_of s a) virt = translate (mem s') (pml4_of s as) virt"
    using assms(2,9,10) pdpt unfolding translate_walk by simp
  then show ?thesis
    using r(4) [OF assms(9)] r(6) [of virt] assms(4) by (simp add: same_page_def)
qed

theorem vmm_map_shared_witness:
  "\<exists>s1 as s2 s3. vmm_map 0x100 0x400000 0x5000 7 example_vm = Ok () s1 \<and>
     vmm_create_address_space s1 = Ok as s2 \<and> as \<noteq> 0x100 \<and> vmm_map as 0x401000 0x6000 7 s2 = Ok () s3 \<and>
     translate (mem s3) (pml4_of s3 0x100) 0x401000 = Some 0x6000"
proof -
  obtain s1 where m1: "vmm_map 0x100 0x400000 0x5000 7 example_vm = Ok () s1"
    by (cases rule: vmm_map_cases [OF example_vm_inv, of "0x100" "0x400000" "0x5000" 7])
      (auto simp: example_vm_free example_vm_unmapped example_vm_root)
  note r1 = vmm_map_ok [OF example_vm_inv _ _ _ _ _ _ m1, simplified]
  have ka: "kernel_address_space s1 = 0x100" using mem_only_vmm(1) [OF r1(2)] by (simp add: example_vm_total)
  have c1: "10 \<le> card (free_set s1)" using r1(10) by (simp add: example_vm_free)
  have k1: "kernel_address_space s1 \<in> {0x100}" and k2: "2 \<le> card (free_set s1)" using ka c1 by auto
  obtain as s2 where m2: "vmm_create_address_space s1 = Ok as s2" "as \<noteq> 0" "as \<notin> {0x100}"
    "vm_inv s2 (insert as {0x100})" "mem_only s1 s2" "free_set s2 \<subseteq> free_set s1"
    "\<And>a. a \<in> {0x100} \<Longrightarrow> pml4_of s2 a = pml4_of s1 a"
    "\<And>r v. r \<in> roots s1 {0x100} \<Longrightarrow> translate (mem s2) r v = translate (mem s1) r v"
    "\<And>v. translate (mem s2) (pml4_of s2 as) v = (if pml4_i v = 0 \<or> pml4_i v = 511
      then translate (mem s1) (pml4_of s1 (kernel_address_space s1)) v else None)"
    "walk (mem s2) (pml4_of s2 as) [0] = walk (mem s2) (pml4_of s2 (kernel_address_space s1)) [0]"
    "card (free_set s1) \<le> card (free_set s2) + 2"
    by (rule vmm_create_spec [OF r1(3) k1 k2]) blast
  have p: "pml4_i 0x401000 = 0" "pml4_i 0x400000 = 0" "pt_i 0x401000 \<noteq> pt_i 0x400000"
    by (simp_all add: pml4_i_def pt_i_def)
  have t1: "translate (mem s1) (pml4_of s1 0x100) 0x400000 = Some 0x5000"
    "translate (mem s1) (pml4_of s1 0x100) 0x401000 = None"
    using r1(4) r1(6) [of "0x400000"] r1(7) [of _ "0x401000"] p(3)
    by (simp_all add: same_page_def example_vm_root example_vm_unmapped)
  then have "translate (mem s2) (pml4_of s2 as) 0x400000 \<noteq> None" "translate (mem s2) (pml4_of s2 as) 0x401000 = None"
    using m2(9) p ka by simp_all
  moreover from this obtain s3 where "vmm_map as 0x401000 0x6000 7 s2 = Ok () s3"
    using m2(11) c1 by (cases rule: vmm_map_cases [OF m2(4) insertI1 m2(2), of "0x401000" "0x6000" 7]) auto
  ultimately show ?thesis
    using m1 m2(1,3,10) ka p vmm_map_shared [OF m2(4) insertI1 m2(2), of "0x401000" "0x6000" 7 s3 "0x100"]
    by (auto simp: translate_walk split: option.splits)
qed

end
