(* ===== verification/Kheap.thy ===== *)
theory Kheap
  imports Vmm
begin

text \<open>
  The kernel heap, \<^verbatim>\<open>kernel/kmalloc.c\<close>: a first-fit allocator over a linked list of blocks
  whose headers live in the memory they manage. A \<^verbatim>\<open>KBlock*\<close> is an address; the fields are
  read and written at their offsets (\<^verbatim>\<open>size\<close> 0, \<^verbatim>\<open>free\<close> 8, \<^verbatim>\<open>next\<close> 16, the structure has
  32 bytes). The traversals follow \<^verbatim>\<open>next\<close> until it is null, so on a cyclic list they do not
  return, which is the outcome \<open>Hang\<close>.
\<close>

unbundle bit_operations_syntax

section \<open>State and blocks\<close>

record heap = vmm +
  heap_head :: u64
  heap_ready :: bool

abbreviation (input) KBLOCK_SIZE :: u64 where "KBLOCK_SIZE \<equiv> 32"
abbreviation (input) KMALLOC_ALIGN :: u64 where "KMALLOC_ALIGN \<equiv> 16"

definition blk_size :: "pmem \<Rightarrow> u64 \<Rightarrow> u64" where "blk_size m b = load64 m b"
definition blk_free :: "pmem \<Rightarrow> u64 \<Rightarrow> bool" where "blk_free m b \<longleftrightarrow> load32 m (b + 8) \<noteq> 0"
definition blk_next :: "pmem \<Rightarrow> u64 \<Rightarrow> u64" where "blk_next m b = load64 m (b + 16)"

definition set_size :: "u64 \<Rightarrow> u64 \<Rightarrow> pmem \<Rightarrow> pmem" where "set_size b v m = store64 m b v"
definition set_free :: "u64 \<Rightarrow> bool \<Rightarrow> pmem \<Rightarrow> pmem" where
  "set_free b f m = store32 m (b + 8) (if f then 1 else 0)"
definition set_next :: "u64 \<Rightarrow> u64 \<Rightarrow> pmem \<Rightarrow> pmem" where "set_next b v m = store64 m (b + 16) v"

section \<open>Operations\<close>

definition align_up :: "u64 \<Rightarrow> u64 \<Rightarrow> u64" where
  "align_up value align = (value + align - 1) AND NOT (align - 1)"

definition split_block :: "u64 \<Rightarrow> u64 \<Rightarrow> pmem \<Rightarrow> pmem" where
  "split_block block sz m =
     (let remaining = blk_size m block - sz
      in if remaining \<le> KBLOCK_SIZE + KMALLOC_ALIGN then m
         else let next = block + KBLOCK_SIZE + sz;
                  m1 = set_size next (remaining - KBLOCK_SIZE) m;
                  m2 = set_free next True m1;
                  m3 = set_next next (blk_next m2 block) m2;
                  m4 = set_size block sz m3
              in set_next block next m4)"

text \<open>\<^verbatim>\<open>coalesce\<close> from a block on: the memory when the loop ends.\<close>

partial_function (option) coalesce_from :: "pmem \<Rightarrow> u64 \<Rightarrow> pmem option" where
  "coalesce_from m block =
     (if block \<noteq> 0 \<and> blk_next m block \<noteq> 0
      then let next = blk_next m block;
               m' = (if blk_free m block \<and> blk_free m next
                     then let m1 = set_size block (blk_size m block + (KBLOCK_SIZE + blk_size m next)) m
                          in set_next block (blk_next m1 (blk_next m1 block)) m1
                     else m)
           in coalesce_from m' (blk_next m' block)
      else Some m)"

definition coalesce :: "'a heap_scheme \<Rightarrow> (unit, 'a heap_scheme) outcome" where
  "coalesce s = (case coalesce_from (mem s) (heap_head s) of
     None \<Rightarrow> Hang | Some m \<Rightarrow> Ok () (s\<lparr>mem := m\<rparr>))"

text \<open>\<^verbatim>\<open>while (tail->next) tail = tail->next;\<close>\<close>

partial_function (option) find_tail :: "pmem \<Rightarrow> u64 \<Rightarrow> u64 option" where
  "find_tail m tail = (if blk_next m tail \<noteq> 0 then find_tail m (blk_next m tail) else Some tail)"

definition expand_heap :: "u64 \<Rightarrow> 'a heap_scheme \<Rightarrow> (u64, 'a heap_scheme) outcome" where
  "expand_heap sz s =
     (let tot = align_up (sz + KBLOCK_SIZE) PAGE_SIZE;
          pages = tot div PAGE_SIZE;
          (block, s1) = pmm_alloc_pages pages s
      in if block = 0 then Ok 0 s1
         else let m = set_next block 0 (set_free block True (set_size block (tot - KBLOCK_SIZE) (mem s1)));
                  s2 = s1\<lparr>mem := m\<rparr>
              in if heap_head s2 = 0 then Ok block (s2\<lparr>heap_head := block\<rparr>)
                 else (case find_tail (mem s2) (heap_head s2) of
                         None \<Rightarrow> Hang
                       | Some tail \<Rightarrow> Ok block (s2\<lparr>mem := set_next tail block (mem s2)\<rparr>)))"

definition kmalloc_init :: "'a heap_scheme \<Rightarrow> (unit, 'a heap_scheme) outcome" where
  "kmalloc_init s =
     kbind (kassert (KBLOCK_SIZE AND (KMALLOC_ALIGN - 1) = 0)
       ''kmalloc: block header is not allocation-aligned'' s) (\<lambda>_ s.
     if heap_ready s then Ok () s
     else kbind (expand_heap PAGE_SIZE s) (\<lambda>block s.
          kbind (kassert (block \<noteq> 0) ''kmalloc: initial heap allocation failed'' s) (\<lambda>_ s.
          Ok () (s\<lparr>heap_ready := True\<rparr>))))"

text \<open>The first free block that is large enough: \<open>Some 0\<close> when there is none.\<close>

partial_function (option) find_fit :: "pmem \<Rightarrow> u64 \<Rightarrow> u64 \<Rightarrow> u64 option" where
  "find_fit m sz block =
     (if block = 0 then Some 0
      else if blk_free m block \<and> blk_size m block \<ge> sz then Some block
      else find_fit m sz (blk_next m block))"

definition take_block :: "u64 \<Rightarrow> u64 \<Rightarrow> 'a heap_scheme \<Rightarrow> (u64, 'a heap_scheme) outcome" where
  "take_block block sz s =
     Ok (block + KBLOCK_SIZE) (s\<lparr>mem := set_free block False (split_block block sz (mem s))\<rparr>)"

definition kmalloc :: "u64 \<Rightarrow> 'a heap_scheme \<Rightarrow> (u64, 'a heap_scheme) outcome" where
  "kmalloc sz s =
     (if sz = 0 then Ok 0 s
      else kbind (kassert (heap_ready s) ''kmalloc: heap used before kmalloc_init'' s) (\<lambda>_ s.
           let sz = align_up sz KMALLOC_ALIGN
           in case find_fit (mem s) sz (heap_head s) of
                None \<Rightarrow> Hang
              | Some block \<Rightarrow>
                  if block \<noteq> 0 then take_block block sz s
                  else kbind (expand_heap sz s) (\<lambda>block s.
                       if block = 0 then Ok 0 s else take_block block sz s)))"

definition kzalloc :: "u64 \<Rightarrow> 'a heap_scheme \<Rightarrow> (u64, 'a heap_scheme) outcome" where
  "kzalloc sz s =
     kbind (kmalloc sz s) (\<lambda>ptr s.
       if ptr = 0 then Ok 0 s
       else Ok ptr (s\<lparr>mem := for_range 0 sz (\<lambda>i m. m(ptr + i := 0)) (mem s)\<rparr>))"

definition kfree :: "u64 \<Rightarrow> 'a heap_scheme \<Rightarrow> (unit, 'a heap_scheme) outcome" where
  "kfree ptr s =
     (if ptr = 0 then Ok () s
      else coalesce (s\<lparr>mem := set_free (ptr - KBLOCK_SIZE) True (mem s)\<rparr>))"

section \<open>Fields\<close>

lemma region_shift:
  assumes "i + p \<le> j" and "j + q \<le> 2 ^ 64"
  shows "region (b + of_nat i) p \<inter> region (b + of_nat j) q = {}"
proof -
  have "False" if x: "unat (x - (b + of_nat i)) < p" "unat (x - (b + of_nat j)) < q" for x
  proof -
    define y where "y = x - b"
    have e: "x - (b + of_nat i) = y - of_nat i" "x - (b + of_nat j) = y - of_nat j" by (simp_all add: y_def algebra_simps)
    have o: "unat (of_nat i :: u64) = i" "0 < q" using assms x by (simp_all add: unat_of_nat)
    have oj: "unat (of_nat j :: u64) = j" using assms o(2) by (simp add: unat_of_nat)
    have "unat y < 2 ^ 64" using unsigned_less [of y] by simp
    then show False using x assms unfolding e by (simp add: unat_sub_if' o oj split: if_splits)
  qed
  then show ?thesis by (auto simp: region_def)
qed

lemma header_part: "i + p \<le> 32 \<Longrightarrow> region (b + of_nat i) p \<subseteq> region b 32"
proof
  fix x
  assume i: "i + p \<le> 32" and x: "x \<in> region (b + of_nat i) p"
  define y where "y = x - b"
  have e: "x - (b + of_nat i) = y - of_nat i" by (simp add: y_def algebra_simps)
  have o: "unat (of_nat i :: u64) = i" using i by (simp add: unat_of_nat)
  have "unat (y - of_nat i) < p" using x e by (simp add: region_def)
  then have "unat y < i + p" using i by (simp add: unat_sub_if' o split: if_splits)
  then show "x \<in> region b 32" using i by (simp add: region_def y_def)
qed

lemma blk_free_cong: "(\<And>x. x \<in> region (b + 8) 4 \<Longrightarrow> m' x = m x) \<Longrightarrow> blk_free m' b = blk_free m b"
  unfolding blk_free_def using load32_cong [of "b + 8" m' m] by simp

lemma blk_free_set_free [simp]: "blk_free (set_free b f m) b = f"
  by (simp add: blk_free_def set_free_def)

lemma fields_cong:
  assumes "\<And>a. a \<in> region b 32 \<Longrightarrow> m' a = m a"
  shows "blk_size m' b = blk_size m b" "blk_free m' b = blk_free m b" "blk_next m' b = blk_next m b"
proof -
  have p: "region b 8 \<subseteq> region b 32" "region (b + 8) 4 \<subseteq> region b 32" "region (b + 16) 8 \<subseteq> region b 32"
    using header_part [of 0 8 b] header_part [of 8 4 b] header_part [of 16 8 b] by simp_all
  show "blk_size m' b = blk_size m b" "blk_next m' b = blk_next m b" "blk_free m' b = blk_free m b"
    unfolding blk_size_def blk_next_def using p assms by (auto intro!: load64_cong blk_free_cong)
qed

lemma set_field_out:
  assumes "a \<notin> region b 32"
  shows "set_size b v m a = m a" "set_free b f m a = m a" "set_next b v m a = m a"
  using assms header_part [of 0 8 b] header_part [of 8 4 b] header_part [of 16 8 b]
  by (auto simp: set_size_def set_free_def set_next_def intro!: store64_apply_out store32_apply_out)

lemma field_parts:
  "region b 8 \<inter> region (b + 8) 4 = {}" "region b 8 \<inter> region (b + 16) 8 = {}" "region (b + 8) 4 \<inter> region (b + 16) 8 = {}"
  using region_shift [of 0 8 8 4 b] region_shift [of 0 8 16 8 b] region_shift [of 8 4 16 8 b] by simp_all

lemma fields_same [simp]:
  "blk_size (set_size b v m) b = v" "blk_size (set_free b f m) b = blk_size m b" "blk_size (set_next b v m) b = blk_size m b"
  "blk_free (set_size b v m) b = blk_free m b" "blk_free (set_next b v m) b = blk_free m b"
  "blk_next (set_size b v m) b = blk_next m b" "blk_next (set_free b f m) b = blk_next m b" "blk_next (set_next b v m) b = v"
  using field_parts [of b] unfolding blk_size_def blk_next_def set_size_def set_free_def set_next_def
  by (auto intro!: load64_cong blk_free_cong store64_apply_out store32_apply_out)

lemma fields_other:
  assumes "region b 32 \<inter> region c 32 = {}"
  shows "blk_size (set_size c v m) b = blk_size m b" "blk_size (set_free c f m) b = blk_size m b"
    "blk_size (set_next c v m) b = blk_size m b" "blk_free (set_size c v m) b = blk_free m b"
    "blk_free (set_free c f m) b = blk_free m b" "blk_free (set_next c v m) b = blk_free m b"
    "blk_next (set_size c v m) b = blk_next m b" "blk_next (set_free c f m) b = blk_next m b"
    "blk_next (set_next c v m) b = blk_next m b"
  using assms by (auto intro!: fields_cong set_field_out)

section \<open>The list of blocks\<close>

fun chain :: "pmem \<Rightarrow> u64 \<Rightarrow> u64 list \<Rightarrow> bool" where
  "chain m b [] \<longleftrightarrow> b = 0"
| "chain m b (x # xs) \<longleftrightarrow> b = x \<and> x \<noteq> 0 \<and> chain m (blk_next m x) xs"

lemma chain_cong: "(\<And>x. x \<in> set xs \<Longrightarrow> blk_next m' x = blk_next m x) \<Longrightarrow> chain m' b xs = chain m b xs"
  by (induction xs arbitrary: b) auto

text \<open>A path from a block to a block, which the list may go on from.\<close>

fun path :: "pmem \<Rightarrow> u64 \<Rightarrow> u64 list \<Rightarrow> u64 \<Rightarrow> bool" where
  "path m b [] e \<longleftrightarrow> b = e"
| "path m b (x # xs) e \<longleftrightarrow> b = x \<and> x \<noteq> 0 \<and> path m (blk_next m x) xs e"

lemma chain_append: "chain m b (xs @ ys) \<longleftrightarrow> (\<exists>e. path m b xs e \<and> chain m e ys)"
  by (induction xs arbitrary: b) auto

lemma path_cong: "(\<And>x. x \<in> set xs \<Longrightarrow> blk_next m' x = blk_next m x) \<Longrightarrow> path m' b xs e = path m b xs e"
  by (induction xs arbitrary: b) auto

lemma find_fit_chain:
  "chain m b bs \<Longrightarrow> find_fit m sz b = Some (case find (\<lambda>x. blk_free m x \<and> blk_size m x \<ge> sz) bs of None \<Rightarrow> 0 | Some x \<Rightarrow> x)"
proof (induction bs arbitrary: b)
  case Nil
  then show ?case by (subst find_fit.simps) simp
next
  case (Cons x xs)
  then show ?case by (subst find_fit.simps) auto
qed

lemma find_tail_chain: "chain m b (bs @ [x]) \<Longrightarrow> find_tail m b = Some x"
proof (induction bs arbitrary: b)
  case Nil
  then show ?case by (subst find_tail.simps) simp
next
  case (Cons y ys)
  moreover have "blk_next m y \<noteq> 0" using Cons.prems by (cases ys) auto
  ultimately show ?case by (subst find_tail.simps) auto
qed

section \<open>Blocks in memory\<close>

definition block_region :: "pmem \<Rightarrow> u64 \<Rightarrow> u64 set" where
  "block_region m x = region x (32 + unat (blk_size m x))"

definition block_ok :: "pmem \<Rightarrow> u64 \<Rightarrow> bool" where
  "block_ok m x \<longleftrightarrow> 16 dvd unat x \<and> 16 dvd unat (blk_size m x) \<and> unat x + 32 + unat (blk_size m x) \<le> 2 ^ 64"

definition blocks_ok :: "pmem \<Rightarrow> u64 list \<Rightarrow> bool" where
  "blocks_ok m bs \<longleftrightarrow> distinct bs \<and> (\<forall>x \<in> set bs. block_ok m x) \<and>
     (\<forall>x \<in> set bs. \<forall>y \<in> set bs. x \<noteq> y \<longrightarrow> block_region m x \<inter> block_region m y = {})"

lemma region_mono: "i \<le> j \<Longrightarrow> region a i \<subseteq> region a j"
  by (auto simp: region_def)

lemma header_in_block: "region x 32 \<subseteq> block_region m x" "x \<in> block_region m x"
  by (auto simp: block_region_def region_def)

text \<open>A change of memory inside one block leaves the headers of the others alone.\<close>

lemma other_blocks:
  assumes "blocks_ok m bs" and "x \<in> set bs" and "y \<in> set bs" and "y \<noteq> x"
    and "\<And>a. a \<notin> block_region m x \<Longrightarrow> m' a = m a"
  shows "blk_size m' y = blk_size m y" "blk_free m' y = blk_free m y" "blk_next m' y = blk_next m y"
    "block_region m' y = block_region m y" "block_ok m' y = block_ok m y"
proof -
  have "a \<notin> block_region m x" if "a \<in> region y 32" for a
    using that assms(1-4) header_in_block(1) [of y m] unfolding blocks_ok_def by blast
  then show f: "blk_size m' y = blk_size m y" "blk_free m' y = blk_free m y" "blk_next m' y = blk_next m y"
    using assms(5) by (intro fields_cong; blast)+
  show "block_region m' y = block_region m y" "block_ok m' y = block_ok m y"
    by (simp_all add: block_region_def block_ok_def f)
qed

text \<open>Replacing a block by blocks inside it.\<close>

lemma blocks_ok_replace:
  assumes ok: "blocks_ok m (ys @ x # zs)" and out: "\<And>a. a \<notin> block_region m x \<Longrightarrow> m' a = m a"
    and xs: "distinct xs" "\<And>u. u \<in> set xs \<Longrightarrow> block_ok m' u \<and> block_region m' u \<subseteq> block_region m x"
    and dj: "\<And>u v. u \<in> set xs \<Longrightarrow> v \<in> set xs \<Longrightarrow> u \<noteq> v \<Longrightarrow> block_region m' u \<inter> block_region m' v = {}"
  shows "blocks_ok m' (ys @ xs @ zs)"
proof -
  have d: "distinct (ys @ x # zs)" using ok by (simp add: blocks_ok_def)
  have old: "block_ok m' y \<and> block_region m' y = block_region m y \<and> block_region m y \<inter> block_region m x = {}"
    if "y \<in> set (ys @ zs)" for y
  proof -
    have y: "y \<in> set (ys @ x # zs)" "y \<noteq> x" using that d by auto
    note o = other_blocks [OF ok _ y(1,2), of m', OF _ out]
    show ?thesis using y ok o(4,5) by (auto simp: blocks_ok_def)
  qed
  have new: "u \<notin> set (ys @ zs)" if "u \<in> set xs" for u
  proof
    assume "u \<in> set (ys @ zs)"
    then show False using old [of u] xs(2) [OF that] header_in_block(2) [of u m'] by blast
  qed
  have "distinct (ys @ xs @ zs)" using d xs(1) new by auto
  moreover have "block_ok m' u" if "u \<in> set (ys @ xs @ zs)" for u using that old xs(2) by auto
  moreover have "block_region m' u \<inter> block_region m' v = {}"
    if uv: "u \<in> set (ys @ xs @ zs)" "v \<in> set (ys @ xs @ zs)" "u \<noteq> v" for u v
  proof -
    consider "u \<in> set xs" "v \<in> set xs" | "u \<in> set xs" "v \<in> set (ys @ zs)" | "u \<in> set (ys @ zs)" "v \<in> set xs"
      | "u \<in> set (ys @ zs)" "v \<in> set (ys @ zs)" using uv by auto
    then show ?thesis
    proof cases
      case 1 then show ?thesis using dj uv(3) by blast
    next
      case 2 then show ?thesis using old [of v] xs(2) [of u] by blast
    next
      case 3 then show ?thesis using old [of u] xs(2) [of v] by blast
    next
      case 4 then show ?thesis using old [of u] old [of v] ok uv(3) by (auto simp: blocks_ok_def)
    qed
  qed
  ultimately show ?thesis by (simp add: blocks_ok_def)
qed

text \<open>What splitting a block writes, when it splits.\<close>

lemma split_fields:
  fixes m :: pmem and x sz :: u64
  defines "n \<equiv> x + 32 + sz" and "m' \<equiv> set_free x False (split_block x sz m)"
  assumes ok: "block_ok m x" and sz: "sz \<le> blk_size m x" "16 dvd unat sz" and big: "blk_size m x - sz > 48"
  shows "blk_size m' x = sz" "\<not> blk_free m' x" "blk_next m' x = n"
    "blk_size m' n = blk_size m x - sz - 32" "blk_free m' n" "blk_next m' n = blk_next m x"
    "unat n = unat x + 32 + unat sz" "unat (blk_size m' n) = unat (blk_size m x) - unat sz - 32"
    "a \<notin> block_region m x \<Longrightarrow> m' a = m a" "block_region m' x \<subseteq> block_region m x" "block_region m' n \<subseteq> block_region m x"
    "block_region m' x \<inter> block_region m' n = {}" "block_ok m' x" "block_ok m' n"
proof -
  have b: "unat x + 32 + unat (blk_size m x) \<le> 2 ^ 64" "unat sz \<le> unat (blk_size m x)"
    using ok sz by (simp_all add: block_ok_def word_le_nat_alt)
  have rem: "unat (blk_size m x - sz) = unat (blk_size m x) - unat sz" using sz(1) by (rule unat_sub)
  then have r: "48 < unat (blk_size m x) - unat sz" using big by (simp add: word_less_nat_alt)
  have "unat (x + 32) = unat x + 32" using b r by (subst unat_add_lem [THEN iffD1]) simp_all
  then show un: "unat n = unat x + 32 + unat sz"
    unfolding n_def using b r by (subst unat_add_lem [THEN iffD1]) simp_all
  have dj: "region x 32 \<inter> region n 32 = {}" "region n 32 \<inter> region x 32 = {}"
    using b r un by (intro region_disjoint; simp)+
  have nb: "\<not> blk_size m x - sz \<le> 48" using big by simp
  have e: "m' = set_free x False (set_next x n (set_size x sz (set_next n (blk_next m x)
      (set_free n True (set_size n (blk_size m x - sz - 32) m)))))"
    unfolding m'_def split_block_def
    by (simp add: Let_def nb n_def [symmetric] fields_other [OF dj(1)] add.assoc [symmetric])
  show f: "blk_size m' x = sz" "\<not> blk_free m' x" "blk_next m' x = n" "blk_size m' n = blk_size m x - sz - 32"
    "blk_free m' n" "blk_next m' n = blk_next m x"
    by (simp_all add: e fields_other [OF dj(1)] fields_other [OF dj(2)])
  show sn: "unat (blk_size m' n) = unat (blk_size m x) - unat sz - 32"
    unfolding f(4) using rem r by (subst unat_sub) (simp_all add: word_le_nat_alt)
  show rx: "block_region m' x \<subseteq> block_region m x" unfolding block_region_def f(1) using b by (intro region_mono) simp
  show rn: "block_region m' n \<subseteq> block_region m x"
    using un sn b r by (auto simp: block_region_def region_interval)
  show "block_region m' x \<inter> block_region m' n = {}"
    unfolding block_region_def using un sn b r by (intro region_disjoint) (simp_all add: f(1))
  show "m' a = m a" if "a \<notin> block_region m x"
  proof -
    have "a \<notin> region x 32" "a \<notin> region n 32"
      using that header_in_block(1) [of x m] header_in_block(1) [of n m'] rn by blast+
    then show ?thesis by (simp add: e set_field_out)
  qed
  show "block_ok m' x" using ok sz b by (simp add: block_ok_def f(1))
  have "16 dvd unat (blk_size m x) - unat sz - 32" using ok sz(2) by (auto simp: block_ok_def intro!: dvd_diff_nat)
  then show "block_ok m' n" using ok sz(2) b r by (simp add: block_ok_def un sn)
qed

text \<open>Taking a free block that is large enough, with or without a split.\<close>

lemma take_block_mem:
  fixes m :: pmem and x sz :: u64
  defines "m' \<equiv> set_free x False (split_block x sz m)"
  assumes ch: "chain m h bs" and ok: "blocks_ok m bs" and x: "x \<in> set bs"
    and sz: "sz \<le> blk_size m x" "16 dvd unat sz"
  obtains bs' where "chain m' h bs'" "blocks_ok m' bs'" "set bs \<subseteq> set bs'" "\<not> blk_free m' x" "sz \<le> blk_size m' x"
    "(\<Union>y \<in> set bs'. block_region m' y) \<subseteq> (\<Union>y \<in> set bs. block_region m y)"
    "\<And>a. a \<notin> block_region m x \<Longrightarrow> m' a = m a"
proof -
  obtain ys zs where bs: "bs = ys @ x # zs" using x by (auto simp: in_set_conv_decomp)
  have okx: "block_ok m x" and d: "distinct bs" using ok x by (simp_all add: blocks_ok_def)
  obtain e where e: "path m h ys e" "chain m e (x # zs)" using ch unfolding bs chain_append by blast
  have keep: "path m' h ys e" "chain m' (blk_next m x) zs" if out: "\<And>a. a \<notin> block_region m x \<Longrightarrow> m' a = m a"
  proof -
    have "blk_next m' y = blk_next m y" if "y \<in> set (ys @ zs)" for y
    proof -
      have "y \<in> set bs" "y \<noteq> x" using that d by (auto simp: bs)
      then show ?thesis using other_blocks(3) [OF ok x, of y m'] out by blast
    qed
    then have "path m' h ys e = path m h ys e" "chain m' (blk_next m x) zs = chain m (blk_next m x) zs"
      by (auto intro!: path_cong chain_cong)
    then show "path m' h ys e" "chain m' (blk_next m x) zs" using e by simp_all
  qed
  show thesis
  proof (cases "blk_size m x - sz \<le> 48")
    case True
    have m': "m' = set_free x False m" using True by (simp add: m'_def split_block_def Let_def)
    have out: "m' a = m a" if "a \<notin> block_region m x" for a
      using that header_in_block(1) [of x m] unfolding m' by (subst set_field_out) blast+
    have r: "block_region m' x = block_region m x" by (simp add: block_region_def m')
    have "blocks_ok m' (ys @ [x] @ zs)"
      using ok okx unfolding bs by (intro blocks_ok_replace [OF _ out]) (simp_all add: r, simp add: m' block_ok_def)
    moreover have "chain m' h bs" unfolding bs chain_append using keep [OF out] e by (auto simp: m')
    moreover have "block_region m' y = block_region m y" if "y \<in> set bs" for y
      using other_blocks(4) [OF ok x that, of m'] out r by blast
    ultimately show thesis using out sz(1) by (intro that [of bs]) (auto simp: bs m')
  next
    case False
    then have big: "blk_size m x - sz > 48" by simp
    note f = split_fields [OF okx sz big, folded m'_def]
    let ?n = "x + 32 + sz"
    have out: "m' a = m a" if "a \<notin> block_region m x" for a using f(9) that by blast
    have xn: "x \<noteq> ?n" using f(7) by (metis add_eq_self_zero add_is_0 zero_neq_numeral add.assoc)
    have n0: "?n \<noteq> 0" using f(7) by (metis add_is_0 unat_0 zero_neq_numeral)
    have "blocks_ok m' (ys @ [x, ?n] @ zs)"
      using ok f xn unfolding bs by (intro blocks_ok_replace [OF _ out]) auto
    moreover have "chain m' h (ys @ [x, ?n] @ zs)"
      unfolding chain_append using keep [OF out] e f(3,6) n0 by auto
    moreover have "(\<Union>y \<in> set (ys @ [x, ?n] @ zs). block_region m' y) \<subseteq> (\<Union>y \<in> set bs. block_region m y)"
    proof -
      have "block_region m' y = block_region m y" if "y \<in> set (ys @ zs)" for y
      proof -
        have "y \<in> set bs" "y \<noteq> x" using that d by (auto simp: bs)
        then show ?thesis using other_blocks(4) [OF ok x, of y m'] out by blast
      qed
      then show ?thesis using f(10,11) by (auto simp: bs)
    qed
    ultimately show thesis using out f(1,2) by (intro that [of "ys @ [x, ?n] @ zs"]) (auto simp: bs)
  qed
qed

section \<open>Room for a new block\<close>

lemma pmm_alloc_pages_frame:
  assumes "pmm_inv s"
  shows "mem_only s (snd (pmm_alloc_pages count s)) \<and> pmm_frame s (snd (pmm_alloc_pages count s))"
proof -
  define f where "f = (\<lambda>j (t :: 'a pmm_scheme). let t' = bitmap_set j t in t'\<lparr>free_pages := free_pages t' - 1\<rparr>)"
  have run: "mem_only s (for_range q (q + count) f s) \<and> pmm_frame s (for_range q (q + count) f s)"
    if "unat q + unat count \<le> unat (total_pages s)" for q
  proof -
    have qc: "unat (q + count) = unat q + unat count"
      using that unat_u64_less [of "total_pages s"] by (simp add: unat_word_ariths)
    show ?thesis
    proof (rule for_range_invariant [where I = "\<lambda>_ t. mem_only s t \<and> pmm_frame s t"])
      fix k and t :: "'a pmm_scheme"
      assume k: "q \<le> k" "k < q + count" and t: "mem_only s t \<and> pmm_frame s t"
      have g: "bitmap_geom t" using pmm_inv_geom [OF assms] pmm_frame_geom t by blast
      have "unat k < unat (total_pages t)" using k(2) that qc t by (simp add: word_less_nat_alt pmm_frame_def)
      then have "pmm_frame t (f k t)" using pmm_frame_bitmap(1) [OF g] by (simp add: f_def Let_def)
      moreover have "mem_only t (f k t)" by (simp add: f_def bitmap_set_def Let_def)
      ultimately show "mem_only s (f k t) \<and> pmm_frame s (f k t)"
        using t mem_only_trans pmm_frame_trans by blast
    qed (use qc in \<open>auto simp: word_le_nat_alt\<close>)
  qed
  show ?thesis
    using run [unfolded f_def] pmm_find_run_spec [where cnt = count and tot = "total_pages s" and used = "\<lambda>j. bitmap_test j s" and i = 1]
    by (auto simp: pmm_alloc_pages_def not_less split: option.splits)
qed

lemma align_up_unat:
  assumes "unat v + 2 ^ k \<le> 2 ^ 64" and "k < 64"
  shows "unat (align_up v (2 ^ k)) = 2 ^ k * ((unat v + 2 ^ k - 1) div 2 ^ k)"
proof -
  have m: "(2 :: u64) ^ k - 1 = mask k" by (simp add: mask_eq_exp_minus_1)
  have "(2 :: nat) ^ k < 2 ^ 64" using assms(2) by (intro power_strict_increasing) simp_all
  then have "unat (of_nat (2 ^ k) :: u64) = 2 ^ k" by (rule unat_of_nat_u64)
  then have "unat (2 ^ k :: u64) = 2 ^ k" by simp
  then have um: "unat (mask k :: u64) = 2 ^ k - 1" using assms(2) by (simp add: m [symmetric] unat_minus_one)
  have "unat (v + mask k) = unat v + (2 ^ k - 1)"
    using assms(1) um by (subst unat_add_lem [THEN iffD1]) auto
  moreover have "align_up v (2 ^ k) = (v + mask k) AND NOT (mask k)"
    unfolding align_up_def m by (simp add: m add_diff_eq [symmetric])
  ultimately show ?thesis using and_not_mask_dvd [of "v + mask k" k]
    by (simp add: minus_mod_eq_mult_div)
qed

lemma align_16:
  assumes "unat sz + 16 \<le> 2 ^ 64"
  shows "16 dvd unat (align_up sz 16)" "sz \<le> align_up sz 16" "unat (align_up sz 16) \<le> unat sz + 15"
proof -
  have u: "unat (align_up sz 16) = 16 * ((unat sz + 15) div 16)" using align_up_unat [of sz 4] assms by simp
  show "16 dvd unat (align_up sz 16)" unfolding u by simp
  show "unat (align_up sz 16) \<le> unat sz + 15" unfolding u by linarith
  have "unat sz \<le> 16 * ((unat sz + 15) div 16)" by linarith
  then show "sz \<le> align_up sz 16" by (simp add: word_le_nat_alt u)
qed

lemma in_frame_region: "n < 2 ^ 52 \<Longrightarrow> x \<in> frame_region n \<longleftrightarrow> unat x div 4096 = n"
proof -
  assume n: "n < 2 ^ 52"
  have "x \<in> frame_region n \<longleftrightarrow> 4096 * n \<le> unat x \<and> unat x < 4096 * n + 4096"
    using n by (simp add: frame_region_def region_interval unat_page_addr)
  also have "\<dots> \<longleftrightarrow> unat x div 4096 = n" by linarith
  finally show ?thesis .
qed

lemma in_run_region:
  assumes "i + c \<le> 2 ^ 52" "0 < c" and "x \<in> region (page_addr i) (4096 * c)"
  shows "unat x div 4096 \<in> {i..<i + c}" "x \<in> frame_region (unat x div 4096)"
proof -
  have "4096 * i \<le> unat x" "unat x < 4096 * i + 4096 * c"
    using assms by (auto simp: region_interval unat_page_addr)
  then show r: "unat x div 4096 \<in> {i..<i + c}" by (simp add: less_eq_div_iff_mult_less_eq div_less_iff_less_mult algebra_simps)
  then show "x \<in> frame_region (unat x div 4096)" using assms(1) by (subst in_frame_region) auto
qed

section \<open>The invariant\<close>

text \<open>A set of addresses that the frame allocator will not hand out or write to.\<close>

definition heap_owned :: "'a pmm_scheme \<Rightarrow> u64 set \<Rightarrow> bool" where
  "heap_owned s R \<longleftrightarrow> R \<inter> bitmap_region s = {} \<and> (\<forall>n \<in> free_set s. R \<inter> frame_region n = {})"

definition heap_inv :: "'a heap_scheme \<Rightarrow> u64 list \<Rightarrow> bool" where
  "heap_inv s bs \<longleftrightarrow> pmm_inv s \<and> chain (mem s) (heap_head s) bs \<and> blocks_ok (mem s) bs \<and>
     (\<forall>x \<in> set bs. heap_owned s (block_region (mem s) x))"

lemma heap_owned_mono: "heap_owned s R \<Longrightarrow> R' \<subseteq> R \<Longrightarrow> heap_owned s R'"
  by (auto simp: heap_owned_def)

text \<open>A write to memory the heap owns keeps the part of the invariant that is about frames.\<close>

lemma heap_owned_write:
  assumes "pmm_inv s" and "\<And>a. m a \<noteq> mem s a \<Longrightarrow> a \<notin> bitmap_region s"
  shows "pmm_inv (s\<lparr>mem := m\<rparr>)" "free_set (s\<lparr>mem := m\<rparr>) = free_set s" "heap_owned (s\<lparr>mem := m\<rparr>) R = heap_owned s R"
proof -
  have "m a = mem s a" if "a \<in> bitmap_region s" for a using assms(2) that by blast
  then show f: "pmm_inv (s\<lparr>mem := m\<rparr>)" "free_set (s\<lparr>mem := m\<rparr>) = free_set s"
    using pmm_mem_update [OF pmm_inv_geom [OF assms(1)], of m] assms(1) by simp_all
  show "heap_owned (s\<lparr>mem := m\<rparr>) R = heap_owned s R" by (simp add: heap_owned_def f bitmap_region_def)
qed

lemma take_block_inv:
  fixes s :: "'a heap_scheme"
  assumes inv: "heap_inv s bs" and x: "x \<in> set bs" and sz: "sz \<le> blk_size (mem s) x" "16 dvd unat sz"
  obtains s' bs' where "take_block x sz s = Ok (x + 32) s'" "heap_inv s' bs'" "set bs \<subseteq> set bs'"
    "\<not> blk_free (mem s') x" "sz \<le> blk_size (mem s') x" "\<And>a. a \<notin> block_region (mem s) x \<Longrightarrow> mem s' a = mem s a"
    "\<And>y. y \<in> set bs \<Longrightarrow> y \<noteq> x \<Longrightarrow> blk_size (mem s') y = blk_size (mem s) y \<and> blk_free (mem s') y = blk_free (mem s) y"
proof -
  have h: "chain (mem s) (heap_head s) bs" "blocks_ok (mem s) bs" "pmm_inv s"
    "\<forall>x \<in> set bs. heap_owned s (block_region (mem s) x)" using inv by (simp_all add: heap_inv_def)
  define m' where "m' = set_free x False (split_block x sz (mem s))"
  obtain bs' where b: "chain m' (heap_head s) bs'" "blocks_ok m' bs'" "set bs \<subseteq> set bs'" "\<not> blk_free m' x" "sz \<le> blk_size m' x"
    "(\<Union>y \<in> set bs'. block_region m' y) \<subseteq> (\<Union>y \<in> set bs. block_region (mem s) y)"
    "\<And>a. a \<notin> block_region (mem s) x \<Longrightarrow> m' a = mem s a"
    unfolding m'_def by (rule take_block_mem [OF h(1,2) x sz]) blast
  have "a \<notin> bitmap_region s" if "m' a \<noteq> mem s a" for a
    using that b(7) [of a] h(4) x unfolding heap_owned_def by blast
  note w = heap_owned_write [OF h(3) this]
  have "heap_owned s (block_region m' y)" if "y \<in> set bs'" for y
    using that b(6) h(4) unfolding heap_owned_def by blast
  then have "heap_inv (s\<lparr>mem := m'\<rparr>) bs'" using b(1,2) w by (simp add: heap_inv_def)
  moreover have "blk_size m' y = blk_size (mem s) y \<and> blk_free m' y = blk_free (mem s) y" if "y \<in> set bs" "y \<noteq> x" for y
    using other_blocks(1,2) [OF h(2) x that, of m'] b(7) by blast
  ultimately show thesis using b by (intro that [of "s\<lparr>mem := m'\<rparr>" bs']) (simp_all add: take_block_def m'_def)
qed

section \<open>Growing the heap\<close>

lemma blocks_ok_cong:
  assumes "\<And>y. y \<in> set bs \<Longrightarrow> blk_size m' y = blk_size m y"
  shows "blocks_ok m' bs = blocks_ok m bs"
  using assms by (auto simp: blocks_ok_def block_ok_def block_region_def)

lemma blocks_ok_add:
  assumes "blocks_ok m bs" and "block_ok m b" and "\<And>y. y \<in> set bs \<Longrightarrow> block_region m y \<inter> block_region m b = {}"
  shows "blocks_ok m (bs @ [b])" "b \<notin> set bs"
proof -
  show "b \<notin> set bs" using assms(3) [of b] header_in_block(2) [of b m] by blast
  then show "blocks_ok m (bs @ [b])" using assms by (auto simp: blocks_ok_def)
qed

text \<open>Linking a fresh block behind the last one.\<close>

definition fresh_block :: "u64 \<Rightarrow> u64 \<Rightarrow> pmem \<Rightarrow> pmem" where
  "fresh_block b sz m = set_next b 0 (set_free b True (set_size b sz m))"

lemma fresh_block_fields [simp]:
  "blk_size (fresh_block b sz m) b = sz" "blk_free (fresh_block b sz m) b" "blk_next (fresh_block b sz m) b = 0"
  by (simp_all add: fresh_block_def)

lemma fresh_block_out: "a \<notin> region b 32 \<Longrightarrow> fresh_block b sz m a = m a"
  by (simp add: fresh_block_def set_field_out)

lemma link_block:
  assumes ch: "chain m h bs" and ok: "blocks_ok m bs" and b: "b \<noteq> 0" "blk_next m b = 0"
    and dj: "\<And>y. y \<in> set bs \<Longrightarrow> region y 32 \<inter> region b 32 = {}"
  defines "m' \<equiv> (if bs = [] then m else set_next (last bs) b m)"
  shows "chain m' (if bs = [] then b else h) (bs @ [b])"
    "y \<in> set (bs @ [b]) \<Longrightarrow> blk_size m' y = blk_size m y" "y \<in> set (bs @ [b]) \<Longrightarrow> blk_free m' y = blk_free m y"
    "a \<notin> \<Union> ((\<lambda>y. region y 32) ` set bs) \<Longrightarrow> m' a = m a"
proof -
  show "a \<notin> \<Union> ((\<lambda>y. region y 32) ` set bs) \<Longrightarrow> m' a = m a"
    by (cases "bs = []") (auto simp: m'_def intro!: set_field_out)
  have o: "region y 32 \<inter> region (last bs) 32 = {}" if "y \<in> set (bs @ [b])" "y \<noteq> last bs" "bs \<noteq> []" for y
  proof (cases "y = b")
    case True
    then show ?thesis using dj [of "last bs"] that(3) by auto
  next
    case False
    then have "block_region m y \<inter> block_region m (last bs) = {}" using ok that by (auto simp: blocks_ok_def)
    then show ?thesis using header_in_block(1) [of _ m] by blast
  qed
  show f: "blk_size m' y = blk_size m y" "blk_free m' y = blk_free m y" if "y \<in> set (bs @ [b])" for y
    using fields_other(3,6) [OF o [OF that]] by (cases "bs = []"; cases "y = last bs"; simp add: m'_def)+
  show "chain m' (if bs = [] then b else h) (bs @ [b])"
  proof (cases bs rule: rev_cases)
    case Nil
    then show ?thesis using b by (simp add: m'_def)
  next
    case (snoc ys t)
    have d: "distinct bs" using ok by (simp add: blocks_ok_def)
    obtain e where e: "path m h ys e" "chain m e [t]" using ch unfolding snoc chain_append by blast
    have "blk_next m' y = blk_next m y" if "y \<in> set ys \<or> y = b" for y
    proof -
      have "b \<in> region b 32" by (simp add: region_def)
      then have "y \<noteq> t" using that d dj [of t] snoc by auto
      then show ?thesis using fields_other(9) [OF o [of y]] that by (auto simp: m'_def snoc)
    qed
    then have "path m' h ys e" "blk_next m' b = 0" using e(1) b(2) path_cong [of ys m' m] by auto
    moreover have "blk_next m' t = b" by (simp add: m'_def snoc)
    ultimately show ?thesis using e(2) b(1) snoc chain_append [of m' h ys "[t, b]"] by auto
  qed
qed

text \<open>The frames that the allocator hands out for a new block.\<close>

lemma fresh_run:
  fixes s :: "'a heap_scheme"
  assumes inv: "heap_inv s bs" and "count \<noteq> 0"
  obtains (none) "pmm_alloc_pages count s = (0, s)" "\<not> (\<exists>i \<ge> 1. free_run s i (unat count))"
  | (some) i s1 where "pmm_alloc_pages count s = (page_addr i, s1)" "1 \<le> i" "i + unat count \<le> 2 ^ 52"
      "pmm_inv s1" "mem_only s s1" "pmm_frame s s1" "heap_owned s1 (region (page_addr i) (4096 * unat count))"
      "\<And>R. heap_owned s R \<Longrightarrow> heap_owned s1 R \<and> R \<inter> region (page_addr i) (4096 * unat count) = {}"
proof -
  have p: "pmm_inv s" using inv by (simp add: heap_inv_def)
  note spec = pmm_alloc_pages_spec [OF p assms(2)]
  note frame = pmm_alloc_pages_frame [OF p, of count]
  show thesis
  proof (cases "\<exists>i \<ge> 1. free_run s i (unat count)")
    case False
    then show thesis using spec(2) none by blast
  next
    case True
    then obtain s1 i where s1: "pmm_alloc_pages count s = (page_addr i, s1)"
      "i = (LEAST i. 1 \<le> i \<and> free_run s i (unat count))" "free_set s1 = free_set s - {i..<i + unat count}" "pmm_inv s1"
      using spec(1) by blast
    have i: "1 \<le> i" "free_run s i (unat count)" using LeastI_ex [OF True] s1(2) by auto
    have c: "0 < unat count" using assms(2) by (simp add: unat_gt_0)
    have "i + unat count - 1 \<in> {i..<i + unat count}" using c by auto
    then have "i + unat count - 1 < unat (total_pages s)" using i(2) free_set_bound by (fastforce simp: free_run_def)
    moreover have "unat (total_pages s) < 2 ^ 52" using p by (simp add: pmm_inv_def)
    ultimately have b: "i + unat count \<le> 2 ^ 52" by linarith
    let ?R = "region (page_addr i) (4096 * unat count)"
    have run: "\<exists>n \<in> free_set s. n \<in> {i..<i + unat count} \<and> a \<in> frame_region n" if "a \<in> ?R" for a
      using in_run_region [OF b c that] i(2) by (auto simp: free_run_def)
    have f: "mem_only s s1" "pmm_frame s s1" using frame s1(1) by simp_all
    have bm: "bitmap_region s1 = bitmap_region s" using mem_only_fields(4) [OF f(1)] .
    have "a \<notin> frame_region k" if "a \<in> ?R" "k \<in> free_set s1" for a k
    proof -
      have "unat a div 4096 \<in> {i..<i + unat count}" using in_run_region(1) [OF b c that(1)] .
      moreover have "k < 2 ^ 52" using that(2) s1(4) free_set_bound [of k s1] by (auto simp: pmm_inv_def)
      ultimately show ?thesis using that(2) s1(3) by (auto simp: in_frame_region)
    qed
    moreover have "?R \<inter> bitmap_region s = {}" using run p by (fastforce simp: pmm_inv_def)
    ultimately have "heap_owned s1 ?R" by (auto simp: heap_owned_def bm)
    moreover have "heap_owned s1 R \<and> R \<inter> ?R = {}" if "heap_owned s R" for R
      using that run s1(3) by (fastforce simp: heap_owned_def bm)
    ultimately show thesis using some [OF s1(1) i(1) b s1(4) f] by blast
  qed
qed

text \<open>The number of frames for a block of a given size.\<close>

definition heap_frames :: "u64 \<Rightarrow> nat" where
  "heap_frames sz = unat (align_up (sz + 32) 4096 div 4096)"

lemma expand_size:
  assumes "unat sz + 4128 \<le> 2 ^ 64"
  defines "tot \<equiv> align_up (sz + 32) 4096"
  shows "tot div 4096 \<noteq> 0" "4096 * unat (tot div 4096) = unat tot" "unat (tot - 32) = unat tot - 32"
    "sz \<le> tot - 32" "16 dvd unat tot" "32 \<le> unat tot"
proof -
  have "unat (sz + 32) = unat sz + 32" using assms(1) by (subst unat_add_lem [THEN iffD1]) simp_all
  then have u: "unat tot = 4096 * ((unat sz + 32 + 4095) div 4096)"
    using align_up_unat [of "sz + 32" 12] assms(1) by (simp add: tot_def)
  have g: "unat sz + 32 \<le> unat tot" unfolding u by linarith
  show d: "4096 * unat (tot div 4096) = unat tot" by (simp add: unat_div u)
  show "tot div 4096 \<noteq> 0"
  proof
    assume "tot div 4096 = 0"
    then show False using d g by simp
  qed
  show t: "unat (tot - 32) = unat tot - 32" using g by (subst unat_sub) (simp_all add: word_le_nat_alt)
  show "sz \<le> tot - 32" using t g by (simp add: word_le_nat_alt)
  have "unat tot = 16 * (256 * ((unat sz + 32 + 4095) div 4096))" unfolding u by simp
  then show "16 dvd unat tot" by (metis dvd_triv_left)
  show "32 \<le> unat tot" using g by simp
qed

text \<open>A fresh block outside all others, at the end of the list.\<close>

lemma append_block:
  fixes m m1 :: pmem
  assumes ch: "chain m h bs" and ok: "blocks_ok m bs" and agree': "\<forall>y \<in> set bs. \<forall>a \<in> block_region m y. m1 a = m a"
    and dj': "\<forall>y \<in> set bs. block_region m y \<inter> region b (32 + unat sz) = {}"
    and b: "b \<noteq> 0" "16 dvd unat b" "16 dvd unat sz" "unat b + 32 + unat sz \<le> 2 ^ 64"
  defines "m2 \<equiv> fresh_block b sz m1"
  defines "m3 \<equiv> (if bs = [] then m2 else set_next (last bs) b m2)"
  shows "chain m3 (if bs = [] then b else h) (bs @ [b])" "blocks_ok m3 (bs @ [b])" "b \<notin> set bs"
    "y \<in> set bs \<Longrightarrow> blk_size m3 y = blk_size m y \<and> blk_free m3 y = blk_free m y" "blk_size m3 b = sz" "blk_free m3 b"
    "y \<in> set bs \<Longrightarrow> a \<in> block_region m y \<Longrightarrow> a \<notin> region y 32 \<Longrightarrow> m3 a = m a"
    "m3 a \<noteq> m1 a \<Longrightarrow> a \<in> region b (32 + unat sz) \<or> (\<exists>y \<in> set bs. a \<in> block_region m y)"
    "bs \<noteq> [] \<Longrightarrow> find_tail m2 h = Some (last bs)"
proof -
  let ?R = "region b (32 + unat sz)"
  have agree: "m1 a = m a" if "y \<in> set bs" "a \<in> block_region m y" for y a using agree' that by blast
  have dj: "block_region m y \<inter> ?R = {}" if "y \<in> set bs" for y using dj' that by blast
  have hR: "region b 32 \<subseteq> ?R" by (rule region_mono) simp
  have f: "blk_next m2 b = 0" "blk_size m2 b = sz" "blk_free m2 b" "block_region m2 b = ?R"
    by (simp_all add: m2_def block_region_def)
  have m2: "m2 a = m a" if "y \<in> set bs" "a \<in> block_region m y" for y a
  proof -
    have "a \<notin> region b 32" using dj [OF that(1)] that(2) hR by blast
    then show ?thesis using agree [OF that] by (simp add: m2_def fresh_block_out)
  qed
  have f2: "blk_size m2 y = blk_size m y" "blk_free m2 y = blk_free m y" "blk_next m2 y = blk_next m y" if "y \<in> set bs" for y
    using m2 [OF that] header_in_block(1) [of y m] by (intro fields_cong; blast)+
  have r2: "block_region m2 y = block_region m y" if "y \<in> set bs" for y using f2(1) [OF that] by (simp add: block_region_def)
  have ch2: "chain m2 h bs" using ch chain_cong [of bs m2 m] f2(3) by simp
  have ok2: "blocks_ok m2 bs" using ok blocks_ok_cong [of bs m2 m] f2(1) by simp
  have hdj: "region y 32 \<inter> region b 32 = {}" if "y \<in> set bs" for y
    using dj [OF that] hR header_in_block(1) [of y m] by blast
  note l = link_block [OF ch2 ok2 b(1) f(1) hdj, folded m3_def]
  show "chain m3 (if bs = [] then b else h) (bs @ [b])" by (rule l(1))
  have "block_ok m2 b" using b by (simp add: block_ok_def f)
  then have "blocks_ok m2 (bs @ [b])" and nb: "b \<notin> set bs" using blocks_ok_add [OF ok2, of b] dj by (auto simp: r2 f(4))
  then show "blocks_ok m3 (bs @ [b])" "b \<notin> set bs" using blocks_ok_cong [of "bs @ [b]" m3 m2] l(2) by simp_all
  show "blk_size m3 b = sz" "blk_free m3 b" using l(2,3) f(2,3) by simp_all
  show "y \<in> set bs \<Longrightarrow> blk_size m3 y = blk_size m y \<and> blk_free m3 y = blk_free m y" using l(2,3) f2 by simp
  show "bs \<noteq> [] \<Longrightarrow> find_tail m2 h = Some (last bs)"
    using ch2 find_tail_chain [of m2 h "butlast bs" "last bs"] by simp
  show "m3 a = m a" if "y \<in> set bs" "a \<in> block_region m y" "a \<notin> region y 32"
  proof -
    have "a \<notin> region z 32" if z: "z \<in> set bs" for z
    proof (cases "z = y")
      case False
      then have "block_region m z \<inter> block_region m y = {}" using ok z \<open>y \<in> set bs\<close> by (auto simp: blocks_ok_def)
      then show ?thesis using \<open>a \<in> block_region m y\<close> header_in_block(1) [of z m] by blast
    qed (use \<open>a \<notin> region y 32\<close> in simp)
    then show ?thesis using l(4) [of a] m2 [OF that(1,2)] by simp
  qed
  show "a \<in> ?R \<or> (\<exists>y \<in> set bs. a \<in> block_region m y)" if "m3 a \<noteq> m1 a"
  proof (rule ccontr)
    assume "\<not> (a \<in> ?R \<or> (\<exists>y \<in> set bs. a \<in> block_region m y))"
    then have "a \<notin> region b 32" "a \<notin> \<Union> ((\<lambda>y. region y 32) ` set bs)"
      using hR header_in_block(1) [of _ m] by blast+
    then show False using that l(4) by (simp add: m2_def fresh_block_out)
  qed
qed

lemma expand_heap_cases:
  fixes s :: "'a heap_scheme"
  assumes inv: "heap_inv s bs" and sz: "unat sz + 4128 \<le> 2 ^ 64"
  obtains (none) "expand_heap sz s = Ok 0 s" "\<not> (\<exists>i \<ge> 1. free_run s i (heap_frames sz))"
  | (some) b s' where "expand_heap sz s = Ok b s'" "b \<noteq> 0" "b \<notin> set bs" "heap_inv s' (bs @ [b])"
      "blk_free (mem s') b" "sz \<le> blk_size (mem s') b"
      "\<And>y. y \<in> set bs \<Longrightarrow> blk_size (mem s') y = blk_size (mem s) y \<and> blk_free (mem s') y = blk_free (mem s) y"
      "\<And>y a. y \<in> set bs \<Longrightarrow> a \<in> block_region (mem s) y \<Longrightarrow> a \<notin> region y 32 \<Longrightarrow> mem s' a = mem s a"
proof -
  have h: "chain (mem s) (heap_head s) bs" "blocks_ok (mem s) bs"
    "\<And>x. x \<in> set bs \<Longrightarrow> heap_owned s (block_region (mem s) x)" using inv by (simp_all add: heap_inv_def)
  define tot where "tot = align_up (sz + 32) 4096"
  note t = expand_size [OF sz, folded tot_def]
  have e: "expand_heap sz s = (case pmm_alloc_pages (tot div 4096) s of (block, s1) \<Rightarrow>
      if block = 0 then Ok 0 s1
      else let s2 = s1\<lparr>mem := fresh_block block (tot - 32) (mem s1)\<rparr>
           in if heap_head s2 = 0 then Ok block (s2\<lparr>heap_head := block\<rparr>)
              else (case find_tail (mem s2) (heap_head s2) of None \<Rightarrow> Hang
                | Some tail \<Rightarrow> Ok block (s2\<lparr>mem := set_next tail block (mem s2)\<rparr>)))"
    by (simp add: expand_heap_def tot_def Let_def fresh_block_def split: prod.split)
  show thesis
  proof (cases rule: fresh_run [OF inv t(1)])
    case 1
    then show thesis using none by (simp add: e heap_frames_def tot_def)
  next
    case run: (2 i s1)
    define b where "b = page_addr i"
    have ub: "unat b = 4096 * i" using run(2,3) t(1) by (simp add: b_def unat_page_addr unat_gt_0 [symmetric])
    have b0: "b \<noteq> 0" using ub run(2) by auto
    have R: "region b (32 + unat (tot - 32)) = region (page_addr i) (4096 * unat (tot div 4096))" by (simp add: b_def t)
    have own: "heap_owned s1 (block_region (mem s) y)" "block_region (mem s) y \<inter> region b (32 + unat (tot - 32)) = {}"
      if "y \<in> set bs" for y using run(8) [OF h(3) [OF that]] by (simp_all add: R)
    have m1: "\<forall>y \<in> set bs. \<forall>a \<in> block_region (mem s) y. mem s1 a = mem s a"
      using run(6) h(3) by (fastforce simp: pmm_frame_def heap_owned_def)
    have dj: "\<forall>y \<in> set bs. block_region (mem s) y \<inter> region b (32 + unat (tot - 32)) = {}" using own(2) by blast
    have hd: "heap_head s1 = heap_head s" using run(5) by (auto simp: mem_only_def)
    have al: "16 dvd unat b" "16 dvd unat (tot - 32)" "unat b + 32 + unat (tot - 32) \<le> 2 ^ 64"
      using t run(3) by (auto simp: ub intro: dvd_mult2 dvd_diff_nat)
    define m2 where "m2 = fresh_block b (tot - 32) (mem s1)"
    define m3 where "m3 = (if bs = [] then m2 else set_next (last bs) b m2)"
    note a = append_block [OF h(1,2) m1 dj b0 al, folded m2_def m3_def]
    have hn: "heap_head s = 0 \<longleftrightarrow> bs = []" using h(1) by (cases bs) auto
    define s' where "s' = s1\<lparr>mem := m3, heap_head := (if bs = [] then b else heap_head s)\<rparr>"
    have ex: "expand_heap sz s = Ok b s'"
      using b0 a(9) by (cases "bs = []") (simp_all add: e run(1) b_def [symmetric] Let_def hd hn m2_def [symmetric] s'_def m3_def)
    have "x \<notin> bitmap_region s1" if "m3 x \<noteq> mem s1 x" for x
      using a(8) [OF that] own(1) run(7) by (auto simp: heap_owned_def R)
    note w = heap_owned_write [OF run(4) this]
    have s': "pmm_inv s' = pmm_inv (s1\<lparr>mem := m3\<rparr>)" "heap_owned s' Q = heap_owned (s1\<lparr>mem := m3\<rparr>) Q" for Q
      by (simp_all add: s'_def pmm_inv_def heap_owned_def free_set_def page_used_def bitmap_region_def)
    have "heap_owned s' (block_region m3 y)" if "y \<in> set (bs @ [b])" for y
      using that own(1) run(7) a(4,5) by (auto simp: s' w block_region_def R)
    then have "heap_inv s' (bs @ [b])" using a(1,2) w by (simp add: heap_inv_def s') (simp add: s'_def hd)
    then show thesis using some [OF ex b0 a(3)] a(4-7) t(4) by (simp add: s'_def)
  qed
qed

section \<open>Allocation\<close>

text \<open>A block that is in use stays in use, with its size and its contents.\<close>

definition keeps_block :: "pmem \<Rightarrow> pmem \<Rightarrow> u64 \<Rightarrow> bool" where
  "keeps_block m m' y \<longleftrightarrow> \<not> blk_free m' y \<and> blk_size m' y = blk_size m y \<and>
     (\<forall>a \<in> block_region m y. a \<notin> region y 32 \<longrightarrow> m' a = m a)"

lemma take_free_block:
  fixes s :: "'a heap_scheme"
  assumes inv: "heap_inv s bs" and x: "x \<in> set bs" "blk_free (mem s) x" and sz: "sz \<le> blk_size (mem s) x" "16 dvd unat sz"
  obtains s' bs' where "take_block x sz s = Ok (x + 32) s'" "heap_inv s' bs'" "set bs \<subseteq> set bs'"
    "\<not> blk_free (mem s') x" "sz \<le> blk_size (mem s') x"
    "\<And>y. y \<in> set bs \<Longrightarrow> \<not> blk_free (mem s) y \<Longrightarrow> y \<noteq> x \<and> keeps_block (mem s) (mem s') y"
proof (rule take_block_inv [OF inv x(1) sz])
  fix s' bs'
  assume t: "take_block x sz s = Ok (x + 32) s'" "heap_inv s' bs'" "set bs \<subseteq> set bs'"
    "\<not> blk_free (mem s') x" "sz \<le> blk_size (mem s') x" "\<And>a. a \<notin> block_region (mem s) x \<Longrightarrow> mem s' a = mem s a"
    "\<And>y. y \<in> set bs \<Longrightarrow> y \<noteq> x \<Longrightarrow> blk_size (mem s') y = blk_size (mem s) y \<and> blk_free (mem s') y = blk_free (mem s) y"
  have "y \<noteq> x \<and> keeps_block (mem s) (mem s') y" if y: "y \<in> set bs" "\<not> blk_free (mem s) y" for y
  proof -
    have n: "y \<noteq> x" using y(2) x(2) by blast
    then have "block_region (mem s) y \<inter> block_region (mem s) x = {}"
      using inv x(1) y(1) by (auto simp: heap_inv_def blocks_ok_def)
    then show ?thesis using n t(6) t(7) [OF y(1) n] y(2) unfolding keeps_block_def by blast
  qed
  then show thesis using that [OF t(1-5)] by blast
qed

lemma keeps_block_trans:
  assumes "keeps_block m m' y" and "keeps_block m' m'' y"
  shows "keeps_block m m'' y"
  using assms by (auto simp: keeps_block_def block_region_def)

lemma kmalloc_cases:
  fixes s :: "'a heap_scheme"
  assumes inv: "heap_inv s bs" and rdy: "heap_ready s" and sz: "sz \<noteq> 0" "unat sz + 4200 \<le> 2 ^ 64"
  obtains (none) "kmalloc sz s = Ok 0 s" "\<not> (\<exists>i \<ge> 1. free_run s i (heap_frames (align_up sz 16)))" "\<And>x. x \<in> set bs \<Longrightarrow> blk_free (mem s) x \<Longrightarrow> blk_size (mem s) x < align_up sz 16"
  | (some) x s' bs' where "kmalloc sz s = Ok (x + 32) s'" "heap_inv s' bs'" "x \<in> set bs'" "\<not> blk_free (mem s') x"
      "align_up sz 16 \<le> blk_size (mem s') x"
      "\<And>y. y \<in> set bs \<Longrightarrow> \<not> blk_free (mem s) y \<Longrightarrow> y \<in> set bs' \<and> y \<noteq> x \<and> keeps_block (mem s) (mem s') y"
proof -
  define n where "n = align_up sz 16"
  have n: "16 dvd unat n" "unat n + 4128 \<le> 2 ^ 64" using align_16 [of sz] sz(2) by (simp_all add: n_def)
  have ch: "chain (mem s) (heap_head s) bs" using inv by (simp add: heap_inv_def)
  note fit = find_fit_chain [OF ch, of n]
  have e: "kmalloc sz s = (case find_fit (mem s) n (heap_head s) of None \<Rightarrow> Hang | Some block \<Rightarrow>
      if block \<noteq> 0 then take_block block n s
      else kbind (expand_heap n s) (\<lambda>block s. if block = 0 then Ok 0 s else take_block block n s))"
    unfolding n_def using rdy sz(1) by (simp add: kmalloc_def Let_def)
  show thesis
  proof (cases "find (\<lambda>x. blk_free (mem s) x \<and> blk_size (mem s) x \<ge> n) bs")
    case (Some x)
    then have x: "x \<in> set bs" "blk_free (mem s) x" "n \<le> blk_size (mem s) x" by (auto simp: find_Some_iff)
    have "x \<noteq> 0" using ch x(1) by (auto simp: in_set_conv_decomp chain_append)
    then have k: "kmalloc sz s = take_block x n s" using Some by (simp add: e fit)
    obtain s' bs' where t: "take_block x n s = Ok (x + 32) s'" "heap_inv s' bs'" "set bs \<subseteq> set bs'" "\<not> blk_free (mem s') x"
      "n \<le> blk_size (mem s') x" "\<forall>y \<in> set bs. \<not> blk_free (mem s) y \<longrightarrow> y \<noteq> x \<and> keeps_block (mem s) (mem s') y"
      by (rule take_free_block [OF inv x n(1)]) blast
    show thesis using some [OF _ t(2) _ t(4)] t x(1) unfolding n_def [symmetric] by (auto simp: k)
  next
    case None
    then have k: "kmalloc sz s = kbind (expand_heap n s) (\<lambda>block s. if block = 0 then Ok 0 s else take_block block n s)"
      by (simp add: e fit)
    have small: "blk_size (mem s) x < n" if "x \<in> set bs" "blk_free (mem s) x" for x
      using None that by (auto simp: find_None_iff not_le)
    show thesis
    proof (cases rule: expand_heap_cases [OF inv n(2)])
      case 1
      then show thesis using none small unfolding n_def by (simp add: k n_def)
    next
      case g: (2 b s1)
      have k1: "keeps_block (mem s) (mem s1) y" if "y \<in> set bs" "\<not> blk_free (mem s) y" for y
        using g(7) [OF that(1)] g(8) [OF that(1)] that(2) by (auto simp: keeps_block_def)
      have "b \<in> set (bs @ [b])" by simp
      then obtain s' bs' where t: "take_block b n s1 = Ok (b + 32) s'" "heap_inv s' bs'" "set (bs @ [b]) \<subseteq> set bs'"
        "\<not> blk_free (mem s') b" "n \<le> blk_size (mem s') b"
        "\<forall>y \<in> set (bs @ [b]). \<not> blk_free (mem s1) y \<longrightarrow> y \<noteq> b \<and> keeps_block (mem s1) (mem s') y"
        by (rule take_free_block [OF g(4) _ g(5,6) n(1)]) blast
      have "y \<in> set bs' \<and> y \<noteq> b \<and> keeps_block (mem s) (mem s') y" if "y \<in> set bs" "\<not> blk_free (mem s) y" for y
        using that t(3,6) g(7) [OF that(1)] keeps_block_trans [OF k1 [OF that]] by auto
      then show thesis using some [OF _ t(2) _ t(4)] t g(1,2) by (auto simp: k n_def)
    qed
  qed
qed

text \<open>
  C14: \<^verbatim>\<open>kmalloc\<close> on a well-formed heap. It returns null, with nothing changed, only if no free block
  is large enough and the frame allocator has no run of frames for a new one. Otherwise it returns an
  address aligned to 16 behind the header of a block that was not in use and has at least the size asked
  for; its bytes are disjoint from every block in use; the blocks in use keep their size and their
  contents; and the heap stays well formed.
\<close>

theorem kmalloc_correct:
  fixes s :: "'a heap_scheme"
  assumes "heap_inv s bs" and "heap_ready s" and "sz \<noteq> 0" and "unat sz + 4200 \<le> 2 ^ 64"
  shows "(kmalloc sz s = Ok 0 s \<and> (\<forall>x \<in> set bs. blk_free (mem s) x \<longrightarrow> blk_size (mem s) x < align_up sz 16) \<and>
      \<not> (\<exists>i \<ge> 1. free_run s i (heap_frames (align_up sz 16)))) \<or>
    (\<exists>p s' bs'. kmalloc sz s = Ok p s' \<and> p \<noteq> 0 \<and> 16 dvd unat p \<and> heap_inv s' bs' \<and> p - 32 \<in> set bs' \<and>
      \<not> blk_free (mem s') (p - 32) \<and> sz \<le> blk_size (mem s') (p - 32) \<and>
      (\<forall>y \<in> set bs. \<not> blk_free (mem s) y \<longrightarrow> y \<in> set bs' \<and> keeps_block (mem s) (mem s') y \<and>
         block_region (mem s) y \<inter> region p (unat sz) = {}))"
proof (cases rule: kmalloc_cases [OF assms])
  case 1
  then show ?thesis by blast
next
  case k: (2 x s' bs')
  have al: "sz \<le> align_up sz 16" using align_16(2) [of sz] assms(4) by simp
  have ok: "block_ok (mem s') x" using k(2,3) by (simp add: heap_inv_def blocks_ok_def)
  have le: "unat sz \<le> unat (blk_size (mem s') x)" using al k(5) by (simp add: word_le_nat_alt)
  have "0 < unat sz" using assms(3) by (simp add: unat_gt_0)
  then have u: "unat (x + 32) = unat x + 32"
    using ok le by (subst unat_add_lem [THEN iffD1]) (simp_all add: block_ok_def)
  then have p: "x + 32 \<noteq> 0" "16 dvd unat (x + 32)" using ok by (auto simp: block_ok_def)
  have sub: "region (x + 32) (unat sz) \<subseteq> block_region (mem s') x"
    using ok le u by (auto simp: block_region_def block_ok_def region_interval)
  have "y \<in> set bs' \<and> keeps_block (mem s) (mem s') y \<and> block_region (mem s) y \<inter> region (x + 32) (unat sz) = {}"
    if "y \<in> set bs" "\<not> blk_free (mem s) y" for y
  proof -
    note y = k(6) [OF that]
    then have "block_region (mem s') y \<inter> block_region (mem s') x = {}"
      using k(2,3) by (auto simp: heap_inv_def blocks_ok_def)
    moreover have "block_region (mem s') y = block_region (mem s) y" using y by (simp add: keeps_block_def block_region_def)
    ultimately show ?thesis using y sub by blast
  qed
  then show ?thesis using k(1-5) p al
    by (intro disjI2 exI [of _ "x + 32"] exI [of _ s'] exI [of _ bs']) auto
qed

text \<open>A heap without blocks over the frames of the example.\<close>

definition example_heap :: heap where
  "example_heap = vmm.extend example_vm \<lparr>heap_head = 0, heap_ready = True\<rparr>"

lemma example_heap_inv: "heap_inv example_heap []" "free_set example_heap = {3..<16}"
proof -
  have f: "mem example_heap = mem example_vm" "total_pages example_heap = total_pages example_vm"
    "bitmap example_heap = bitmap example_vm" "bitmap_size example_heap = bitmap_size example_vm"
    "free_pages example_heap = free_pages example_vm" "heap_head example_heap = 0"
    by (simp_all add: example_heap_def vmm.extend_def)
  have u: "page_used example_heap = page_used example_vm" "bitmap_region example_heap = bitmap_region example_vm"
    by (simp_all add: page_used_def [abs_def] bitmap_region_def f)
  then have fs: "free_set example_heap = free_set example_vm" by (simp add: free_set_def f)
  show "free_set example_heap = {3..<16}" using fs example_vm_free by simp
  have "pmm_inv example_heap" using example_vm_pmm unfolding pmm_inv_def fs u f .
  then show "heap_inv example_heap []" by (simp add: heap_inv_def f blocks_ok_def)
qed

theorem kmalloc_correct_witness:
  "\<exists>p s' bs'. kmalloc 100 example_heap = Ok p s' \<and> p \<noteq> 0 \<and> heap_inv s' bs' \<and> 100 \<le> blk_size (mem s') (p - 32)"
proof -
  have "heap_frames (align_up 100 16) = 1" unfolding heap_frames_def by code_simp
  then have "free_run example_heap 3 (heap_frames (align_up 100 16))" by (simp add: free_run_def example_heap_inv)
  then have f: "\<exists>i \<ge> 1. free_run example_heap i (heap_frames (align_up 100 16))" by (intro exI [of _ 3]) simp
  have r: "heap_ready example_heap" by (simp add: example_heap_def vmm.extend_def)
  show ?thesis using kmalloc_correct [OF example_heap_inv(1) r, of 100] f by auto
qed

section \<open>Freeing\<close>

text \<open>Neighbours in the list that are neighbours in memory.\<close>

abbreviation (input) adjacent :: "pmem \<Rightarrow> u64 \<Rightarrow> u64 \<Rightarrow> bool" where
  "adjacent m x y \<equiv> unat y = unat x + 32 + unat (blk_size m x)"

text \<open>
  What freeing and merging may do to the blocks: those in use stay as they are, a free one becomes part
  of a free one, and the heap covers the same memory.
\<close>

definition merged :: "pmem \<Rightarrow> u64 list \<Rightarrow> pmem \<Rightarrow> u64 list \<Rightarrow> bool" where
  "merged m bs m' bs' \<longleftrightarrow> set bs' \<subseteq> set bs \<and>
     (\<Union>x \<in> set bs'. block_region m' x) = (\<Union>x \<in> set bs. block_region m x) \<and>
     (\<forall>x \<in> set bs. if blk_free m x then \<exists>w \<in> set bs'. blk_free m' w \<and> block_region m x \<subseteq> block_region m' w
        else x \<in> set bs' \<and> keeps_block m m' x) \<and>
     (\<forall>a. a \<notin> (\<Union>x \<in> set bs. block_region m x) \<longrightarrow> m' a = m a)"

lemma merged_refl: "merged m bs m bs"
  by (auto simp: merged_def keeps_block_def)

lemma keeps_block_region: "keeps_block m m' x \<Longrightarrow> block_region m' x = block_region m x"
  by (simp add: keeps_block_def block_region_def)

lemma merged_trans:
  assumes a: "merged m bs m' bs'" and b: "merged m' bs' m'' bs''"
  shows "merged m bs m'' bs''"
proof -
  have "if blk_free m x then \<exists>w \<in> set bs''. blk_free m'' w \<and> block_region m x \<subseteq> block_region m'' w
      else x \<in> set bs'' \<and> keeps_block m m'' x" if x: "x \<in> set bs" for x
  proof (cases "blk_free m x")
    case True
    then obtain w where w: "w \<in> set bs'" "blk_free m' w" "block_region m x \<subseteq> block_region m' w"
      using a x by (force simp: merged_def)
    then obtain v where "v \<in> set bs''" "blk_free m'' v" "block_region m' w \<subseteq> block_region m'' v"
      using b by (force simp: merged_def)
    then show ?thesis using True w(3) by auto
  next
    case False
    then have k: "x \<in> set bs'" "keeps_block m m' x" using a x by (auto simp: merged_def)
    then have "\<not> blk_free m' x" by (simp add: keeps_block_def)
    then have "x \<in> set bs''" "keeps_block m' m'' x" using b k(1) by (auto simp: merged_def)
    then show ?thesis using False keeps_block_trans [OF k(2)] by simp
  qed
  then show ?thesis using a b by (auto simp: merged_def)
qed

text \<open>One step of \<^verbatim>\<open>coalesce\<close> that merges: the first header takes over the second block.\<close>

definition joins :: "pmem \<Rightarrow> u64 \<Rightarrow> u64 \<Rightarrow> pmem \<Rightarrow> bool" where
  "joins m x y m' \<longleftrightarrow> unat (blk_size m' x) = unat (blk_size m x) + 32 + unat (blk_size m y) \<and> blk_free m' x \<and>
     blk_next m' x = blk_next m y \<and> block_region m' x = block_region m x \<union> block_region m y \<and> block_ok m' x \<and>
     (\<forall>a. a \<notin> region x 32 \<longrightarrow> m' a = m a)"

lemma merge_step:
  assumes ok: "block_ok m x" "block_ok m y" and dj: "block_region m x \<inter> block_region m y = {}"
    and ad: "adjacent m x y" and nx: "blk_next m x = y" and fr: "blk_free m x"
  defines "m1 \<equiv> set_size x (blk_size m x + (32 + blk_size m y)) m"
  shows "joins m x y (set_next x (blk_next m1 (blk_next m1 x)) m1)"
proof -
  define m' where "m' = set_next x (blk_next m1 (blk_next m1 x)) m1"
  have hd: "region y 32 \<inter> region x 32 = {}" using dj header_in_block(1) [of _ m] by blast
  have e: "m' = set_next x (blk_next m y) (set_size x (blk_size m x + (32 + blk_size m y)) m)"
    by (simp add: m'_def m1_def nx fields_other [OF hd])
  have b: "unat y + 32 + unat (blk_size m y) \<le> 2 ^ 64" using ok by (simp add: block_ok_def)
  have "unat (32 + blk_size m y) = 32 + unat (blk_size m y)" using b ad by (subst unat_add_lem [THEN iffD1]) simp_all
  then have us: "unat (blk_size m x + (32 + blk_size m y)) = unat (blk_size m x) + 32 + unat (blk_size m y)"
    using b ad by (subst unat_add_lem [THEN iffD1]) simp_all
  have "block_region m' x = block_region m x \<union> block_region m y"
    using ok ad us by (auto simp: block_region_def block_ok_def region_interval e)
  moreover have "block_ok m' x" using ok ad us by (simp add: block_ok_def e)
  ultimately show ?thesis using us fr unfolding m'_def [symmetric] joins_def by (simp add: e set_field_out)
qed

lemma joins_others:
  assumes "joins m x y m'" and "blocks_ok m bs" and "x \<in> set bs" and "z \<in> set bs" and "z \<noteq> x"
  shows "blk_size m' z = blk_size m z" "blk_free m' z = blk_free m z" "blk_next m' z = blk_next m z"
    "block_region m' z = block_region m z" "block_ok m' z = block_ok m z" "\<not> blk_free m z \<Longrightarrow> keeps_block m m' z"
proof -
  have o: "m' a = m a" if "a \<notin> block_region m x" for a
    using that assms(1) header_in_block(1) [of x m] by (auto simp: joins_def)
  show "blk_size m' z = blk_size m z" "blk_free m' z = blk_free m z" "blk_next m' z = blk_next m z"
    "block_region m' z = block_region m z" "block_ok m' z = block_ok m z"
    using other_blocks [OF assms(2-5) o] by blast+
  moreover have "block_region m z \<inter> block_region m x = {}" using assms by (auto simp: blocks_ok_def)
  ultimately show "\<not> blk_free m z \<Longrightarrow> keeps_block m m' z" using o unfolding keeps_block_def by blast
qed

lemma joins_blocks_ok:
  assumes j: "joins m x y m'" and ok: "blocks_ok m (ps @ x # y # zs)"
  shows "blocks_ok m' (ps @ x # zs)"
proof -
  have d: "distinct (ps @ x # y # zs)" using ok by (simp add: blocks_ok_def)
  have mem: "u \<in> set (ps @ x # y # zs) \<and> u \<noteq> x \<and> u \<noteq> y" if "u \<in> set (ps @ zs)" for u using that d by auto
  have x: "x \<in> set (ps @ x # y # zs)" by simp
  note o = joins_others [OF j ok x]
  have dj: "block_region m u \<inter> block_region m v = {}"
    if "u \<in> set (ps @ x # y # zs)" "v \<in> set (ps @ x # y # zs)" "u \<noteq> v" for u v
    using ok that unfolding blocks_ok_def by blast
  have r: "block_region m' u \<inter> block_region m' x = {}" if "u \<in> set (ps @ zs)" for u
  proof -
    have "block_region m u \<inter> block_region m x = {}" "block_region m u \<inter> block_region m y = {}"
      using mem [OF that] by (intro dj; simp)+
    then show ?thesis using mem [OF that] o(4) [of u] j by (auto simp: joins_def)
  qed
  have "block_region m' u \<inter> block_region m' v = {}"
    if uv: "u \<in> set (ps @ x # zs)" "v \<in> set (ps @ x # zs)" "u \<noteq> v" for u v
  proof -
    consider "u = x" "v \<in> set (ps @ zs)" | "v = x" "u \<in> set (ps @ zs)" | "u \<in> set (ps @ zs)" "v \<in> set (ps @ zs)"
      using uv by auto
    then show ?thesis
    proof cases
      case 3
      then have "block_region m u \<inter> block_region m v = {}" using mem uv(3) by (intro dj) simp_all
      then show ?thesis using 3 mem o(4) by simp
    qed (use r in blast)+
  qed
  moreover have "block_ok m' u" if "u \<in> set (ps @ x # zs)" for u
    using that mem [of u] o(5) [of u] j ok by (cases "u = x") (auto simp: blocks_ok_def joins_def)
  ultimately show ?thesis using d by (auto simp: blocks_ok_def)
qed

lemma joins_chain:
  assumes j: "joins m x y m'" and ok: "blocks_ok m (ps @ x # y # zs)" and ch: "chain m h (ps @ x # y # zs)"
    and ad: "successively (adjacent m) (ps @ x # y # zs)"
  shows "chain m' h (ps @ x # zs)" "successively (adjacent m') (ps @ x # zs)"
proof -
  have d: "distinct (ps @ x # y # zs)" using ok by (simp add: blocks_ok_def)
  have x: "x \<in> set (ps @ x # y # zs)" by simp
  have o: "blk_size m' u = blk_size m u" "blk_next m' u = blk_next m u" if "u \<in> set (ps @ zs)" for u
    using that d joins_others(1,3) [OF j ok x, of u] by auto
  obtain q where q: "path m h ps q" "chain m q (x # y # zs)" using ch unfolding chain_append by blast
  then have "path m' h ps q" "chain m' (blk_next m y) zs"
    using path_cong [of ps m' m] chain_cong [of zs m' m] o(2) by auto
  then show "chain m' h (ps @ x # zs)" using q(2) j by (auto simp: chain_append joins_def)
  have p: "successively (adjacent m') qs" if "successively (adjacent m) qs" "set qs \<subseteq> set (ps @ zs)" for qs
    by (rule successively_mono [OF that(1)]) (use that(2) o(1) in auto)
  have "successively (adjacent m') ps" "successively (adjacent m') zs"
    using ad by (auto intro!: p simp: successively_append_iff successively_Cons)
  moreover have "ps \<noteq> [] \<Longrightarrow> adjacent m' (last ps) x" using ad o(1) [of "last ps"] by (simp add: successively_append_iff)
  moreover have "zs \<noteq> [] \<Longrightarrow> adjacent m' x (hd zs)"
    using ad j by (auto simp: successively_append_iff successively_Cons joins_def)
  ultimately show "successively (adjacent m') (ps @ x # zs)" by (auto simp: successively_append_iff successively_Cons)
qed

lemma joins_merged:
  assumes j: "joins m x y m'" and ok: "blocks_ok m (ps @ x # y # zs)" and fr: "blk_free m x" "blk_free m y"
  shows "merged m (ps @ x # y # zs) m' (ps @ x # zs)"
proof -
  have d: "distinct (ps @ x # y # zs)" using ok by (simp add: blocks_ok_def)
  have mem: "u \<in> set (ps @ x # y # zs) \<and> u \<noteq> x" if "u \<in> set (ps @ zs)" for u using that d by auto
  have x: "x \<in> set (ps @ x # y # zs)" by simp
  note o = joins_others [OF j ok x]
  have rx: "block_region m' x = block_region m x \<union> block_region m y" "blk_free m' x" using j by (simp_all add: joins_def)
  have "if blk_free m u then \<exists>w \<in> set (ps @ x # zs). blk_free m' w \<and> block_region m u \<subseteq> block_region m' w
      else u \<in> set (ps @ x # zs) \<and> keeps_block m m' u" if u: "u \<in> set (ps @ x # y # zs)" for u
  proof (cases "u = x \<or> u = y")
    case True
    then show ?thesis using fr rx by auto
  next
    case False
    then have "u \<in> set (ps @ zs)" using u by auto
    then show ?thesis using o(2,4,6) [of u] mem [of u] by auto
  qed
  moreover have "(\<Union>u \<in> set (ps @ x # zs). block_region m' u) = (\<Union>u \<in> set (ps @ x # y # zs). block_region m u)"
    using rx mem o(4) by auto
  moreover have "m' a = m a" if "a \<notin> (\<Union>u \<in> set (ps @ x # y # zs). block_region m u)" for a
    using that header_in_block(1) [of x m] j by (auto simp: joins_def)
  moreover have "set (ps @ x # zs) \<subseteq> set (ps @ x # y # zs)" by auto
  ultimately show ?thesis unfolding merged_def by (intro conjI ballI allI impI)
qed

lemma coalesce_from_chain:
  assumes "chain m h (ps @ qs)" and "blocks_ok m (ps @ qs)" and "successively (adjacent m) (ps @ qs)"
  shows "\<exists>m' bs. coalesce_from m (case qs of [] \<Rightarrow> 0 | q # _ \<Rightarrow> q) = Some m' \<and> chain m' h bs \<and> blocks_ok m' bs \<and>
    successively (adjacent m') bs \<and> merged m (ps @ qs) m' bs"
  using assms
proof (induction "length qs" arbitrary: m ps qs rule: less_induct)
  case less
  have nil: "?case" if "coalesce_from m (case qs of [] \<Rightarrow> 0 | q # _ \<Rightarrow> q) = Some m"
    using that less.prems merged_refl by (intro exI [of _ m] exI [of _ "ps @ qs"]) simp
  consider "qs = []" | x where "qs = [x]" | x y zs where "qs = x # y # zs" by (cases qs rule: remdups_adj.cases) auto
  then show ?case
  proof cases
    case 1
    then show ?thesis by (intro nil) (simp, subst coalesce_from.simps, simp)
  next
    case (2 x)
    then have "blk_next m x = 0" using less.prems(1) by (auto simp: chain_append)
    then show ?thesis using 2 by (intro nil) (simp, subst coalesce_from.simps, simp)
  next
    case (3 x y zs)
    have n: "x \<noteq> 0" "blk_next m x = y" "y \<noteq> 0" using less.prems(1) 3 by (auto simp: chain_append)
    have b: "block_ok m x" "block_ok m y" "block_region m x \<inter> block_region m y = {}"
      using less.prems(2) 3 by (auto simp: blocks_ok_def)
    show ?thesis
    proof (cases "blk_free m x \<and> blk_free m y")
      case True
      have a: "adjacent m x y" using less.prems(3) 3 by (simp add: successively_append_iff)
      define m1 where "m1 = set_size x (blk_size m x + (32 + blk_size m y)) m"
      define m2 where "m2 = set_next x (blk_next m1 (blk_next m1 x)) m1"
      have j: "joins m x y m2" using merge_step [OF b a n(2)] True by (simp add: m2_def m1_def)
      have c: "coalesce_from m x = coalesce_from m2 (blk_next m2 x)"
        using True n by (subst coalesce_from.simps) (simp add: Let_def m1_def m2_def)
      note p = less.prems [unfolded 3]
      have z: "chain m2 h ((ps @ [x]) @ zs)" "blocks_ok m2 ((ps @ [x]) @ zs)" "successively (adjacent m2) ((ps @ [x]) @ zs)"
        using joins_chain [OF j p(2,1,3)] joins_blocks_ok [OF j p(2)] by simp_all
      have "blk_next m2 x = (case zs of [] \<Rightarrow> 0 | q # _ \<Rightarrow> q)" using z(1) by (cases zs) (auto simp: chain_append)
      then obtain m' bs where r: "coalesce_from m x = Some m'" "chain m' h bs" "blocks_ok m' bs"
        "successively (adjacent m') bs" "merged m2 (ps @ x # zs) m' bs"
        using less.hyps [OF _ z] 3 c by auto
      then show ?thesis using 3 merged_trans [OF joins_merged [OF j p(2)] r(5)] True by auto
    next
      case False
      have "coalesce_from m x = coalesce_from m y" using False n by (subst coalesce_from.simps) (auto simp: Let_def)
      then show ?thesis using less.hyps [of "y # zs" m "ps @ [x]"] less.prems 3 by simp
    qed
  qed
qed

lemma kfree_cases:
  fixes s :: "'a heap_scheme"
  assumes inv: "heap_inv s bs" and ad: "successively (adjacent (mem s)) bs" and x: "x \<in> set bs" "x + 32 \<noteq> 0"
  defines "m0 \<equiv> set_free x True (mem s)"
  obtains m' bs' where "kfree (x + 32) s = Ok () (s\<lparr>mem := m'\<rparr>)" "heap_inv (s\<lparr>mem := m'\<rparr>) bs'"
    "successively (adjacent m') bs'" "merged m0 bs m' bs'"
proof -
  have h: "chain (mem s) (heap_head s) bs" "blocks_ok (mem s) bs" "pmm_inv s"
    "\<And>x. x \<in> set bs \<Longrightarrow> heap_owned s (block_region (mem s) x)" using inv by (simp_all add: heap_inv_def)
  have out: "m0 a = mem s a" if "a \<notin> block_region (mem s) x" for a
    using that header_in_block(1) [of x "mem s"] by (auto simp: m0_def intro!: set_field_out)
  have f: "blk_size m0 y = blk_size (mem s) y" "blk_next m0 y = blk_next (mem s) y" if "y \<in> set bs" for y
    using other_blocks(1,3) [OF h(2) x(1) that _ out] by (cases "y = x"; simp add: m0_def)+
  have r: "block_region m0 y = block_region (mem s) y" if "y \<in> set bs" for y using f(1) [OF that] by (simp add: block_region_def)
  have z: "chain m0 (heap_head s) ([] @ bs)" "blocks_ok m0 ([] @ bs)"
    using h(1,2) f chain_cong [of bs m0 "mem s"] blocks_ok_cong [of bs m0 "mem s"] by simp_all
  have a0: "successively (adjacent m0) ([] @ bs)" using ad f(1) by (auto elim: successively_mono)
  have hd: "heap_head s = (case bs of [] \<Rightarrow> 0 | q # _ \<Rightarrow> q)" using h(1) by (cases bs) auto
  obtain m' bs' where c: "coalesce_from m0 (heap_head s) = Some m'" "chain m' (heap_head s) bs'" "blocks_ok m' bs'"
    "successively (adjacent m') bs'" "merged m0 bs m' bs'"
    using coalesce_from_chain [OF z a0] unfolding hd [symmetric] by auto
  have sub: "block_region m' y \<subseteq> (\<Union>y \<in> set bs. block_region (mem s) y)" if "y \<in> set bs'" for y
    using that c(5) r by (auto simp: merged_def)
  have "a \<notin> bitmap_region s" if "m' a \<noteq> mem s a" for a
  proof -
    have "a \<in> (\<Union>y \<in> set bs. block_region (mem s) y)"
      using that c(5) out [of a] x(1) r by (auto simp: merged_def)
    then show ?thesis using h(4) by (auto simp: heap_owned_def)
  qed
  note w = heap_owned_write [OF h(3) this]
  have "heap_owned s (block_region m' y)" if "y \<in> set bs'" for y
    using sub [OF that] h(4) unfolding heap_owned_def by blast
  then have "heap_inv (s\<lparr>mem := m'\<rparr>) bs'" using c(2,3) w by (simp add: heap_inv_def)
  moreover have "kfree (x + 32) s = Ok () (s\<lparr>mem := m'\<rparr>)"
    using x(2) c(1) by (simp add: kfree_def coalesce_def m0_def [symmetric])
  ultimately show thesis using that c(4,5) by blast
qed

text \<open>
  C15: \<^verbatim>\<open>kfree\<close> of a block in a heap whose blocks lie one behind the other: it returns, the bytes
  of the block become part of a free block, the other blocks in use keep their size and their contents,
  the heap covers the memory it covered, and its blocks still lie one behind the other.
\<close>

theorem kfree_correct:
  fixes s :: "'a heap_scheme"
  assumes "heap_inv s bs" and "successively (adjacent (mem s)) bs" and "p - 32 \<in> set bs" and "p \<noteq> 0"
  shows "\<exists>s' bs'. kfree p s = Ok () s' \<and> heap_inv s' bs' \<and> successively (adjacent (mem s')) bs' \<and>
    (\<exists>w \<in> set bs'. blk_free (mem s') w \<and> block_region (mem s) (p - 32) \<subseteq> block_region (mem s') w) \<and>
    (\<forall>y \<in> set bs. \<not> blk_free (mem s) y \<and> y \<noteq> p - 32 \<longrightarrow> y \<in> set bs' \<and> keeps_block (mem s) (mem s') y) \<and>
    (\<Union>y \<in> set bs'. block_region (mem s') y) = (\<Union>y \<in> set bs. block_region (mem s) y)"
proof -
  let ?x = "p - 32" and ?m = "set_free (p - 32) True (mem s)"
  obtain m' bs' where k: "kfree p s = Ok () (s\<lparr>mem := m'\<rparr>)" "heap_inv (s\<lparr>mem := m'\<rparr>) bs'"
    "successively (adjacent m') bs'" "merged ?m bs m' bs'"
    using kfree_cases [OF assms(1-3)] assms(4) by auto
  have ok: "blocks_ok (mem s) bs" using assms(1) by (simp add: heap_inv_def)
  have out: "?m a = mem s a" if "a \<notin> block_region (mem s) ?x" for a
    using that header_in_block(1) [of ?x "mem s"] by (auto intro!: set_field_out)
  have r: "block_region ?m y = block_region (mem s) y" if "y \<in> set bs" for y
    using other_blocks(4) [OF ok assms(3) that _ out] by (cases "y = ?x") (simp_all add: block_region_def)
  have "keeps_block (mem s) ?m y" if y: "y \<in> set bs" "\<not> blk_free (mem s) y" "y \<noteq> ?x" for y
  proof -
    have "block_region (mem s) y \<inter> block_region (mem s) ?x = {}" using y ok assms(3) by (auto simp: blocks_ok_def)
    then show ?thesis using other_blocks(1,2) [OF ok assms(3) y(1,3) out] y(2) out unfolding keeps_block_def by blast
  qed
  then have "y \<in> set bs' \<and> keeps_block (mem s) m' y" if "y \<in> set bs" "\<not> blk_free (mem s) y" "y \<noteq> ?x" for y
    using that k(4) keeps_block_trans [of "mem s" ?m y m'] by (auto simp: merged_def keeps_block_def)
  moreover have "\<exists>w \<in> set bs'. blk_free m' w \<and> block_region (mem s) ?x \<subseteq> block_region m' w"
    using k(4) assms(3) r [OF assms(3)] by (auto simp: merged_def)
  moreover have "(\<Union>y \<in> set bs'. block_region m' y) = (\<Union>y \<in> set bs. block_region (mem s) y)"
    using k(4) r by (auto simp: merged_def)
  ultimately show ?thesis using k(1-3) by (intro exI [of _ "s\<lparr>mem := m'\<rparr>"] exI [of _ bs']) simp
qed

theorem kfree_correct_witness:
  "\<exists>b s' s''. expand_heap 100 example_heap = Ok b s' \<and> kfree (b + 32) s' = Ok () s''"
proof -
  have "heap_frames 100 = 1" unfolding heap_frames_def by code_simp
  then have "free_run example_heap 3 (heap_frames 100)" by (simp add: free_run_def example_heap_inv)
  then have f: "\<exists>i \<ge> 1. free_run example_heap i (heap_frames 100)" by (intro exI [of _ 3]) simp
  show ?thesis
  proof (cases rule: expand_heap_cases [OF example_heap_inv(1), of 100])
    case g: (3 b s')
    have "block_ok (mem s') b" using g(4) by (simp add: heap_inv_def blocks_ok_def)
    then have "unat b + 32 + unat (blk_size (mem s') b) \<le> 2 ^ 64" by (simp add: block_ok_def)
    moreover have "100 \<le> unat (blk_size (mem s') b)" using g(6) by (simp add: word_le_nat_alt)
    ultimately have "unat (b + 32) = unat b + 32" by (subst unat_add_lem [THEN iffD1]) simp_all
    then have "b + 32 \<noteq> 0" by auto
    then show ?thesis using kfree_correct [OF g(4), of "b + 32"] g(1) by auto
  qed (use f in auto)
qed

text \<open>
  \<^verbatim>\<open>coalesce\<close> does not look at addresses: two free blocks that follow each other in the list become
  one block of their joint size even when the second one is somewhere else. The memory behind the first
  block is then handed out as part of the heap.
\<close>

lemma coalesce_merges_gap:
  assumes ch: "chain m x [x, y]" and fr: "blk_free m x" "blk_free m y" and dj: "region y 32 \<inter> region x 32 = {}"
    and sz: "unat (blk_size m x) + 32 + unat (blk_size m y) < 2 ^ 64"
  shows "\<exists>m'. coalesce_from m x = Some m' \<and> blk_free m' x \<and> blk_next m' x = 0 \<and>
    block_region m' x = region x (32 + unat (blk_size m x) + 32 + unat (blk_size m y))"
proof -
  define m' where "m' = set_next x (blk_next m y) (set_size x (blk_size m x + (32 + blk_size m y)) m)"
  have n: "x \<noteq> 0" "y \<noteq> 0" "blk_next m x = y" "blk_next m y = 0" using ch by auto
  have "coalesce_from m' 0 = Some m'" by (subst coalesce_from.simps) simp
  then have "coalesce_from m x = Some m'"
    using fr n by (subst coalesce_from.simps) (simp add: Let_def fields_other [OF dj] m'_def)
  moreover have "unat (blk_size m x + (32 + blk_size m y)) = unat (blk_size m x) + 32 + unat (blk_size m y)"
  proof -
    have "unat (32 + blk_size m y) = 32 + unat (blk_size m y)" using sz by (subst unat_add_lem [THEN iffD1]) simp_all
    then show ?thesis using sz by (subst unat_add_lem [THEN iffD1]) simp_all
  qed
  ultimately show ?thesis using fr n by (intro exI [of _ m']) (simp add: m'_def block_region_def add.assoc)
qed

end
