(* ===== verification/Tasks.thy ===== *)
theory Tasks
  imports Kheap
begin

text \<open>
  The task table of \<^verbatim>\<open>kernel/scheduler/task.c\<close>: sixteen slots, one of which is current. The
  C type \<^verbatim>\<open>int\<close> is \<open>int\<close>, and \<^verbatim>\<open>(uint64_t)\<close> of it is its image in 64 bits. The
  instruction \<^verbatim>\<open>int $0x20\<close>, by which a task enters the scheduler, is the parameter \<open>int20\<close> of
  the routines that execute it.
\<close>

unbundle bit_operations_syntax

section \<open>Tasks\<close>

datatype TaskState = TASK_NEW | TASK_RUNNABLE | TASK_RUNNING | TASK_WAITING | TASK_ZOMBIE

record Task =
  tid :: int
  pid :: int
  state :: TaskState
  kernel_rsp :: u64
  kernel_stack_top :: u64
  tcr3 :: u64
  timeslice :: u32
  exit_code :: int
  is_user :: bool
  trapframe :: u64
  address_space :: u64
  kernel_stack :: u64

record sched = heap +
  tasks :: "Task list"
  current_tid :: int
  slice_ticks :: u32
  switch_count :: u64

abbreviation (input) MAX_TASKS :: nat where "MAX_TASKS \<equiv> 16"
abbreviation (input) TASK_STACK_SIZE :: u64 where "TASK_STACK_SIZE \<equiv> 16384"
abbreviation (input) TICKS_PER_SLICE :: u32 where "TICKS_PER_SLICE \<equiv> 5"

definition u64_of_int :: "int \<Rightarrow> u64" where "u64_of_int i = word_of_int i"

definition set_task :: "nat \<Rightarrow> (Task \<Rightarrow> Task) \<Rightarrow> 'a sched_scheme \<Rightarrow> 'a sched_scheme" where
  "set_task i f s = s\<lparr>tasks := (tasks s)[i := f (tasks s ! i)]\<rparr>"

fun state_name :: "TaskState \<Rightarrow> string" where
  "state_name TASK_NEW = ''NEW''"
| "state_name TASK_RUNNABLE = ''RUNNABLE''"
| "state_name TASK_RUNNING = ''RUNNING''"
| "state_name TASK_WAITING = ''WAITING''"
| "state_name TASK_ZOMBIE = ''ZOMBIE''"

definition log_transition ::
  "string \<Rightarrow> Task \<Rightarrow> TaskState \<Rightarrow> TaskState \<Rightarrow> 'a sched_scheme \<Rightarrow> 'a sched_scheme" where
  "log_transition tag t from to s =
     (let s1 = print '' tid='' (print tag (print ''[task '' s));
          s2 = print '' pid='' (print_dec (u64_of_int (tid t)) s1);
          s3 = print '' '' (print_dec (u64_of_int (pid t)) s2);
          s4 = print (state_name to) (print ''->'' (print (state_name from) s3))
      in print ('']'' @ [NL]) (print_hex (tcr3 t) (print '' cr3='' s4)))"

text \<open>The first slot that satisfies a condition.\<close>

definition first_slot :: "(Task \<Rightarrow> bool) \<Rightarrow> Task list \<Rightarrow> nat option" where
  "first_slot P ts = find (\<lambda>i. P (ts ! i)) [0..<MAX_TASKS]"

definition find_free_slot :: "'a sched_scheme \<Rightarrow> (int, 'a sched_scheme) outcome" where
  "find_free_slot s =
     (case first_slot (\<lambda>t. (state t = TASK_ZOMBIE \<or> state t = TASK_NEW) \<and> kernel_stack t = 0) (tasks s) of
        Some i \<Rightarrow> Ok (int i) s
      | None \<Rightarrow>
      case first_slot (\<lambda>t. kernel_stack t = 0 \<and> state t = TASK_NEW) (tasks s) of
        Some i \<Rightarrow> Ok (int i) s
      | None \<Rightarrow>
      case first_slot (\<lambda>t. state t = TASK_ZOMBIE) (tasks s) of
        Some i \<Rightarrow>
          if kernel_stack (tasks s ! i) \<noteq> 0
          then kbind (kfree (kernel_stack (tasks s ! i)) s) (\<lambda>_ s.
                 Ok (int i) (set_task i (\<lambda>t. t\<lparr>kernel_stack := 0\<rparr>) s))
          else Ok (int i) s
      | None \<Rightarrow> Ok (- 1) s)"

definition pick_next_runnable :: "'a sched_scheme \<Rightarrow> int" where
  "pick_next_runnable s =
     (let start = (if current_tid s < 0 then 0 else (nat (current_tid s) + 1) mod MAX_TASKS)
      in case find (\<lambda>i. let idx = (start + i) mod MAX_TASKS
                        in state (tasks s ! idx) = TASK_RUNNABLE \<or> state (tasks s ! idx) = TASK_RUNNING)
                [0..<MAX_TASKS] of
           None \<Rightarrow> - 1
         | Some i \<Rightarrow> int ((start + i) mod MAX_TASKS))"

definition task_switch_address_space :: "Task \<Rightarrow> 'a sched_scheme \<Rightarrow> (unit, 'a sched_scheme) outcome" where
  "task_switch_address_space t s =
     (if is_user t
      then kbind (kassert (address_space t \<noteq> 0) ''user task has null address space'' s) (\<lambda>_ s.
           kbind (kassert (tcr3 t \<noteq> 0) ''user task has null CR3'' s) (\<lambda>_ s.
           Ok () (s\<lparr>cr3 := tcr3 t\<rparr>)))
      else kbind (kassert (pml4_of s (kernel_address_space s) \<noteq> 0) ''kernel address space missing'' s) (\<lambda>_ s.
           Ok () (s\<lparr>cr3 := pml4_of s (kernel_address_space s)\<rparr>)))"

section \<open>Trap frames\<close>

text \<open>
  The qwords of an \<^verbatim>\<open>InterruptFrame\<close> by index: 0 to 14 are \<^verbatim>\<open>r15\<close> down to \<^verbatim>\<open>rax\<close>, then
  \<^verbatim>\<open>vector\<close>, \<^verbatim>\<open>error_code\<close>, \<^verbatim>\<open>rip\<close>, \<^verbatim>\<open>cs\<close>, \<^verbatim>\<open>rflags\<close>, \<^verbatim>\<open>rsp\<close>, \<^verbatim>\<open>ss\<close>.
\<close>

abbreviation (input) FRAME_SIZE :: u64 where "FRAME_SIZE \<equiv> 176"

definition frame_get :: "pmem \<Rightarrow> u64 \<Rightarrow> nat \<Rightarrow> u64" where
  "frame_get m f k = load64 m (f + of_nat (8 * k))"

definition frame_set :: "u64 \<Rightarrow> nat \<Rightarrow> u64 \<Rightarrow> pmem \<Rightarrow> pmem" where
  "frame_set f k v m = store64 m (f + of_nat (8 * k)) v"

definition setup_initial_frame ::
  "nat \<Rightarrow> u64 \<Rightarrow> u64 \<Rightarrow> u64 \<Rightarrow> u64 \<Rightarrow> 'a sched_scheme \<Rightarrow> u64 \<times> 'a sched_scheme" where
  "setup_initial_frame i rip rsp cs ss s =
     (let f = kernel_stack_top (tasks s ! i) - FRAME_SIZE;
          m = fold (\<lambda>(k, v). frame_set f k v)
                (map (\<lambda>k. (k, 0)) [0..<17] @ [(17, rip), (18, cs), (19, 0x202), (20, rsp), (21, ss)])
                (mem s)
      in (f, set_task i (\<lambda>t. t\<lparr>trapframe := f\<rparr>) (s\<lparr>mem := m\<rparr>)))"

section \<open>Creating tasks\<close>

definition blank_task :: "nat \<Rightarrow> Task" where
  "blank_task i = \<lparr>tid = int i, pid = 0, state = TASK_NEW, kernel_rsp = 0, kernel_stack_top = 0,
     tcr3 = 0, timeslice = 0, exit_code = 0, is_user = False, trapframe = 0, address_space = 0,
     kernel_stack = 0\<rparr>"

definition task_init :: "'a sched_scheme \<Rightarrow> 'a sched_scheme" where
  "task_init s = klog_info ''task: initialized unified scheduler''
     (s\<lparr>tasks := map blank_task [0..<MAX_TASKS], current_tid := - 1, slice_ticks := 0, switch_count := 0\<rparr>)"

text \<open>What \<^verbatim>\<open>task_create_kernel\<close> and \<^verbatim>\<open>task_create_user\<close> share: slot, stack, frame, state.\<close>

definition task_create ::
  "string \<Rightarrow> ('a sched_scheme \<Rightarrow> Task \<Rightarrow> Task) \<Rightarrow> (u64 \<Rightarrow> u64) \<Rightarrow> u64 \<Rightarrow> u64 \<Rightarrow> u64 \<Rightarrow> 'a sched_scheme
     \<Rightarrow> (int, 'a sched_scheme) outcome" where
  "task_create tag upd rsp_of ent cs ss s =
     kbind (find_free_slot s) (\<lambda>slot s.
     if slot < 0 then Ok (- 1) s
     else kbind (kmalloc TASK_STACK_SIZE s) (\<lambda>stack s.
     if stack = 0 then Ok (- 1) s
     else let i = nat slot;
              s1 = s\<lparr>mem := for_range 0 TASK_STACK_SIZE (\<lambda>j m. m(stack + j := 0)) (mem s)\<rparr>;
              top = (stack + TASK_STACK_SIZE) AND NOT 0xF;
              s2 = set_task i (\<lambda>t. upd s1 (t\<lparr>kernel_stack := stack, kernel_stack_top := top\<rparr>)) s1;
              (rsp, s3) = setup_initial_frame i ent (rsp_of top) cs ss s2;
              s4 = set_task i (\<lambda>t. t\<lparr>kernel_rsp := rsp\<rparr>) s3;
              from = state (tasks s4 ! i);
              s5 = set_task i (\<lambda>t. t\<lparr>state := TASK_RUNNABLE\<rparr>) s4
          in Ok (tid (tasks s5 ! i)) (log_transition tag (tasks s5 ! i) from TASK_RUNNABLE s5)))"

definition task_create_kernel :: "u64 \<Rightarrow> 'a sched_scheme \<Rightarrow> (int, 'a sched_scheme) outcome" where
  "task_create_kernel ent s =
     task_create ''create-k''
       (\<lambda>s t. t\<lparr>pid := 0, tcr3 := pml4_of s (kernel_address_space s), is_user := False,
              address_space := kernel_address_space s, exit_code := 0, timeslice := 0\<rparr>)
       (\<lambda>top. top) ent 0x08 0x10 s"

definition task_create_user ::
  "int \<Rightarrow> u64 \<Rightarrow> u64 \<Rightarrow> u64 \<Rightarrow> 'a sched_scheme \<Rightarrow> (int, 'a sched_scheme) outcome" where
  "task_create_user p as ent rsp s =
     task_create ''create-u''
       (\<lambda>s t. t\<lparr>pid := p, tcr3 := pml4_of s as, is_user := True, address_space := as,
              exit_code := 0, timeslice := 0\<rparr>)
       (\<lambda>_. rsp) ent 0x1B 0x23 s"

section \<open>The current task\<close>

definition task_current :: "'a sched_scheme \<Rightarrow> Task option" where
  "task_current s = (if current_tid s < 0 then None else Some (tasks s ! nat (current_tid s)))"

definition task_current_pid :: "'a sched_scheme \<Rightarrow> int" where
  "task_current_pid s = (case task_current s of Some t \<Rightarrow> pid t | None \<Rightarrow> - 1)"

definition set_current :: "(Task \<Rightarrow> Task) \<Rightarrow> 'a sched_scheme \<Rightarrow> 'a sched_scheme" where
  "set_current f s = set_task (nat (current_tid s)) f s"

definition task_sleep ::
  "('a sched_scheme \<Rightarrow> (unit, 'a sched_scheme) outcome) \<Rightarrow> 'a sched_scheme \<Rightarrow> (unit, 'a sched_scheme) outcome" where
  "task_sleep int20 s =
     (case task_current s of
        None \<Rightarrow> Panic ''task_sleep called without current task'' s
      | Some t \<Rightarrow>
          kbind (kassert (\<not> is_user t) ''task_sleep called from user task'' s) (\<lambda>_ s.
          int20 (set_current (\<lambda>t. t\<lparr>state := TASK_WAITING\<rparr>) s)))"

definition task_wake :: "int \<Rightarrow> 'a sched_scheme \<Rightarrow> 'a sched_scheme" where
  "task_wake i s =
     (if i < 0 \<or> i \<ge> int MAX_TASKS then s
      else if state (tasks s ! nat i) = TASK_WAITING
      then set_task (nat i) (\<lambda>t. t\<lparr>state := TASK_RUNNABLE\<rparr>) s
      else s)"

definition task_yield ::
  "('a sched_scheme \<Rightarrow> (unit, 'a sched_scheme) outcome) \<Rightarrow> 'a sched_scheme \<Rightarrow> (unit, 'a sched_scheme) outcome" where
  "task_yield int20 s = int20 s"

text \<open>\<^verbatim>\<open>task_exit\<close> never returns to its caller: after the trap it halts in a loop.\<close>

definition task_exit ::
  "('a sched_scheme \<Rightarrow> (unit, 'a sched_scheme) outcome) \<Rightarrow> int \<Rightarrow> 'a sched_scheme
     \<Rightarrow> (unit, 'a sched_scheme) outcome" where
  "task_exit int20 code s =
     (case task_current s of
        None \<Rightarrow> Panic ''task_exit called without current task'' s
      | Some t \<Rightarrow>
          let s1 = set_current (\<lambda>t. t\<lparr>exit_code := code, state := TASK_ZOMBIE\<rparr>) s;
              s2 = log_transition ''exit'' (t\<lparr>exit_code := code, state := TASK_ZOMBIE\<rparr>) (state t) TASK_ZOMBIE s1
          in kbind (int20 s2) (\<lambda>_ _. Hang))"

definition task_kill_pid ::
  "('a sched_scheme \<Rightarrow> (unit, 'a sched_scheme) outcome) \<Rightarrow> int \<Rightarrow> int \<Rightarrow> 'a sched_scheme
     \<Rightarrow> (int, 'a sched_scheme) outcome" where
  "task_kill_pid int20 p code s =
     (if p \<le> 0 then Ok (- 1) s
      else case first_slot (\<lambda>t. pid t = p \<and> \<not> (state t = TASK_NEW \<or> state t = TASK_ZOMBIE)) (tasks s) of
        None \<Rightarrow> Ok (- 1) s
      | Some i \<Rightarrow>
          if int i = current_tid s then kbind (task_exit int20 code s) (\<lambda>_ s. Ok 0 s)
          else let from = state (tasks s ! i);
                   s1 = set_task i (\<lambda>t. t\<lparr>exit_code := code, state := TASK_ZOMBIE\<rparr>) s
               in Ok 0 (log_transition ''kill'' (tasks s1 ! i) from TASK_ZOMBIE s1))"

section \<open>Inspection\<close>

definition count_state :: "TaskState \<Rightarrow> Task list \<Rightarrow> u64" where
  "count_state st ts = of_nat (length (filter (\<lambda>t. state t = st) (take MAX_TASKS ts)))"

definition print_task :: "Task \<Rightarrow> 'a sched_scheme \<Rightarrow> 'a sched_scheme" where
  "print_task t s =
     (if state t = TASK_NEW then s
      else let s1 = print_dec (u64_of_int (tid t)) (print ''sched: tid='' s);
               s2 = print_dec (u64_of_int (pid t)) (print '' pid='' s1);
               s3 = print (state_name (state t)) (print '' state='' s2);
               s4 = print_dec (of_bool (is_user t)) (print '' user='' s3)
           in print [NL] (print_dec (ucast (timeslice t)) (print '' slices='' s4)))"

definition task_print_stats :: "'a sched_scheme \<Rightarrow> 'a sched_scheme" where
  "task_print_stats s =
     (let s1 = print ''sched: current_tid='' s;
          s2 = (if current_tid s < 0 then print ''none'' s1 else print_dec (u64_of_int (current_tid s)) s1);
          s3 = print [NL] (print_dec (switch_count s) (print '' switches='' s2));
          s4 = print_dec (count_state TASK_NEW (tasks s)) (print ''sched: NEW='' s3);
          s5 = print_dec (count_state TASK_RUNNABLE (tasks s)) (print '' RUNNABLE='' s4);
          s6 = print_dec (count_state TASK_RUNNING (tasks s)) (print '' RUNNING='' s5);
          s7 = print_dec (count_state TASK_WAITING (tasks s)) (print '' WAITING='' s6);
          s8 = print [NL] (print_dec (count_state TASK_ZOMBIE (tasks s)) (print '' ZOMBIE='' s7))
      in fold (\<lambda>i t. print_task (tasks t ! i) t) [0..<MAX_TASKS] s8)"

definition task_self_check :: "'a sched_scheme \<Rightarrow> bool" where
  "task_self_check s \<longleftrightarrow>
     list_all (\<lambda>i. let t = tasks s ! i
       in \<not> (is_user t \<and> state t \<noteq> TASK_NEW \<and> (address_space t = 0 \<or> tcr3 t = 0))) [0..<MAX_TASKS]
     \<and> \<not> length (filter (\<lambda>i. state (tasks s ! i) = TASK_RUNNING) [0..<MAX_TASKS]) > 1
     \<and> (current_tid s \<ge> 0 \<longrightarrow>
          \<not> current_tid s \<ge> int MAX_TASKS \<and> state (tasks s ! nat (current_tid s)) = TASK_RUNNING)"

definition task_get_switch_count :: "'a sched_scheme \<Rightarrow> u64" where
  "task_get_switch_count s = switch_count s"

end
