(* ===== verification/ProcTable.thy ===== *)
theory ProcTable
  imports Tasks
begin

text \<open>
  The process table of \<^verbatim>\<open>kernel/process.c\<close> and the operations on it that do not create a
  process: lookup, exit, deferred reaping, kill and wait. A \<^verbatim>\<open>Process*\<close> is the index of its slot.
\<close>

record Process =
  used :: bool
  p_pid :: int
  p_address_space :: u64
  main_tid :: int
  p_entry :: u64
  user_rsp :: u64
  exited :: bool
  p_exit_code :: int
  reap_pending :: bool

record proc = sched +
  proc_table :: "Process list"
  next_pid :: int

abbreviation (input) MAX_PROCESSES :: nat where "MAX_PROCESSES \<equiv> 16"

definition set_proc :: "nat \<Rightarrow> (Process \<Rightarrow> Process) \<Rightarrow> 'a proc_scheme \<Rightarrow> 'a proc_scheme" where
  "set_proc i f s = s\<lparr>proc_table := (proc_table s)[i := f (proc_table s ! i)]\<rparr>"

definition first_proc :: "(Process \<Rightarrow> bool) \<Rightarrow> 'a proc_scheme \<Rightarrow> nat option" where
  "first_proc P s = find (\<lambda>i. P (proc_table s ! i)) [0..<MAX_PROCESSES]"

definition alloc_process_slot :: "'a proc_scheme \<Rightarrow> int" where
  "alloc_process_slot s =
     (case first_proc (\<lambda>p. \<not> used p \<or> used p \<and> exited p \<and> p_address_space p = 0 \<and> main_tid p < 0) s of
        None \<Rightarrow> - 1 | Some i \<Rightarrow> int i)"

definition find_process_by_pid :: "int \<Rightarrow> 'a proc_scheme \<Rightarrow> nat option" where
  "find_process_by_pid q s = first_proc (\<lambda>p. used p \<and> p_pid p = q) s"

definition blank_process :: Process where
  "blank_process = \<lparr>used = False, p_pid = 0, p_address_space = 0, main_tid = - 1, p_entry = 0,
     user_rsp = 0, exited = False, p_exit_code = 0, reap_pending = False\<rparr>"

definition process_init :: "'a proc_scheme \<Rightarrow> 'a proc_scheme" where
  "process_init s = klog_info ''process: table initialized''
     (s\<lparr>proc_table := replicate MAX_PROCESSES blank_process, next_pid := 1\<rparr>)"

definition process_task_exited :: "int \<Rightarrow> int \<Rightarrow> 'a proc_scheme \<Rightarrow> 'a proc_scheme" where
  "process_task_exited q code s =
     (case find_process_by_pid q s of
        None \<Rightarrow> s
      | Some i \<Rightarrow>
          let s1 = print_dec (u64_of_int q) (print ''[proc exit pid='' s);
              s2 = print ('']'' @ [NL]) (print_dec (u64_of_int code) (print '' code='' s1))
          in set_proc i (\<lambda>p. p\<lparr>exited := True, p_exit_code := code, reap_pending := True\<rparr>) s2)"

definition reap_slot :: "u64 \<Rightarrow> nat \<Rightarrow> 'a proc_scheme \<Rightarrow> 'a proc_scheme" where
  "reap_slot current_as i s =
     (let p = proc_table s ! i
      in if \<not> used p \<or> \<not> reap_pending p then s
         else if p_address_space p = 0
         then set_proc i (\<lambda>p. p\<lparr>reap_pending := False, main_tid := - 1\<rparr>) s
         else if current_as = p_address_space p then s
         else set_proc i (\<lambda>p. p\<lparr>p_address_space := 0, reap_pending := False, main_tid := - 1\<rparr>)
                (vmm_destroy_address_space (p_address_space p) s))"

definition process_reap_deferred :: "'a proc_scheme \<Rightarrow> 'a proc_scheme" where
  "process_reap_deferred s =
     (let current_as = (case task_current s of Some t \<Rightarrow> address_space t | None \<Rightarrow> 0)
      in fold (reap_slot current_as) [0..<MAX_PROCESSES] s)"

definition dump_process :: "Process \<Rightarrow> 'a proc_scheme \<Rightarrow> 'a proc_scheme" where
  "dump_process p s =
     (if \<not> used p then s
      else let s1 = print '' '' (print_dec (u64_of_int (p_pid p)) (print ''proc: '' s));
               s2 = print '' '' (print_dec (u64_of_int (main_tid p)) s1);
               s3 = print (if exited p then ''EXITED'' else ''RUNNING'') s2
           in print [NL] (print_dec (u64_of_int (p_exit_code p)) (print '' '' s3)))"

definition process_dump_table :: "'a proc_scheme \<Rightarrow> 'a proc_scheme" where
  "process_dump_table s =
     fold (\<lambda>i t. dump_process (proc_table t ! i) t) [0..<MAX_PROCESSES]
       (print (''proc: pid tid state exit'' @ [NL]) s)"

definition process_kill ::
  "('a proc_scheme \<Rightarrow> (unit, 'a proc_scheme) outcome) \<Rightarrow> int \<Rightarrow> int \<Rightarrow> 'a proc_scheme
     \<Rightarrow> (int, 'a proc_scheme) outcome" where
  "process_kill int20 q code s =
     (case find_process_by_pid q s of
        None \<Rightarrow> Ok (- 1) s
      | Some i \<Rightarrow>
          if \<not> used (proc_table s ! i) then Ok (- 1) s
          else if exited (proc_table s ! i) then Ok 1 s
          else kbind (task_kill_pid int20 q code s) (\<lambda>r s.
               if r < 0 then Ok (- 1) s
               else Ok 0 (set_proc i (\<lambda>p. p\<lparr>exited := True, p_exit_code := code, reap_pending := True\<rparr>) s)))"

text \<open>The exit code comes back beside the result, where the caller passed a place for it.\<close>

definition process_wait_poll :: "int \<Rightarrow> 'a proc_scheme \<Rightarrow> (int \<times> int option) \<times> 'a proc_scheme" where
  "process_wait_poll q s =
     (case find_process_by_pid q s of
        None \<Rightarrow> ((- 1, None), s)
      | Some i \<Rightarrow>
          let p = proc_table s ! i
          in if \<not> used p then ((- 1, None), s)
             else if \<not> exited p then ((0, None), s)
             else ((1, Some (p_exit_code p)),
                   if \<not> reap_pending p \<and> p_address_space p = 0
                   then set_proc i (\<lambda>p. p\<lparr>used := False, p_pid := 0, main_tid := - 1, p_entry := 0,
                          user_rsp := 0, p_exit_code := 0, exited := False\<rparr>) s
                   else s))"

definition process_is_active :: "int \<Rightarrow> 'a proc_scheme \<Rightarrow> bool" where
  "process_is_active q s =
     (case find_process_by_pid q s of
        None \<Rightarrow> False
      | Some i \<Rightarrow> if \<not> used (proc_table s ! i) then False else \<not> exited (proc_table s ! i))"

definition process_count_active :: "'a proc_scheme \<Rightarrow> u64" where
  "process_count_active s =
     fold (\<lambda>i n. if used (proc_table s ! i) \<and> \<not> exited (proc_table s ! i) then n + 1 else n)
       [0..<MAX_PROCESSES] 0"

end
