(* ===== verification/Acpi.thy ===== *)
theory Acpi
  imports ProcTable
begin

text \<open>
  ACPI, \<^verbatim>\<open>kernel/acpi.c\<close>: validation and lookup of the firmware's tables, the MADT entries that
  describe the interrupt controllers, the sleep types that the \<^verbatim>\<open>_S5\<close> object in the DSDT holds,
  and \<^verbatim>\<open>shutdown\<close>. The tables are read from physical memory at the offsets of the packed
  structures.
\<close>

unbundle bit_operations_syntax

section \<open>State\<close>

record AcpiIsoOverride =
  source_irq :: u8
  iso_gsi :: u32
  iso_flags :: u16
  valid :: bool

record AcpiMadtInfo =
  madt_present :: bool
  madt_lapic_addr :: u32
  madt_ioapic_addr :: u32
  madt_gsi_base :: u32
  cpu_lapic_count :: u32
  iso_count :: u32
  iso :: "AcpiIsoOverride list"

record acpi = proc +
  rsdt :: u64
  xsdt :: u64
  g_madt :: AcpiMadtInfo
  g_pm1a_cnt_port :: u16
  g_pm1b_cnt_port :: u16
  g_slp_typa :: u16
  g_slp_typb :: u16
  g_smi_cmd :: u32
  g_acpi_enable :: u8
  g_have_acpi_poweroff :: bool

definition blank_madt :: AcpiMadtInfo where
  "blank_madt = \<lparr>madt_present = False, madt_lapic_addr = 0, madt_ioapic_addr = 0, madt_gsi_base = 0,
     cpu_lapic_count = 0, iso_count = 0,
     iso = replicate 16 \<lparr>source_irq = 0, iso_gsi = 0, iso_flags = 0, valid = False\<rparr>\<rparr>"

section \<open>Tables\<close>

definition memeq :: "pmem \<Rightarrow> u64 \<Rightarrow> string \<Rightarrow> bool" where
  "memeq m a b \<longleftrightarrow> list_all (\<lambda>i. m (a + of_nat i) = of_char (b ! i)) [0..<length b]"

definition checksum :: "pmem \<Rightarrow> u64 \<Rightarrow> u32 \<Rightarrow> u8" where
  "checksum m ptr len = for_range 0 len (\<lambda>i sum. sum + m (ptr + ucast i)) 0"

definition table_valid :: "pmem \<Rightarrow> u64 \<Rightarrow> bool" where
  "table_valid m table \<longleftrightarrow> table \<noteq> 0 \<and> checksum m table (load32 m (table + 4)) = 0"

text \<open>The number of pointers a root table holds: computed in 64 bits and cut to 32.\<close>

definition table_entries :: "pmem \<Rightarrow> u64 \<Rightarrow> u64 \<Rightarrow> u32" where
  "table_entries m table w = ucast ((ucast (load32 m (table + 4)) - 36 :: u64) div w)"

definition xsdt_ptr :: "pmem \<Rightarrow> u64 \<Rightarrow> u32 \<Rightarrow> u64" where
  "xsdt_ptr m table i = load64 m (table + 36 + 8 * ucast i)"

definition rsdt_ptr :: "pmem \<Rightarrow> u64 \<Rightarrow> u32 \<Rightarrow> u64" where
  "rsdt_ptr m table i = ucast (load32 m (table + 36 + 4 * ucast i))"

definition acpi_find_table :: "string \<Rightarrow> 'a acpi_scheme \<Rightarrow> u64" where
  "acpi_find_table signature s =
     (let m = mem s;
          matches = (\<lambda>table. table_valid m table \<and> memeq m table signature);
          in_xsdt = (if xsdt s \<noteq> 0 \<and> table_valid m (xsdt s)
            then find_range 0 (table_entries m (xsdt s) 8) (\<lambda>i. matches (xsdt_ptr m (xsdt s) i)) else None);
          in_rsdt = (if rsdt s \<noteq> 0 \<and> table_valid m (rsdt s)
            then find_range 0 (table_entries m (rsdt s) 4) (\<lambda>i. matches (rsdt_ptr m (rsdt s) i)) else None)
      in case in_xsdt of
           Some i \<Rightarrow> xsdt_ptr m (xsdt s) i
         | None \<Rightarrow> (case in_rsdt of Some i \<Rightarrow> rsdt_ptr m (rsdt s) i | None \<Rightarrow> 0))"

definition print_signature :: "u64 \<Rightarrow> 'a acpi_scheme \<Rightarrow> 'a acpi_scheme" where
  "print_signature sig s =
     klog_info (map (\<lambda>k. char_of (unat (mem s (sig + of_nat k)))) [0..<4] @ [NUL]) s"

definition list_tables :: "'a acpi_scheme \<Rightarrow> 'a acpi_scheme" where
  "list_tables s =
     (if xsdt s \<noteq> 0 \<and> table_valid (mem s) (xsdt s)
      then for_range 0 (table_entries (mem s) (xsdt s) 8) (\<lambda>i s.
             let table = xsdt_ptr (mem s) (xsdt s) i
             in if table_valid (mem s) table then print_signature table s else s)
             (klog_info ''ACPI XSDT tables:'' s)
      else if rsdt s \<noteq> 0 \<and> table_valid (mem s) (rsdt s)
      then for_range 0 (table_entries (mem s) (rsdt s) 4) (\<lambda>i s.
             let table = rsdt_ptr (mem s) (rsdt s) i
             in if table_valid (mem s) table then print_signature table s else s)
             (klog_info ''ACPI RSDT tables:'' s)
      else s)"

section \<open>The MADT\<close>

definition madt_iso :: "u8 \<Rightarrow> u32 \<Rightarrow> u16 \<Rightarrow> AcpiMadtInfo \<Rightarrow> AcpiMadtInfo" where
  "madt_iso source gsi flags g =
     (if iso_count g < 16
      then g\<lparr>iso := (iso g)[unat (iso_count g) :=
               \<lparr>source_irq = source, iso_gsi = gsi, iso_flags = flags, valid = True\<rparr>],
             iso_count := iso_count g + 1\<rparr>
      else g)"

definition madt_entry :: "u64 \<Rightarrow> 'a acpi_scheme \<Rightarrow> 'a acpi_scheme" where
  "madt_entry ent s =
     (let m = mem s; ty = m ent; len = m (ent + 1)
      in if ty = 0 \<and> len \<ge> 8
         then (let s1 = klog_info ''MADT CPU local APIC entry'' s
               in s1\<lparr>g_madt := (g_madt s1)\<lparr>cpu_lapic_count := cpu_lapic_count (g_madt s1) + 1\<rparr>\<rparr>)
         else if ty = 1 \<and> len \<ge> 12
         then (let ioapic_addr = load32 m (ent + 4); gsi_base = load32 m (ent + 8);
                   s1 = s\<lparr>g_madt := (g_madt s)\<lparr>madt_ioapic_addr := ioapic_addr, madt_gsi_base := gsi_base\<rparr>\<rparr>;
                   s2 = klog_newline (klog_hex (ucast ioapic_addr) (klog_info ''MADT IOAPIC address:'' s1))
               in klog_newline (klog_dec (ucast gsi_base) (klog_info ''MADT IOAPIC GSI base:'' s2)))
         else if ty = 2 \<and> len \<ge> 10
         then (let source = m (ent + 3); gsi = load32 m (ent + 4); flags = load16 m (ent + 8);
                   s1 = s\<lparr>g_madt := madt_iso source gsi flags (g_madt s)\<rparr>;
                   s2 = klog_dec (ucast source) (klog_info ''MADT interrupt source override IRQ:'' s1);
                   s3 = klog_dec (ucast gsi) (klog_info ''MADT interrupt source override GSI:'' s2)
               in klog_newline (klog_hex (ucast flags)
                    (klog_info ''MADT interrupt source override flags:'' s3)))
         else s)"

partial_function (option) madt_entries ::
  "u64 \<Rightarrow> u64 \<Rightarrow> 'a acpi_scheme \<Rightarrow> 'a acpi_scheme option" where
  "madt_entries ent lim s =
     (if ent + 2 \<le> lim
      then let len = ucast (mem s (ent + 1))
           in if len < 2 \<or> ent + len > lim then Some s
              else let s1 = madt_entry ent s in madt_entries (ent + ucast (mem s1 (ent + 1))) lim s1
      else Some s)"

definition parse_madt :: "'a acpi_scheme \<Rightarrow> (unit, 'a acpi_scheme) outcome" where
  "parse_madt s =
     (let madt = acpi_find_table ''APIC'' s
      in if madt = 0 then Ok () (klog_warn ''ACPI MADT/APIC table not found'' s)
         else let lapic = load32 (mem s) (madt + 36);
                  s1 = s\<lparr>g_madt := (g_madt s)\<lparr>madt_present := True, madt_lapic_addr := lapic\<rparr>\<rparr>;
                  s2 = klog_info ''Local APIC address:'' (klog_info ''ACPI MADT found'' s1);
                  s3 = klog_newline (klog_hex (ucast (load32 (mem s2) (madt + 36))) s2)
              in case madt_entries (madt + 44) (madt + ucast (load32 (mem s3) (madt + 4))) s3 of
                   None \<Rightarrow> Hang | Some s4 \<Rightarrow> Ok () s4)"

section \<open>The sleep types\<close>

definition read_u16 :: "pmem \<Rightarrow> u64 \<Rightarrow> u16" where
  "read_u16 m p = ucast (m p) OR push_bit 8 (ucast (m (p + 1)))"

definition read_u32 :: "pmem \<Rightarrow> u64 \<Rightarrow> u32" where
  "read_u32 m p = ucast (m p) OR push_bit 8 (ucast (m (p + 1))) OR push_bit 16 (ucast (m (p + 2)))
     OR push_bit 24 (ucast (m (p + 3)))"

text \<open>An element of the package: its value and the position of its last byte.\<close>

definition aml_element :: "pmem \<Rightarrow> u64 \<Rightarrow> u32 \<Rightarrow> u32 \<Rightarrow> (u8 \<times> u32) option" where
  "aml_element m aml aml_len pos =
     (let a = m (aml + ucast pos)
      in if a = 0x0A
         then if pos + 1 \<ge> aml_len then None else Some (m (aml + ucast (pos + 1)), pos + 1)
         else if a = 0x0B
         then if pos + 2 \<ge> aml_len then None
              else Some (ucast (read_u16 m (aml + ucast (pos + 1))), pos + 2)
         else Some (a, pos))"

text \<open>One iteration of the scan: \<open>None\<close> is \<^verbatim>\<open>continue\<close>.\<close>

definition aml_s5_at :: "pmem \<Rightarrow> u64 \<Rightarrow> u32 \<Rightarrow> u32 \<Rightarrow> (u16 \<times> u16) option" where
  "aml_s5_at m aml aml_len i =
     (let at = (\<lambda>k. m (aml + ucast (k :: u32))); pre = at (i - 1)
      in if at i \<noteq> 0x5F \<or> at (i + 1) \<noteq> 0x53 \<or> at (i + 2) \<noteq> 0x35 \<or> at (i + 3) \<noteq> 0x5F then None
         else if i = 0 then None
         else if pre \<noteq> 0x08 \<and> \<not> (i \<ge> 2 \<and> at (i - 2) = 0x08 \<and> (pre = 0x5C \<or> pre = 0x5E)) then None
         else let pos = i + 4
         in if pos \<ge> aml_len then None
         else if at pos \<noteq> 0x12 then None
         else let pos = pos + 1
         in if pos \<ge> aml_len then None
         else let lead = at pos; pos = pos + 1; follow = ucast (drop_bit 6 lead AND 3)
         in if pos + follow \<ge> aml_len then None
         else let pos = pos + follow
         in if pos \<ge> aml_len then None
         else let pos = pos + 1
         in if pos \<ge> aml_len then None
         else case aml_element m aml aml_len pos of None \<Rightarrow> None | Some (a, pos) \<Rightarrow>
            let pos = pos + 1
            in if pos \<ge> aml_len then None
               else case aml_element m aml aml_len pos of None \<Rightarrow> None | Some (b, _) \<Rightarrow>
                 Some (ucast a, ucast b))"

text \<open>\<^verbatim>\<open>for (i = 0; i + 7 < aml_len; i++)\<close>: the sum wraps at 32 bits.\<close>

partial_function (option) aml_scan ::
  "pmem \<Rightarrow> u64 \<Rightarrow> u32 \<Rightarrow> u32 \<Rightarrow> (u16 \<times> u16) option option" where
  "aml_scan m aml aml_len i =
     (if i + 7 < aml_len
      then case aml_s5_at m aml aml_len i of
             Some r \<Rightarrow> Some (Some r)
           | None \<Rightarrow> aml_scan m aml aml_len (i + 1)
      else Some None)"

definition aml_extract_s5_types :: "pmem \<Rightarrow> u64 \<Rightarrow> u32 \<Rightarrow> (u16 \<times> u16) option option" where
  "aml_extract_s5_types m dsdt dsdt_len =
     (if dsdt = 0 \<or> dsdt_len < 44 then Some None
      else aml_scan m (dsdt + 36) (dsdt_len - 36) 0)"

definition parse_fadt_poweroff :: "'a acpi_scheme \<Rightarrow> (unit, 'a acpi_scheme) outcome" where
  "parse_fadt_poweroff s =
     (let m = mem s; f = acpi_find_table ''FACP'' s
      in if f = 0 \<or> \<not> table_valid m f then Ok () (klog_warn ''ACPI FADT not found'' s)
         else if load32 m (f + 4) < 90 then Ok () (klog_warn ''ACPI FADT too small for poweroff fields'' s)
         else let dsdt = ucast (read_u32 m (f + 40));
                  s1 = s\<lparr>g_smi_cmd := read_u32 m (f + 48), g_acpi_enable := m (f + 52),
                         g_pm1a_cnt_port := ucast (read_u32 m (f + 64)),
                         g_pm1b_cnt_port := ucast (read_u32 m (f + 68))\<rparr>
              in if dsdt = 0 \<or> \<not> table_valid m dsdt then Ok () (klog_warn ''ACPI DSDT invalid'' s1)
                 else case aml_extract_s5_types m dsdt (load32 m (dsdt + 4)) of
                   None \<Rightarrow> Hang
                 | Some None \<Rightarrow> Ok () (klog_warn ''ACPI _S5 object not found in DSDT'' s1)
                 | Some (Some (a, b)) \<Rightarrow>
                     let s2 = s1\<lparr>g_slp_typa := a, g_slp_typb := b\<rparr>
                     in if g_pm1a_cnt_port s2 = 0 then Ok () (klog_warn ''ACPI PM1a control block missing'' s2)
                        else Ok () (klog_info ''ACPI S5 poweroff path ready'' (s2\<lparr>g_have_acpi_poweroff := True\<rparr>)))"

definition acpi_init :: "BootInfo \<Rightarrow> 'a acpi_scheme \<Rightarrow> (unit, 'a acpi_scheme) outcome" where
  "acpi_init bootInfo s =
     (let s0 = s\<lparr>g_madt := blank_madt\<rparr>; m = mem s0; rsdp2 = rsdp bootInfo
      in if rsdp2 = 0 then Ok () (klog_warn ''ACPI RSDP not provided by bootloader'' s0)
         else if \<not> memeq m rsdp2 ''RSD PTR '' then Ok () (klog_error ''ACPI RSDP signature invalid'' s0)
         else if checksum m rsdp2 20 \<noteq> 0 then Ok () (klog_error ''ACPI RSDP checksum invalid'' s0)
         else let s1 = s0\<lparr>rsdt := ucast (load32 m (rsdp2 + 16))\<rparr>;
                  s2 = (if m (rsdp2 + 15) \<ge> 2 \<and> load32 m (rsdp2 + 20) \<ge> 36 \<and>
                           checksum m rsdp2 (load32 m (rsdp2 + 20)) = 0
                        then klog_info ''ACPI 2.0+ XSDT available'' (s1\<lparr>xsdt := load64 m (rsdp2 + 24)\<rparr>)
                        else klog_info ''ACPI 1.0 RSDT available'' s1)
              in kbind (parse_madt (list_tables s2)) (\<lambda>_ s. parse_fadt_poweroff s))"

definition acpi_get_madt_info :: "'a acpi_scheme \<Rightarrow> AcpiMadtInfo" where
  "acpi_get_madt_info s = g_madt s"

definition acpi_get_irq_override :: "u8 \<Rightarrow> 'a acpi_scheme \<Rightarrow> bool \<times> u32 \<times> u16" where
  "acpi_get_irq_override irq s =
     (case find_range 0 (iso_count (g_madt s)) (\<lambda>i. let e = iso (g_madt s) ! unat i
        in valid e \<and> source_irq e = irq) of
        Some i \<Rightarrow> (let e = iso (g_madt s) ! unat i in (True, iso_gsi e, iso_flags e))
      | None \<Rightarrow> (False, ucast irq, 0))"

section \<open>Power off\<close>

fun wait_acpi_mode :: "nat \<Rightarrow> 'a acpi_scheme \<Rightarrow> 'a acpi_scheme" where
  "wait_acpi_mode 0 s = s"
| "wait_acpi_mode (Suc n) s =
     (let (v, s1) = inw (g_pm1a_cnt_port s) s
      in if v AND 1 \<noteq> 0 then s1 else wait_acpi_mode n (io_wait s1))"

definition enter_sleep :: "u16 \<Rightarrow> u16 \<Rightarrow> 'a acpi_scheme \<Rightarrow> 'a acpi_scheme" where
  "enter_sleep port typ s =
     (let (v, s1) = inw port s
      in outw port ((v AND 0xE3FF) OR push_bit 10 typ OR 0x2000) s1)"

text \<open>The state in which \<^verbatim>\<open>shutdown\<close> halts, if the machine is still on.\<close>

definition shutdown :: "'a acpi_scheme \<Rightarrow> 'a acpi_scheme" where
  "shutdown s =
     (let s1 = cli s;
          s5 = (if g_have_acpi_poweroff s1
                then let (v, s2) = inw (g_pm1a_cnt_port s1) s1;
                         s3 = (if v AND 1 = 0 \<and> g_smi_cmd s2 \<noteq> 0 \<and> g_acpi_enable s2 \<noteq> 0
                               then wait_acpi_mode 30000 (outb (ucast (g_smi_cmd s2)) (g_acpi_enable s2) s2)
                               else s2);
                         s4 = enter_sleep (g_pm1a_cnt_port s3) (g_slp_typa s3) s3
                     in if g_pm1b_cnt_port s4 \<noteq> 0 then enter_sleep (g_pm1b_cnt_port s4) (g_slp_typb s4) s4 else s4
                else s1)
      in outw 0x4004 0x3400 (outw 0xB004 0x2000 (outw 0x604 0x2000 s5)))"

section \<open>Lookup\<close>

lemma find_range_Some_P: "find_range i n P = Some k \<Longrightarrow> P k"
  by (induction i n P rule: find_range.induct) (subst (asm) find_range.simps, simp split: if_splits)

lemma acpi_find_table_sound:
  assumes "acpi_find_table sig s \<noteq> 0"
  shows "table_valid (mem s) (acpi_find_table sig s) \<and> memeq (mem s) (acpi_find_table sig s) sig"
  using assms unfolding acpi_find_table_def Let_def
  by (auto dest!: find_range_Some_P split: option.splits if_splits)

section \<open>The scan of the DSDT\<close>

text \<open>Two memories that agree on the first \<open>len\<close> bytes from an address.\<close>

definition agree :: "pmem \<Rightarrow> pmem \<Rightarrow> u64 \<Rightarrow> u32 \<Rightarrow> bool" where
  "agree m m' a len \<longleftrightarrow> (\<forall>k < len. m (a + ucast k) = m' (a + ucast k))"

lemma agreeD: "agree m m' a len \<Longrightarrow> k < len \<Longrightarrow> m (a + ucast k) = m' (a + ucast k)"
  by (simp add: agree_def)

lemma u32_add_less:
  assumes "unat (i :: u32) + n < 2 ^ 32"
  shows "unat (i + of_nat n) = unat i + n"
  using assms by (subst unat_add_lem [THEN iffD1]) (simp_all add: unat_of_nat)

lemma u32_shift_less:
  assumes "i + of_nat n < len" and "unat len \<le> 2 ^ 31" and "unat i \<le> 2 ^ 31" and "k \<le> n" "n \<le> 1000"
  shows "i + of_nat k < (len :: u32)"
proof -
  have "unat (i + of_nat n) = unat i + n" "unat (i + of_nat k) = unat i + k"
    using assms by (auto intro!: u32_add_less)
  then show ?thesis using assms(1,4) by (simp add: word_less_nat_alt)
qed

lemma read_u16_agree:
  assumes ag: "agree m m' a len" and "pos + 2 < len" and "unat len \<le> 2 ^ 31" and "pos < len"
  shows "read_u16 m (a + ucast (pos + 1)) = read_u16 m' (a + ucast (pos + 1))"
proof -
  have p: "unat pos \<le> 2 ^ 31" using assms(3,4) by (simp add: word_less_nat_alt)
  have "pos + 1 < len" using u32_shift_less [of pos 2 len 1] assms p by simp
  moreover have e: "a + ucast (pos + 1) + 1 = a + ucast (pos + 2)"
  proof -
    have u: "unat (pos + 1) = unat pos + 1" "unat (pos + 2) = unat pos + 2"
      using u32_add_less [of pos 1] u32_add_less [of pos 2] p by simp_all
    have "unat (ucast (pos + 1) + 1 :: u64) = unat (ucast (pos + 2) :: u64)"
      using u p by (simp add: unat_word_ariths unsigned_ucast_eq take_bit_eq_mod)
    then have "(ucast (pos + 1) + 1 :: u64) = ucast (pos + 2)" by (simp only: word_unat_eq_iff)
    then show ?thesis by (metis add.assoc)
  qed
  ultimately show ?thesis using agreeD [OF ag, of "pos + 1"] agreeD [OF ag assms(2)]
    unfolding read_u16_def e by simp
qed

lemma aml_element_agree:
  assumes ag: "agree m m' a len" and "pos < len" and "unat len \<le> 2 ^ 31"
  shows "aml_element m a len pos = aml_element m' a len pos"
proof -
  note r = agreeD [OF ag]
  show ?thesis unfolding aml_element_def Let_def
    using r [OF assms(2)] r [of "pos + 1"] read_u16_agree [OF ag _ assms(3,2)]
    by (auto simp: not_le)
qed

lemma aml_s5_at_agree:
  assumes ag: "agree m m' a len" and i: "i + 7 < len" and l: "unat len \<le> 2 ^ 31" and u: "unat i \<le> 2 ^ 31"
  shows "aml_s5_at m a len i = aml_s5_at m' a len i"
proof -
  have b: "i < len" "i + 1 < len" "i + 2 < len" "i + 3 < len"
    using u32_shift_less [of i 7 len 0] u32_shift_less [of i 7 len 1] u32_shift_less [of i 7 len 2]
      u32_shift_less [of i 7 len 3] i l u by simp_all
  have p: "i \<noteq> 0 \<Longrightarrow> i - 1 < len" "i \<ge> 2 \<Longrightarrow> i - 2 < len"
    using b(1) by (auto simp: word_less_nat_alt unat_minus_one unat_sub word_le_nat_alt)
  note r = agreeD [OF ag]
  have q: "\<not> i < 2 \<Longrightarrow> m (a + ucast (i - 2)) = m' (a + ucast (i - 2))" using r p(2) by (simp add: not_less)
  show ?thesis
    unfolding aml_s5_at_def Let_def
    by (cases "i < 2") (simp_all add: q r b p aml_element_agree [OF ag _ l] not_le cong: if_cong option.case_cong)
qed

lemma aml_scan_total:
  assumes l: "unat len \<le> 2 ^ 31" and i: "unat i \<le> 2 ^ 31"
  shows "\<exists>r. aml_scan m a len i = Some r \<and> (\<forall>m'. agree m m' a len \<longrightarrow> aml_scan m' a len i = Some r)"
  using i
proof (induction "unat len - unat i" arbitrary: i rule: less_induct)
  case less
  show ?case
  proof (cases "i + 7 < len")
    case False
    then show ?thesis by (simp add: aml_scan.simps)
  next
    case True
    have u: "unat (i + 7) = unat i + 7" "unat (i + 1) = unat i + 1"
      using u32_add_less [of i 7] u32_add_less [of i 1] less.prems by simp_all
    have d: "unat len - unat (i + 1) < unat len - unat i" "unat (i + 1) \<le> 2 ^ 31"
      using True l u by (simp_all add: word_less_nat_alt)
    obtain r where r: "aml_scan m a len (i + 1) = Some r" "\<forall>m'. agree m m' a len \<longrightarrow> aml_scan m' a len (i + 1) = Some r"
      using less.hyps [OF d] by blast
    have "agree m m' a len \<Longrightarrow> aml_s5_at m' a len i = aml_s5_at m a len i" for m'
      using aml_s5_at_agree [of m m' a len i] True l less.prems by simp
    then show ?thesis
      using r True by (subst (1 2) aml_scan.simps) (auto split: option.splits)
  qed
qed

section \<open>The MADT\<close>

lemma con_only_acpi:
  fixes s t :: "'a acpi_scheme"
  assumes "con_only s t"
  shows "mem t = mem s" "g_madt t = g_madt s" "rsdt t = rsdt s" "xsdt t = xsdt s"
  using assms by (auto simp: con_only_def)

lemma klog_acpi [simp]:
  fixes s :: "'a acpi_scheme"
  shows "mem (klog_info m s) = mem s" "g_madt (klog_info m s) = g_madt s"
    "mem (klog_hex v s) = mem s" "g_madt (klog_hex v s) = g_madt s"
    "mem (klog_dec v s) = mem s" "g_madt (klog_dec v s) = g_madt s"
    "mem (klog_newline s) = mem s" "g_madt (klog_newline s) = g_madt s"
    "mem (klog_warn m s) = mem s" "g_madt (klog_warn m s) = g_madt s"
  by (simp_all add: con_only_acpi [OF con_only_klog(1)] con_only_acpi [OF con_only_klog(2)]
      con_only_acpi [OF con_only_klog(4)] con_only_acpi [OF con_only_klog(5)] con_only_acpi [OF con_only_klog(6)])

text \<open>The overrides recorded so far are valid entries of the table of sixteen.\<close>

definition madt_ok :: "AcpiMadtInfo \<Rightarrow> bool" where
  "madt_ok g \<longleftrightarrow> length (iso g) = 16 \<and> unat (iso_count g) \<le> 16 \<and> (\<forall>i < unat (iso_count g). valid (iso g ! i))"

lemma blank_madt_ok: "madt_ok blank_madt"
  by (simp add: madt_ok_def blank_madt_def)

lemma madt_iso_ok:
  assumes "madt_ok g"
  shows "madt_ok (madt_iso source gsi flags g)"
proof (cases "iso_count g < 16")
  case True
  then have "unat (iso_count g + 1) = Suc (unat (iso_count g))" "unat (iso_count g) < 16"
    using unat_Suc_less [OF True] True by (simp_all add: word_less_nat_alt)
  then show ?thesis using assms True by (auto simp: madt_iso_def madt_ok_def nth_list_update less_Suc_eq)
qed (use assms in \<open>simp add: madt_iso_def\<close>)

lemma madt_entry_frame:
  "mem (madt_entry ent s) = mem s" "madt_ok (g_madt s) \<Longrightarrow> madt_ok (g_madt (madt_entry ent s))"
  by (simp_all add: madt_entry_def Let_def madt_iso_ok) (simp_all add: madt_ok_def)

lemma madt_entries_total:
  assumes "unat lim + 256 \<le> 2 ^ 64" and "unat ent + 256 \<le> 2 ^ 64" and "madt_ok (g_madt s)"
  shows "\<exists>t. madt_entries ent lim s = Some t \<and> mem t = mem s \<and> madt_ok (g_madt t)"
  using assms(2,3)
proof (induction "unat lim - unat ent" arbitrary: ent s rule: less_induct)
  case less
  define len :: u64 where "len = ucast (mem s (ent + 1))"
  show ?case
  proof (cases "ent + 2 \<le> lim \<and> \<not> (len < 2 \<or> ent + len > lim)")
    case False
    then show ?thesis
      using less.prems by (subst madt_entries.simps) (auto simp: Let_def len_def)
  next
    case True
    have l: "unat len < 256"
      using unsigned_less [of "mem s (ent + 1)", where ?'a = nat] by (simp add: len_def unsigned_ucast_eq take_bit_eq_mod)
    have u: "unat (ent + len) = unat ent + unat len" "unat (ent + 2) = unat ent + 2"
      using l less.prems(1) by (subst unat_add_lem [THEN iffD1]; simp)+
    have g: "2 \<le> unat len" "unat ent + unat len \<le> unat lim" "unat ent < unat lim"
      using True u by (simp_all add: word_less_nat_alt word_le_nat_alt not_less)
    define s1 where "s1 = madt_entry ent s"
    have m: "mem s1 = mem s" "madt_ok (g_madt s1)" using madt_entry_frame less.prems by (simp_all add: s1_def)
    have "\<exists>t. madt_entries (ent + len) lim s1 = Some t \<and> mem t = mem s1 \<and> madt_ok (g_madt t)"
      using g u(1) assms(1) m(2) by (intro less.hyps) simp_all
    then show ?thesis
      using True m by (subst madt_entries.simps) (simp add: Let_def len_def [symmetric] s1_def [symmetric])
  qed
qed

section \<open>Properties\<close>

text \<open>
  C35: the search for the sleep types in the DSDT ends, and its result depends only on the bytes of the
  table: no read goes past its length, whatever the table contains.
\<close>

theorem aml_extract_in_bounds:
  assumes "unat len \<le> 2 ^ 31"
  shows "\<exists>r. aml_extract_s5_types m dsdt len = Some r \<and>
    (\<forall>m'. (\<forall>k < unat len. m' (dsdt + of_nat k) = m (dsdt + of_nat k)) \<longrightarrow> aml_extract_s5_types m' dsdt len = Some r)"
proof (cases "dsdt = 0 \<or> len < 44")
  case True
  then show ?thesis by (auto simp: aml_extract_s5_types_def)
next
  case False
  then have l: "44 \<le> unat len" by (simp add: word_less_nat_alt not_less)
  have s: "unat (len - 36) = unat len - 36" using l by (subst unat_sub) (simp_all add: word_le_nat_alt)
  have l36: "unat (len - 36) \<le> 2 ^ 31" using s assms by linarith
  obtain r where r: "aml_scan m (dsdt + 36) (len - 36) 0 = Some r"
    "\<forall>m'. agree m m' (dsdt + 36) (len - 36) \<longrightarrow> aml_scan m' (dsdt + 36) (len - 36) 0 = Some r"
    using aml_scan_total [of "len - 36" 0 m "dsdt + 36"] l36 by auto
  have "agree m m' (dsdt + 36) (len - 36)"
    if "\<forall>k < unat len. m' (dsdt + of_nat k) = m (dsdt + of_nat k)" for m'
    unfolding agree_def
  proof (intro allI impI)
    fix k :: u32 assume "k < len - 36"
    then have k: "unat k + 36 < unat len" using s by (simp add: word_less_nat_alt)
    have "dsdt + of_nat (unat k + 36) = dsdt + 36 + ucast k"
      by (simp add: algebra_simps)
    then show "m (dsdt + 36 + ucast k) = m' (dsdt + 36 + ucast k)" using that k by metis
  qed
  then show ?thesis using False r by (auto simp: aml_extract_s5_types_def)
qed

text \<open>A table of 64 bytes with the object \<^verbatim>\<open>_S5\<close> and the package \<^verbatim>\<open>{5, 5}\<close>.\<close>

definition example_dsdt :: pmem where
  "example_dsdt a = (if a < 0x1024 then 0 else if a < 0x1030 then
     [0x08, 0x5F, 0x53, 0x35, 0x5F, 0x12, 0x06, 0x04, 0x0A, 0x05, 0x0A, 0x05] ! unat (a - 0x1024) else 0)"

theorem aml_extract_in_bounds_witness:
  "\<exists>r. aml_extract_s5_types example_dsdt 0x1000 64 = Some r \<and>
     aml_extract_s5_types (example_dsdt(0x2000 := 7)) 0x1000 64 = Some r"
proof -
  have "(example_dsdt(0x2000 := 7)) (0x1000 + of_nat k) = example_dsdt (0x1000 + of_nat k)" if "k < 64" for k
  proof -
    have "(0x1000 + of_nat k :: u64) \<noteq> 0x2000"
    proof
      assume "(0x1000 + of_nat k :: u64) = 0x2000"
      then have "unat (0x1000 + of_nat k :: u64) = 0x2000" by simp
      then show False using that by (simp add: unat_word_ariths unat_of_nat)
    qed
    then show ?thesis by simp
  qed
  then show ?thesis using aml_extract_in_bounds [of 64 example_dsdt "0x1000"] by auto
qed

text \<open>
  C36: reading the MADT ends, whatever lengths its entries claim, if the table does not reach to the last
  bytes of the address space; it records at most sixteen overrides, all of them valid, and writes no memory.
\<close>

theorem parse_madt_returns:
  fixes s :: "'a acpi_scheme"
  defines "t \<equiv> acpi_find_table ''APIC'' s"
  assumes "madt_ok (g_madt s)" and "unat t + unat (load32 (mem s) (t + 4)) + 256 \<le> 2 ^ 64" and "unat t + 300 \<le> 2 ^ 64"
  shows "\<exists>s'. parse_madt s = Ok () s' \<and> mem s' = mem s \<and> madt_ok (g_madt s')"
proof (cases "t = 0")
  case True
  then show ?thesis using assms(2) by (simp add: parse_madt_def Let_def t_def)
next
  case False
  let ?l = "load32 (mem s) (t + 4)"
  have u: "unat (t + ucast ?l) = unat t + unat ?l"
    using assms(3) by (subst unat_add_lem [THEN iffD1]) (simp_all add: unsigned_ucast_eq take_bit_eq_mod)
  have u': "unat (t + 44) = unat t + 44"
    using assms(4) by (subst unat_add_lem [THEN iffD1]) simp_all
  define s3 where "s3 = klog_newline (klog_hex (ucast (load32 (mem s) (t + 36)))
    (klog_info ''Local APIC address:'' (klog_info ''ACPI MADT found''
      (s\<lparr>g_madt := (g_madt s)\<lparr>madt_present := True, madt_lapic_addr := load32 (mem s) (t + 36)\<rparr>\<rparr>))))"
  have m: "mem s3 = mem s" "madt_ok (g_madt s3)" using assms(2) by (simp_all add: s3_def madt_ok_def)
  obtain s4 where "madt_entries (t + 44) (t + ucast ?l) s3 = Some s4" "mem s4 = mem s3" "madt_ok (g_madt s4)"
    using madt_entries_total [of "t + ucast ?l" "t + 44" s3] m u u' assms(3,4) by auto
  then show ?thesis using False m by (simp add: parse_madt_def Let_def t_def [symmetric] s3_def [symmetric])
qed

definition bytes_at :: "u64 \<Rightarrow> u8 list \<Rightarrow> pmem \<Rightarrow> pmem" where
  "bytes_at a bs m x = (if a \<le> x \<and> unat (x - a) < length bs then bs ! unat (x - a) else m x)"

text \<open>An XSDT at 0x1000 that points to a MADT at 0x2000 with one override, of line 0 to input 2.\<close>

definition example_tables :: pmem where
  "example_tables = bytes_at 0x1000
     [88, 83, 68, 84, 44, 0, 0, 0, 1, 112,
      0, 0, 0, 0, 0, 0, 0, 0, 0, 0, 0, 0, 0, 0, 0, 0, 0, 0, 0, 0, 0, 0, 0, 0, 0, 0, 0, 32, 0, 0, 0, 0, 0, 0]
     (bytes_at 0x2000
     [65, 80, 73, 67, 54, 0, 0, 0, 1, 192,
      0, 0, 0, 0, 0, 0, 0, 0, 0, 0, 0, 0, 0, 0, 0, 0, 0, 0, 0, 0, 0, 0, 0, 0, 0, 0, 0, 0, 224, 254, 0, 0, 0, 0, 2, 10, 0, 0, 2, 0, 0, 0, 0, 0] (\<lambda>_. 0))"

definition example_acpi :: "acpi \<Rightarrow> acpi" where
  "example_acpi s = s\<lparr>mem := example_tables, xsdt := 0x1000, rsdt := 0, g_madt := blank_madt\<rparr>"

lemma example_find: "acpi_find_table ''APIC'' (example_acpi s) = 0x2000"
proof -
  have v: "table_valid example_tables 0x1000" "table_valid example_tables 0x2000" "memeq example_tables 0x2000 ''APIC''"
    "table_entries example_tables 0x1000 8 = 1" "xsdt_ptr example_tables 0x1000 0 = 0x2000"
    by code_simp+
  have "find_range 0 1 (\<lambda>i :: u32. table_valid example_tables (xsdt_ptr example_tables 0x1000 i)
      \<and> memeq example_tables (xsdt_ptr example_tables 0x1000 i) ''APIC'') = Some 0"
    by (subst find_range.simps) (simp add: v)
  then show ?thesis by (simp add: acpi_find_table_def Let_def example_acpi_def v)
qed

theorem parse_madt_returns_witness:
  "\<forall>s. \<exists>s'. parse_madt (example_acpi s) = Ok () s' \<and> madt_ok (g_madt s')"
proof
  fix s
  have "load32 example_tables 0x2004 = 54" by code_simp
  then show "\<exists>s'. parse_madt (example_acpi s) = Ok () s' \<and> madt_ok (g_madt s')"
    using parse_madt_returns [of "example_acpi s"] blank_madt_ok
    by (simp add: example_find) (auto simp: example_acpi_def)
qed

text \<open>
  a table that \<^verbatim>\<open>acpi_find_table\<close> returns has the signature asked for, and the bytes of its
  claimed length sum to zero.
\<close>

theorem acpi_find_table_valid:
  assumes "acpi_find_table sig s = t" and "t \<noteq> 0"
  shows "memeq (mem s) t sig \<and> checksum (mem s) t (load32 (mem s) (t + 4)) = 0"
  using acpi_find_table_sound [of sig s] assms by (auto simp: table_valid_def)

theorem acpi_find_table_valid_witness:
  "\<forall>s. memeq (mem (example_acpi s)) 0x2000 ''APIC''"
proof
  fix s
  show "memeq (mem (example_acpi s)) 0x2000 ''APIC''"
    using acpi_find_table_valid [OF example_find, of s] by simp
qed

end
