(* ===== verification/Sched.thy ===== *)
theory Sched
  imports ProcTable
begin

text \<open>
  The scheduler of \<^verbatim>\<open>kernel/scheduler/task.c\<close>: the context switch, its entry from the timer
  tick and from a trap, and the dispatch of the first task. The result of a switch is the
  stack pointer to resume from, 0 when the interrupted task goes on.
\<close>

definition context_switch_from :: "u64 \<Rightarrow> 'a proc_scheme \<Rightarrow> (u64, 'a proc_scheme) outcome" where
  "context_switch_from current_rsp s =
     (let s1 = process_reap_deferred s;
          s2 = (if current_tid s1 \<ge> 0
                then set_current (\<lambda>t. t\<lparr>kernel_rsp := current_rsp, trapframe := current_rsp,
                       state := (if state t = TASK_RUNNING then TASK_RUNNABLE else state t)\<rparr>) s1
                else s1);
          next_tid = pick_next_runnable s2
      in if next_tid < 0
         then if current_tid s2 \<ge> 0
              then Ok 0 (set_current (\<lambda>t. t\<lparr>state := TASK_RUNNING\<rparr>) s2)
              else Ok 0 s2
         else if next_tid = current_tid s2
         then Ok 0 (set_task (nat next_tid) (\<lambda>t. t\<lparr>state := TASK_RUNNING\<rparr>) s2)
         else let s3 = set_task (nat next_tid) (\<lambda>t. t\<lparr>state := TASK_RUNNING, timeslice := timeslice t + 1\<rparr>)
                         (s2\<lparr>current_tid := next_tid\<rparr>)
              in kbind (task_switch_address_space (tasks s3 ! nat next_tid) s3) (\<lambda>_ s4.
                   Ok (kernel_rsp (tasks s4 ! nat next_tid)) (s4\<lparr>switch_count := switch_count s4 + 1\<rparr>)))"

definition schedule_on_tick :: "u64 \<Rightarrow> 'a proc_scheme \<Rightarrow> (u64, 'a proc_scheme) outcome" where
  "schedule_on_tick current_rsp s =
     (if current_tid s \<ge> 0 \<and> state (tasks s ! nat (current_tid s)) = TASK_RUNNING
      then let s1 = s\<lparr>slice_ticks := slice_ticks s + 1\<rparr>
           in if slice_ticks s1 < TICKS_PER_SLICE then Ok 0 s1
              else context_switch_from current_rsp (s1\<lparr>slice_ticks := 0\<rparr>)
      else context_switch_from current_rsp (s\<lparr>slice_ticks := 0\<rparr>))"

definition task_schedule_from_interrupt :: "u64 \<Rightarrow> 'a proc_scheme \<Rightarrow> (u64, 'a proc_scheme) outcome" where
  "task_schedule_from_interrupt frame s =
     kbind (kassert (frame \<noteq> 0) ''task_schedule_from_interrupt: null frame'' s) (\<lambda>_ s.
     context_switch_from frame s)"

text \<open>
  \<^verbatim>\<open>schedule\<close> pops the fifteen registers, skips the vector and the error code and returns from
  the interrupt: what it resumes with is the frame without these two. \<open>None\<close> is its return.
\<close>

definition resumed_registers :: "pmem \<Rightarrow> u64 \<Rightarrow> u64 list" where
  "resumed_registers m rsp = map (frame_get m rsp) ([0..<15] @ [17..<22])"

definition schedule :: "'a proc_scheme \<Rightarrow> (u64 list option, 'a proc_scheme) outcome" where
  "schedule s =
     kbind (context_switch_from 0 s) (\<lambda>next_rsp s.
       if next_rsp = 0 then Ok None s else Ok (Some (resumed_registers (mem s) next_rsp)) s)"

definition idle_task :: "'a proc_scheme \<Rightarrow> (unit, 'a proc_scheme) outcome" where
  "idle_task s = Hang"

section \<open>What reaping leaves alone\<close>

lemma mem_only_for_range:
  fixes i n :: "'w::len word"
  assumes "i \<le> n" and "\<And>k t. mem_only t (f k t)"
  shows "mem_only s (for_range i n f s)"
proof (rule for_range_invariant [where I = "\<lambda>_. mem_only s"])
  show "mem_only s s" by simp
  show "i \<le> n" by fact
  show "mem_only s (f k t)" if "mem_only s t" for k t using that assms(2) by (rule mem_only_trans)
qed

lemma mem_only_destroy:
  fixes s :: "'a vmm_scheme"
  shows "mem_only s (vmm_destroy_address_space as s)"
proof -
  have pt: "mem_only t (destroy_pt pd i t)" for pd i and t :: "'a vmm_scheme"
    by (simp add: destroy_pt_def mem_only_pmm_free_page)
  have pd: "mem_only t (destroy_pd pdpt i t)" for pdpt i and t :: "'a vmm_scheme"
    unfolding destroy_pd_def Let_def
    by (auto intro!: mem_only_trans [OF _ mem_only_pmm_free_page] mem_only_for_range pt)
  have pdpt: "mem_only t (destroy_pdpt as i t)" for i and t :: "'a vmm_scheme"
    unfolding destroy_pdpt_def Let_def
    by (auto intro!: mem_only_trans [OF _ mem_only_pmm_free_page] mem_only_for_range pd)
  show ?thesis
    unfolding vmm_destroy_address_space_def Let_def
    by (intro mem_only_trans [OF _ mem_only_pmm_free_page] mem_only_for_range pdpt) simp
qed

lemma mem_only_sched:
  fixes s t :: "'a sched_scheme"
  assumes "mem_only s t"
  shows "tasks t = tasks s" "current_tid t = current_tid s" "switch_count t = switch_count s"
    "slice_ticks t = slice_ticks s" "heap_head t = heap_head s"
  using assms by (auto simp: mem_only_def)

lemma reap_slot_sched [simp]:
  "tasks (reap_slot as i s) = tasks s" "current_tid (reap_slot as i s) = current_tid s"
  "switch_count (reap_slot as i s) = switch_count s" "slice_ticks (reap_slot as i s) = slice_ticks s"
  using mem_only_sched [OF mem_only_destroy [where s = s]]
  by (auto simp: reap_slot_def Let_def set_proc_def)

lemma reap_sched [simp]:
  "tasks (process_reap_deferred s) = tasks s" "current_tid (process_reap_deferred s) = current_tid s"
  "switch_count (process_reap_deferred s) = switch_count s" "slice_ticks (process_reap_deferred s) = slice_ticks s"
proof -
  have "tasks (fold (reap_slot as) is s) = tasks s \<and> current_tid (fold (reap_slot as) is s) = current_tid s
    \<and> switch_count (fold (reap_slot as) is s) = switch_count s \<and> slice_ticks (fold (reap_slot as) is s) = slice_ticks s"
    for as "is" by (induction "is" arbitrary: s) simp_all
  then show "tasks (process_reap_deferred s) = tasks s" "current_tid (process_reap_deferred s) = current_tid s"
    "switch_count (process_reap_deferred s) = switch_count s" "slice_ticks (process_reap_deferred s) = slice_ticks s"
    by (simp_all add: process_reap_deferred_def Let_def)
qed

text \<open>With nothing to reap, reaping does nothing.\<close>

definition no_reaps :: "'a proc_scheme \<Rightarrow> bool" where
  "no_reaps s \<longleftrightarrow> (\<forall>i < 16. \<not> (used (proc_table s ! i) \<and> reap_pending (proc_table s ! i)))"

lemma reap_nothing: "no_reaps s \<Longrightarrow> process_reap_deferred s = s"
proof -
  assume n: "no_reaps s"
  have "fold (reap_slot as) is s = s" if "\<forall>i \<in> set is. i < 16" for as "is"
    using that n by (induction "is") (auto simp: reap_slot_def Let_def no_reaps_def)
  then show ?thesis by (simp add: process_reap_deferred_def Let_def)
qed

section \<open>Round robin\<close>

definition ready :: "Task \<Rightarrow> bool" where
  "ready t \<longleftrightarrow> state t = TASK_RUNNABLE \<or> state t = TASK_RUNNING"

definition sched_start :: "int \<Rightarrow> nat" where
  "sched_start c = (if c < 0 then 0 else (nat c + 1) mod 16)"

text \<open>How many slots the search passes before it comes to slot \<open>k\<close>.\<close>

definition sched_dist :: "int \<Rightarrow> nat \<Rightarrow> nat" where
  "sched_dist c k = (k + 16 - sched_start c) mod 16"

lemma sched_start_less [simp]: "sched_start c < 16"
  by (simp add: sched_start_def)

lemma sched_dist_less [simp]: "sched_dist c k < 16"
  by (simp add: sched_dist_def)

lemma sched_dist_slot:
  assumes "k < 16"
  shows "(sched_start c + sched_dist c k) mod 16 = k"
proof -
  have "sched_start c + (k + 16 - sched_start c) = k + 16" using sched_start_less [of c] by linarith
  then show ?thesis using assms unfolding sched_dist_def mod_add_right_eq by simp
qed

lemma mod16_round:
  fixes a i :: nat
  assumes "a < 16" and "i < 16"
  shows "((a + i) mod 16 + 16 - a) mod 16 = i"
proof (cases "a + i < 16")
  case True
  then have "(a + i) mod 16 = a + i" by (rule mod_less)
  then have "(a + i) mod 16 + 16 - a = i + 16" by linarith
  then show ?thesis using assms(2) by simp
next
  case False
  then have "(a + i) mod 16 = (a + i - 16) mod 16" by (intro le_mod_geq) linarith
  also have "\<dots> = a + i - 16" using assms by (intro mod_less) linarith
  finally have "(a + i) mod 16 + 16 - a = i" using False by linarith
  then show ?thesis using assms(2) by simp
qed

lemma sched_dist_of_slot: "i < 16 \<Longrightarrow> sched_dist c ((sched_start c + i) mod 16) = i"
  unfolding sched_dist_def by (rule mod16_round) simp_all

lemma pick_cases:
  obtains (none) "pick_next_runnable s = - 1" "\<And>k. k < 16 \<Longrightarrow> \<not> ready (tasks s ! k)"
  | (some) j where "pick_next_runnable s = int j" "j < 16" "ready (tasks s ! j)"
      "\<And>k. k < 16 \<Longrightarrow> ready (tasks s ! k) \<Longrightarrow> sched_dist (current_tid s) j \<le> sched_dist (current_tid s) k"
proof -
  let ?st = "sched_start (current_tid s)"
  let ?P = "\<lambda>i. ready (tasks s ! ((?st + i) mod 16))"
  have p: "pick_next_runnable s = (case find ?P [0..<16] of None \<Rightarrow> - 1 | Some i \<Rightarrow> int ((?st + i) mod 16))"
    unfolding pick_next_runnable_def Let_def ready_def sched_start_def by (rule refl)
  show ?thesis
  proof (cases "find ?P [0..<16]")
    case None
    then have "\<not> ?P i" if "i < 16" for i using that by (auto simp: find_None_iff)
    then have "\<not> ready (tasks s ! k)" if "k < 16" for k
      using sched_dist_slot [OF that, of "current_tid s"] by (metis sched_dist_less)
    then show ?thesis using none p None by simp
  next
    case (Some i)
    then have i: "i < 16" "?P i" "\<forall>j < i. \<not> ?P j" by (auto simp: find_Some_iff)
    have "i \<le> sched_dist (current_tid s) k" if "k < 16" "ready (tasks s ! k)" for k
      using i(3) sched_dist_slot [OF that(1), of "current_tid s"] that(2) by (metis not_le)
    then show ?thesis
      using some [of "(?st + i) mod 16"] p Some i sched_dist_of_slot [OF i(1), of "current_tid s"] by simp
  qed
qed
section \<open>The context switch\<close>

definition sched_inv :: "'a sched_scheme \<Rightarrow> bool" where
  "sched_inv s \<longleftrightarrow> length (tasks s) = 16 \<and> - 1 \<le> current_tid s \<and> current_tid s < 16 \<and>
     (\<forall>i < 16. state (tasks s ! i) = TASK_RUNNING \<longrightarrow> int i = current_tid s)"

text \<open>The interrupted task gives up the processor: its context is saved and it is no longer running.\<close>

definition pause_task :: "u64 \<Rightarrow> Task \<Rightarrow> Task" where
  "pause_task rsp t = t\<lparr>kernel_rsp := rsp, trapframe := rsp,
     state := (if state t = TASK_RUNNING then TASK_RUNNABLE else state t)\<rparr>"

definition pause :: "u64 \<Rightarrow> 'a proc_scheme \<Rightarrow> 'a proc_scheme" where
  "pause rsp s = (if current_tid s \<ge> 0 then set_current (pause_task rsp) s else s)"

lemma context_switch_eq:
  "context_switch_from rsp s =
     (let s2 = pause rsp (process_reap_deferred s); n = pick_next_runnable s2
      in if n < 0 then Ok 0 (if current_tid s2 \<ge> 0 then set_current (\<lambda>t. t\<lparr>state := TASK_RUNNING\<rparr>) s2 else s2)
         else if n = current_tid s2 then Ok 0 (set_task (nat n) (\<lambda>t. t\<lparr>state := TASK_RUNNING\<rparr>) s2)
         else let s3 = set_task (nat n) (\<lambda>t. t\<lparr>state := TASK_RUNNING, timeslice := timeslice t + 1\<rparr>)
                         (s2\<lparr>current_tid := n\<rparr>)
              in kbind (task_switch_address_space (tasks s3 ! nat n) s3) (\<lambda>_ s4.
                   Ok (kernel_rsp (tasks s4 ! nat n)) (s4\<lparr>switch_count := switch_count s4 + 1\<rparr>)))"
  by (simp add: context_switch_from_def pause_def pause_task_def [abs_def] Let_def)

definition paused_tasks :: "u64 \<Rightarrow> 'a sched_scheme \<Rightarrow> Task list" where
  "paused_tasks rsp s = (if current_tid s \<ge> 0
     then (tasks s)[nat (current_tid s) := pause_task rsp (tasks s ! nat (current_tid s))] else tasks s)"

lemma pause_fields [simp]:
  "tasks (pause rsp s) = paused_tasks rsp s" "current_tid (pause rsp s) = current_tid s"
  "switch_count (pause rsp s) = switch_count s" "mem (pause rsp s) = mem s"
  "kernel_address_space (pause rsp s) = kernel_address_space s" "proc_table (pause rsp s) = proc_table s"
  by (simp_all add: pause_def paused_tasks_def set_current_def set_task_def)

lemma length_paused [simp]: "length (paused_tasks rsp s) = length (tasks s)"
  by (simp add: paused_tasks_def)

lemma paused_nth:
  assumes "sched_inv s" and "i < 16"
  shows "paused_tasks rsp s ! i = (if int i = current_tid s then pause_task rsp (tasks s ! i) else tasks s ! i)"
  using assms by (auto simp: paused_tasks_def sched_inv_def nth_list_update)

lemma paused_not_running:
  assumes "sched_inv s" and "i < 16"
  shows "state (paused_tasks rsp s ! i) \<noteq> TASK_RUNNING"
    and "ready (paused_tasks rsp s ! i) \<longleftrightarrow> ready (tasks s ! i)"
    and "is_user (paused_tasks rsp s ! i) = is_user (tasks s ! i)"
    and "address_space (paused_tasks rsp s ! i) = address_space (tasks s ! i)"
    and "tcr3 (paused_tasks rsp s ! i) = tcr3 (tasks s ! i)"
  using assms unfolding paused_nth [OF assms] by (auto simp: sched_inv_def pause_task_def ready_def)

text \<open>The page-table root the processor uses while a task runs.\<close>

definition task_root :: "'a sched_scheme \<Rightarrow> Task \<Rightarrow> u64" where
  "task_root s t = (if is_user t then tcr3 t else pml4_of s (kernel_address_space s))"

definition switchable :: "'a sched_scheme \<Rightarrow> Task \<Rightarrow> bool" where
  "switchable s t \<longleftrightarrow> task_root s t \<noteq> 0 \<and> (is_user t \<longrightarrow> address_space t \<noteq> 0)"

lemma switch_address_space_cases:
  obtains (ok) "switchable s t" "task_switch_address_space t s = Ok () (s\<lparr>cr3 := task_root s t\<rparr>)"
  | (panic) m where "\<not> switchable s t" "task_switch_address_space t s = Panic m s"
  by (cases "switchable s t"; cases "is_user t"; cases "address_space t = 0";
      simp add: task_switch_address_space_def switchable_def task_root_def kassert_def)

lemma pml4_of_upd [simp]:
  "pml4_of (s\<lparr>current_tid := c\<rparr>) = pml4_of s" "pml4_of (s\<lparr>tasks := ts\<rparr>) = pml4_of s"
  "pml4_of (s\<lparr>switch_count := n\<rparr>) = pml4_of s" "pml4_of (s\<lparr>cr3 := r\<rparr>) = pml4_of s"
  by (simp_all add: pml4_of_def fun_eq_iff)

definition resume_task :: "Task \<Rightarrow> Task" where
  "resume_task t = t\<lparr>state := TASK_RUNNING, timeslice := timeslice t + 1\<rparr>"

lemma sched_dist_self:
  assumes "0 \<le> c" "c < 16"
  shows "sched_dist c (nat c) = 15"
proof (cases "c = 15")
  case False
  then have "sched_start c = nat c + 1" using assms by (simp add: sched_start_def)
  then show ?thesis by (simp add: sched_dist_def)
qed (simp add: sched_dist_def sched_start_def)

lemma sched_dist_inj: "j < 16 \<Longrightarrow> k < 16 \<Longrightarrow> sched_dist c j = sched_dist c k \<Longrightarrow> j = k"
  by (metis sched_dist_slot)

lemma context_switch_cases:
  fixes s :: "'a proc_scheme" and rsp :: u64
  assumes inv: "sched_inv s"
  defines "ts \<equiv> paused_tasks rsp s"
  obtains (none) s' where "\<And>k. k < 16 \<Longrightarrow> \<not> ready (tasks s ! k)" "context_switch_from rsp s = Ok 0 s'"
      "tasks s' = (if current_tid s \<ge> 0 then ts[nat (current_tid s) := (ts ! nat (current_tid s))\<lparr>state := TASK_RUNNING\<rparr>] else ts)"
      "current_tid s' = current_tid s" "switch_count s' = switch_count s"
  | (same) s' where "current_tid s \<ge> 0" "\<And>k. k < 16 \<Longrightarrow> ready (tasks s ! k) \<Longrightarrow> int k = current_tid s"
      "context_switch_from rsp s = Ok 0 s'"
      "tasks s' = ts[nat (current_tid s) := (ts ! nat (current_tid s))\<lparr>state := TASK_RUNNING\<rparr>]"
      "current_tid s' = current_tid s" "switch_count s' = switch_count s"
  | (switch) j s' where "j < 16" "ready (tasks s ! j)" "int j \<noteq> current_tid s"
      "\<And>k. k < 16 \<Longrightarrow> ready (tasks s ! k) \<Longrightarrow> sched_dist (current_tid s) j \<le> sched_dist (current_tid s) k"
      "context_switch_from rsp s = Ok (kernel_rsp (tasks s ! j)) s'"
      "tasks s' = ts[j := resume_task (tasks s ! j)]" "current_tid s' = int j"
      "switch_count s' = switch_count s + 1" "cr3 s' = task_root (process_reap_deferred s) (tasks s ! j)"
      "s' = (process_reap_deferred s)\<lparr>tasks := tasks s', current_tid := current_tid s',
         switch_count := switch_count s', cr3 := cr3 s'\<rparr>"
  | (panic) j m s' where "j < 16" "ready (tasks s ! j)" "int j \<noteq> current_tid s"
      "\<not> switchable (process_reap_deferred s) (tasks s ! j)" "context_switch_from rsp s = Panic m s'"
proof -
  let ?c = "current_tid s" and ?r = "process_reap_deferred s"
  define s2 where "s2 = pause rsp ?r"
  have len: "length (tasks s) = 16" and c: "- 1 \<le> ?c" "?c < 16" using inv by (auto simp: sched_inv_def)
  have t2: "tasks s2 = ts" "current_tid s2 = ?c" "switch_count s2 = switch_count s"
    by (simp_all add: s2_def ts_def paused_tasks_def)
  have rd: "ready (tasks s2 ! k) \<longleftrightarrow> ready (tasks s ! k)" if "k < 16" for k
    using paused_not_running(2) [OF inv that] by (simp add: t2 ts_def)
  note eq = context_switch_eq [of rsp s, folded s2_def, unfolded Let_def]
  show ?thesis
  proof (cases s2 rule: pick_cases)
    case c1: none
    show ?thesis
    proof (rule that(1))
      show "context_switch_from rsp s = Ok 0 (if current_tid s2 \<ge> 0
          then set_current (\<lambda>t. t\<lparr>state := TASK_RUNNING\<rparr>) s2 else s2)" by (simp add: eq c1(1))
      show "\<not> ready (tasks s ! k)" if "k < 16" for k using c1(2) rd that by simp
    qed (auto simp: set_current_def set_task_def t2)
  next
    case c2: (some j)
    show ?thesis
    proof (cases "int j = ?c")
      case True
      show ?thesis
      proof (rule that(2))
        show "0 \<le> ?c" using True by simp
        show "context_switch_from rsp s = Ok 0 (set_task (nat ?c) (\<lambda>t. t\<lparr>state := TASK_RUNNING\<rparr>) s2)"
          using True by (simp add: eq c2(1) t2)
        fix k assume k: "k < 16" "ready (tasks s ! k)"
        have "j = nat ?c" using True by simp
        then have d: "sched_dist ?c j = 15" using sched_dist_self [of ?c] True c(2) by simp
        have "sched_dist ?c j \<le> sched_dist ?c k" using c2(4) [OF k(1)] rd k by (simp add: t2)
        then have "sched_dist ?c k = sched_dist ?c j" using sched_dist_less [of ?c k] d by linarith
        then have "k = j" by (rule sched_dist_inj [OF k(1) c2(2)])
        then show "int k = ?c" using True by simp
      qed (auto simp: set_task_def t2)
    next
      case False
      define s3 where "s3 = set_task j (\<lambda>t. t\<lparr>state := TASK_RUNNING, timeslice := timeslice t + 1\<rparr>)
        (s2\<lparr>current_tid := int j\<rparr>)"
      have tj: "ts ! j = tasks s ! j" using paused_nth [OF inv c2(2)] False by (simp add: ts_def)
      have t3: "tasks s3 = ts[j := resume_task (tasks s ! j)]"
        by (simp add: s3_def set_task_def t2 tj resume_task_def)
      have n3: "tasks s3 ! j = resume_task (tasks s ! j)" using len c2(2) by (simp add: t3 ts_def)
      have e: "context_switch_from rsp s = kbind (task_switch_address_space (tasks s3 ! j) s3) (\<lambda>_ s4.
          Ok (kernel_rsp (tasks s4 ! j)) (s4\<lparr>switch_count := switch_count s4 + 1\<rparr>))"
        using False by (simp add: eq c2(1) t2 s3_def)
      have k3: "pml4_of s3 = pml4_of ?r" "kernel_address_space s3 = kernel_address_space ?r"
        by (simp_all add: s3_def set_task_def s2_def pause_def set_current_def)
      have sw: "switchable s3 (tasks s3 ! j) = switchable ?r (tasks s ! j)" "task_root s3 (tasks s3 ! j) = task_root ?r (tasks s ! j)"
        by (simp_all add: switchable_def task_root_def n3 resume_task_def k3)
      have c3: "current_tid s3 = int j" "switch_count s3 = switch_count s" by (simp_all add: s3_def set_task_def t2)
      have r: "ready (tasks s ! j)" using c2(2,3) rd by simp
      have up: "s3 = ?r\<lparr>tasks := tasks s3, current_tid := int j\<rparr>"
        by (simp add: s3_def set_task_def s2_def pause_def set_current_def)
      show ?thesis
      proof (cases rule: switch_address_space_cases [where s = s3 and t = "tasks s3 ! j"])
        case ok
        show ?thesis
        proof (rule that(3) [OF c2(2) r False])
          show "context_switch_from rsp s = Ok (kernel_rsp (tasks s ! j))
              (s3\<lparr>cr3 := task_root s3 (tasks s3 ! j), switch_count := switch_count s3 + 1\<rparr>)"
            unfolding e ok(2) using n3 by (simp add: resume_task_def)
          show "sched_dist ?c j \<le> sched_dist ?c k" if "k < 16" "ready (tasks s ! k)" for k
            using c2(4) that rd by (simp add: t2)
          show "s3\<lparr>cr3 := task_root s3 (tasks s3 ! j), switch_count := switch_count s3 + 1\<rparr> = ?r\<lparr>
              tasks := tasks (s3\<lparr>cr3 := task_root s3 (tasks s3 ! j), switch_count := switch_count s3 + 1\<rparr>),
              current_tid := current_tid (s3\<lparr>cr3 := task_root s3 (tasks s3 ! j), switch_count := switch_count s3 + 1\<rparr>),
              switch_count := switch_count (s3\<lparr>cr3 := task_root s3 (tasks s3 ! j), switch_count := switch_count s3 + 1\<rparr>),
              cr3 := cr3 (s3\<lparr>cr3 := task_root s3 (tasks s3 ! j), switch_count := switch_count s3 + 1\<rparr>)\<rparr>"
            by (subst up) (simp add: s3_def set_task_def)
        qed (simp_all add: t3 sw(2) [unfolded t3] c3)
      next
        case (panic m)
        then show ?thesis using that(4) [OF c2(2) r False] sw by (simp add: e)
      qed
    qed
  qed
qed

lemma sched_inv_update:
  assumes inv: "sched_inv s" and t: "tasks s' = (paused_tasks rsp s)[j := t']" and c: "current_tid s' = int j"
    and j: "j < 16"
  shows "sched_inv s'"
  using assms paused_not_running(1) [OF inv] by (auto simp: sched_inv_def nth_list_update)

section \<open>Sequences of switches\<close>

text \<open>Switches one after the other, each with the stack pointer of the task it interrupts.\<close>

fun switches :: "u64 list \<Rightarrow> 'a proc_scheme \<Rightarrow> (unit, 'a proc_scheme) outcome" where
  "switches [] s = Ok () s"
| "switches (rsp # rsps) s = kbind (context_switch_from rsp s) (\<lambda>_ s. switches rsps s)"

definition all_switchable :: "'a proc_scheme \<Rightarrow> bool" where
  "all_switchable s \<longleftrightarrow> (\<forall>i < 16. switchable s (tasks s ! i))"

lemma sched_dist_step:
  assumes "j < 16" "k < 16" "j \<noteq> k" "sched_dist c j \<le> sched_dist c k"
  shows "sched_dist (int j) k < sched_dist c k"
proof -
  define st d e where "st = sched_start c" and "d = sched_dist c j" and "e = sched_dist c k"
  have b: "st < 16" "d < 16" "e < 16" by (simp_all add: st_def d_def e_def)
  have jk: "j = (st + d) mod 16" "k = (st + e) mod 16"
    using assms sched_dist_slot [of j c] sched_dist_slot [of k c] by (simp_all add: st_def d_def e_def)
  have "d \<noteq> e" using sched_dist_inj [OF assms(1,2)] assms(3) by (auto simp: d_def e_def)
  then have de: "d < e" using assms(4) by (simp add: d_def e_def)
  have "sched_start (int j) = (st + Suc d) mod 16" using jk(1) by (simp add: sched_start_def mod_Suc_eq)
  then have "(sched_start (int j) + (e - Suc d)) mod 16 = (st + Suc d + (e - Suc d)) mod 16"
    by (simp only: mod_add_left_eq)
  also have "st + Suc d + (e - Suc d) = st + e" using de by linarith
  finally have "(sched_start (int j) + (e - Suc d)) mod 16 = k" by (simp only: jk(2))
  then have "sched_dist (int j) k = e - Suc d"
    using sched_dist_of_slot [of "e - Suc d" "int j"] b(3) by simp
  then show ?thesis using de by (simp add: e_def)
qed

lemma switchable_paused:
  assumes "\<And>i. i < 16 \<Longrightarrow> is_user (tasks s' ! i) = is_user (tasks s ! i) \<and>
      address_space (tasks s' ! i) = address_space (tasks s ! i) \<and> tcr3 (tasks s' ! i) = tcr3 (tasks s ! i)"
    and "pml4_of s' (kernel_address_space s') = pml4_of s (kernel_address_space s)" and "all_switchable s"
  shows "all_switchable s'"
  using assms by (auto simp: all_switchable_def switchable_def task_root_def)

lemma round_robin_step:
  fixes s :: "'a proc_scheme"
  assumes inv: "sched_inv s" and sw: "all_switchable s" and nr: "no_reaps s"
    and k: "k < 16" "ready (tasks s ! k)" "int k \<noteq> current_tid s"
  obtains r s' where "context_switch_from rsp s = Ok r s'" "sched_inv s'" "all_switchable s'" "no_reaps s'"
    "int k = current_tid s' \<and> state (tasks s' ! k) = TASK_RUNNING \<or> (ready (tasks s' ! k) \<and> int k \<noteq> current_tid s' \<and>
       sched_dist (current_tid s') k < sched_dist (current_tid s) k)"
proof (rule context_switch_cases [OF inv, of rsp])
  show thesis if "\<And>k. k < 16 \<Longrightarrow> \<not> ready (tasks s ! k)" using that k by auto
  show thesis if "\<And>k. k < 16 \<Longrightarrow> ready (tasks s ! k) \<Longrightarrow> int k = current_tid s" using that k by auto
  show thesis if "j < 16" "\<not> switchable (process_reap_deferred s) (tasks s ! j)" for j
    using that sw by (simp add: reap_nothing [OF nr] all_switchable_def)
next
  fix j and s' :: "'a proc_scheme"
  assume j: "j < 16" "ready (tasks s ! j)" "int j \<noteq> current_tid s"
    and d: "\<And>k. k < 16 \<Longrightarrow> ready (tasks s ! k) \<Longrightarrow> sched_dist (current_tid s) j \<le> sched_dist (current_tid s) k"
    and e: "context_switch_from rsp s = Ok (kernel_rsp (tasks s ! j)) s'"
    and t: "tasks s' = (paused_tasks rsp s)[j := resume_task (tasks s ! j)]" and c: "current_tid s' = int j"
    and up: "s' = (process_reap_deferred s)\<lparr>tasks := tasks s', current_tid := current_tid s',
         switch_count := switch_count s', cr3 := cr3 s'\<rparr>"
  have len: "length (tasks s) = 16" using inv by (simp add: sched_inv_def)
  have fr: "pml4_of s' (kernel_address_space s') = pml4_of s (kernel_address_space s)" "proc_table s' = proc_table s"
    by (subst (1 2) up, simp add: reap_nothing [OF nr], subst up, simp add: reap_nothing [OF nr])
  show thesis
  proof (rule that [OF e])
    show "sched_inv s'" by (rule sched_inv_update [OF inv t c j(1)])
    show "no_reaps s'" using nr fr(2) by (simp add: no_reaps_def)
    show "all_switchable s'"
    proof (rule switchable_paused [OF _ fr(1) sw])
      fix i :: nat assume "i < 16"
      then show "is_user (tasks s' ! i) = is_user (tasks s ! i) \<and>
          address_space (tasks s' ! i) = address_space (tasks s ! i) \<and> tcr3 (tasks s' ! i) = tcr3 (tasks s ! i)"
        using paused_not_running(3-5) [OF inv] len j(1)
        by (cases "i = j") (simp_all add: t resume_task_def)
    qed
    show "int k = current_tid s' \<and> state (tasks s' ! k) = TASK_RUNNING \<or> (ready (tasks s' ! k) \<and> int k \<noteq> current_tid s' \<and>
       sched_dist (current_tid s') k < sched_dist (current_tid s) k)"
    proof (cases "k = j")
      case False
      then have "tasks s' ! k = paused_tasks rsp s ! k" by (simp add: t)
      then have "ready (tasks s' ! k)" using paused_not_running(2) [OF inv k(1)] k(2) by simp
      then show ?thesis using sched_dist_step [OF j(1) k(1)] False d [OF k(1,2)] c by auto
    qed (use len j(1) in \<open>simp add: c t resume_task_def\<close>)
  qed
qed

lemma round_robin_reaches:
  fixes s :: "'a proc_scheme"
  assumes "sched_inv s" and "all_switchable s" and "no_reaps s"
    and "k < 16" "ready (tasks s ! k)" "int k \<noteq> current_tid s"
    and "sched_dist (current_tid s) k < length rsps"
  shows "\<exists>n s'. n \<le> Suc (sched_dist (current_tid s) k) \<and> switches (take n rsps) s = Ok () s' \<and>
    current_tid s' = int k \<and> state (tasks s' ! k) = TASK_RUNNING"
  using assms
proof (induction rsps arbitrary: s)
  case (Cons rsp rsps)
  obtain r s1 where s1: "context_switch_from rsp s = Ok r s1" "sched_inv s1" "all_switchable s1" "no_reaps s1"
    and alt: "int k = current_tid s1 \<and> state (tasks s1 ! k) = TASK_RUNNING \<or> (ready (tasks s1 ! k) \<and>
      int k \<noteq> current_tid s1 \<and> sched_dist (current_tid s1) k < sched_dist (current_tid s) k)"
    by (rule round_robin_step [OF Cons.prems(1-6), of rsp])
  from alt show ?case
  proof
    assume "int k = current_tid s1 \<and> state (tasks s1 ! k) = TASK_RUNNING"
    then show ?thesis using s1(1) by (intro exI [of _ 1] exI [of _ s1]) simp
  next
    assume a: "ready (tasks s1 ! k) \<and> int k \<noteq> current_tid s1 \<and>
      sched_dist (current_tid s1) k < sched_dist (current_tid s) k"
    then obtain n s' where "n \<le> Suc (sched_dist (current_tid s1) k)" "switches (take n rsps) s1 = Ok () s'"
      "current_tid s' = int k" "state (tasks s' ! k) = TASK_RUNNING"
      using Cons.IH [OF s1(2-4) Cons.prems(4)] Cons.prems(7) by auto
    then show ?thesis using s1(1) a by (intro exI [of _ "Suc n"] exI [of _ s']) simp
  qed
qed simp

section \<open>Properties\<close>

text \<open>
  C27: the scheduler is fair. A runnable task that is not running is given the processor after at most
  sixteen context switches, whatever the other tasks are and whichever of them are interrupted, as
  long as every task has page tables to run on and no process waits to be reaped.
\<close>

theorem round_robin_fair:
  fixes s :: "'a proc_scheme"
  assumes "sched_inv s" and "all_switchable s" and "no_reaps s"
    and "k < 16" and "state (tasks s ! k) = TASK_RUNNABLE" and "int k \<noteq> current_tid s" and "length rsps = 16"
  shows "\<exists>n \<le> 16. \<exists>s'. switches (take n rsps) s = Ok () s' \<and> current_tid s' = int k
    \<and> state (tasks s' ! k) = TASK_RUNNING"
proof -
  have "ready (tasks s ! k)" using assms(5) by (simp add: ready_def)
  then obtain n s' where "n \<le> Suc (sched_dist (current_tid s) k)" "switches (take n rsps) s = Ok () s'"
    "current_tid s' = int k" "state (tasks s' ! k) = TASK_RUNNING"
    using round_robin_reaches [OF assms(1-4) _ assms(6), of rsps] assms(7) by auto
  moreover from this(1) have "n \<le> 16" using sched_dist_less [of "current_tid s" k] by linarith
  ultimately show ?thesis by blast
qed

text \<open>Two kernel tasks, the second one running, and no process.\<close>

definition example_task :: "nat \<Rightarrow> TaskState \<Rightarrow> Task" where
  "example_task i st = (blank_task i)\<lparr>state := st, kernel_rsp := 0x1000 * of_nat (i + 1)\<rparr>"

definition example_sched :: proc where
  "example_sched = \<lparr>io_log = [], device = null_machine, if_flag = False, console = [], serial = [],
     serial_ready = False, g_ring = [], g_ring_head = 0, g_ring_count = 0,
     mem = (\<lambda>_. 1), paging_arena_end = 0, bitmap = 0, bitmap_size = 0, total_pages = 0, free_pages = 0,
     kernel_address_space = 0x8000, cr3 = 0, heap_head = 0, heap_ready = False,
     tasks = [example_task 0 TASK_RUNNABLE, example_task 1 TASK_RUNNING] @ map blank_task [2..<16],
     current_tid = 1, slice_ticks = 0, switch_count = 0,
     proc_table = replicate 16 blank_process, next_pid = 1\<rparr>"

lemma less_16_cases: "(\<forall>i < 16. P i) \<longleftrightarrow> list_all P [0..<16]" for P :: "nat \<Rightarrow> bool"
  by (auto simp: list_all_iff)

lemma example_sched_inv: "sched_inv example_sched" "no_reaps example_sched" "all_switchable example_sched"
proof -
  show "sched_inv example_sched"
    unfolding sched_inv_def less_16_cases by (simp add: example_sched_def example_task_def blank_task_def upt_rec)
  show "no_reaps example_sched" by (simp add: no_reaps_def example_sched_def blank_process_def)
  have "pml4_of example_sched 0x8000 \<noteq> 0" unfolding pml4_of_def example_sched_def by code_simp
  then show "all_switchable example_sched"
    unfolding all_switchable_def less_16_cases switchable_def task_root_def
    by (simp add: example_sched_def example_task_def blank_task_def upt_rec)
qed

theorem round_robin_fair_witness:
  "\<exists>n \<le> 16. \<exists>s'. switches (take n (replicate 16 0)) example_sched = Ok () s' \<and> current_tid s' = 0
     \<and> state (tasks s' ! 0) = TASK_RUNNING"
  using round_robin_fair [OF example_sched_inv(1,3,2), of 0 "replicate 16 0"]
  by (simp add: example_sched_def example_task_def blank_task_def)

text \<open>
  C28: a context switch keeps the scheduler's invariant: at most one task is running, and it is the
  current one. It stores the stack pointer in the interrupted task; if it moves to another task, that
  task is runnable, the processor has its page tables and the result is its saved stack pointer. The
  only panic is for a chosen task without page tables, and the switch always returns.
\<close>

theorem context_switch_correct:
  fixes s :: "'a proc_scheme"
  assumes "sched_inv s"
  shows "case context_switch_from rsp s of
      Ok r s' \<Rightarrow> sched_inv s' \<and>
        (current_tid s' \<ge> 0 \<longrightarrow> state (tasks s' ! nat (current_tid s')) = TASK_RUNNING) \<and>
        (current_tid s \<ge> 0 \<longrightarrow> kernel_rsp (tasks s' ! nat (current_tid s)) = rsp) \<and>
        (current_tid s' \<noteq> current_tid s \<longrightarrow> (\<exists>j < 16. current_tid s' = int j \<and> ready (tasks s ! j) \<and>
           r = kernel_rsp (tasks s ! j) \<and> cr3 s' = task_root (process_reap_deferred s) (tasks s ! j) \<and>
           switch_count s' = switch_count s + 1)) \<and>
        (current_tid s' = current_tid s \<longrightarrow> r = 0)
    | Panic m s' \<Rightarrow> \<exists>j < 16. ready (tasks s ! j) \<and> \<not> switchable (process_reap_deferred s) (tasks s ! j)
    | Hang \<Rightarrow> False"
proof -
  let ?c = "current_tid s" and ?ts = "paused_tasks rsp s"
  have len: "length (tasks s) = 16" and c: "- 1 \<le> ?c" "?c < 16" using assms by (auto simp: sched_inv_def)
  have cn: "nat ?c < 16" "int (nat ?c) = ?c" if "?c \<ge> 0" using that c by simp_all
  have kr: "kernel_rsp (?ts ! nat ?c) = rsp" if "?c \<ge> 0"
    using paused_nth [OF assms cn(1) [OF that], of rsp] cn(2) [OF that] by (simp add: pause_task_def)
  show ?thesis
  proof (cases rule: context_switch_cases [OF assms, of rsp])
    case n: (1 s')
    show ?thesis
    proof (cases "?c \<ge> 0")
      case True
      then have "sched_inv s'" using sched_inv_update [OF assms, of s' rsp "nat ?c"] n(3,4) cn by simp
      then show ?thesis using n True cn kr len by simp
    next
      case False
      then have "?c = - 1" using c by simp
      then have "sched_inv s'" using n(3,4) assms by (simp add: sched_inv_def paused_tasks_def)
      then show ?thesis using n False by simp
    qed
  next
    case n: (2 s')
    then have "sched_inv s'" using sched_inv_update [OF assms, of s' rsp "nat ?c"] cn by simp
    then show ?thesis using n cn kr len by simp
  next
    case n: (3 j s')
    have "sched_inv s'" by (rule sched_inv_update [OF assms n(6,7,1)])
    moreover have "state (tasks s' ! j) = TASK_RUNNING" using n(1,6) len by (simp add: resume_task_def)
    moreover have "kernel_rsp (tasks s' ! nat ?c) = rsp" if "?c \<ge> 0"
      using n(3,6) kr that cn(2) [OF that] by (metis nth_list_update_neq)
    ultimately show ?thesis using n by auto
  next
    case n: (4 j m s')
    then show ?thesis by auto
  qed
qed

theorem context_switch_correct_witness:
  "case context_switch_from 0x7000 example_sched of
     Ok r s' \<Rightarrow> sched_inv s' \<and> kernel_rsp (tasks s' ! 1) = 0x7000 | Panic m s' \<Rightarrow> True | Hang \<Rightarrow> False"
proof -
  have c: "current_tid example_sched = 1" by (simp add: example_sched_def)
  show ?thesis using context_switch_correct [OF example_sched_inv(1), of "0x7000"]
    by (auto simp: c split: outcome.splits)
qed

text \<open>
  C38: the choice of the next task goes round the table: it is the first ready slot behind the current
  one, in cyclic order, and -1 exactly when no slot is ready.
\<close>

theorem pick_next_runnable_correct:
  "(pick_next_runnable s = - 1 \<and> (\<forall>k < 16. \<not> ready (tasks s ! k))) \<or>
   (\<exists>j < 16. pick_next_runnable s = int j \<and> ready (tasks s ! j) \<and>
      (\<forall>k < 16. ready (tasks s ! k) \<and> k \<noteq> j \<longrightarrow> sched_dist (current_tid s) j < sched_dist (current_tid s) k))"
proof (cases s rule: pick_cases)
  case (some j)
  have "sched_dist (current_tid s) j < sched_dist (current_tid s) k"
    if "k < 16" "ready (tasks s ! k)" "k \<noteq> j" for k
    using some(4) [OF that(1,2)] sched_dist_inj [OF that(1) some(2), of "current_tid s"] that(3) by fastforce
  then show ?thesis using some by auto
qed auto

theorem pick_next_runnable_correct_witness:
  "pick_next_runnable example_sched = 0"
proof -
  have t: "tasks example_sched = [example_task 0 TASK_RUNNABLE, example_task 1 TASK_RUNNING] @ map blank_task [2..<16]"
    by (simp add: example_sched_def)
  have c: "current_tid example_sched = 1" by (simp add: example_sched_def)
  have r0: "ready (tasks example_sched ! 0)" by (simp add: t ready_def example_task_def)
  have r: "\<forall>j < 16. ready (tasks example_sched ! j) \<longrightarrow> j = 0 \<or> j = 1"
    unfolding less_16_cases by (simp add: t example_task_def blank_task_def ready_def upt_rec)
  have "sched_dist 1 0 < sched_dist 1 1" by (simp add: sched_dist_def sched_start_def)
  then show ?thesis using pick_next_runnable_correct [of example_sched] r0 r unfolding c by fastforce
qed

text \<open>
  a running task keeps the processor for four ticks, during which only the tick counter changes,
  and the fifth tick is a context switch.
\<close>

theorem schedule_on_tick_slice:
  fixes s :: "'a proc_scheme"
  assumes "current_tid s \<ge> 0" and "state (tasks s ! nat (current_tid s)) = TASK_RUNNING" and "slice_ticks s \<le> 4"
  shows "schedule_on_tick rsp s =
    (if slice_ticks s < 4 then Ok 0 (s\<lparr>slice_ticks := slice_ticks s + 1\<rparr>)
     else context_switch_from rsp (s\<lparr>slice_ticks := 0\<rparr>))"
proof -
  have "slice_ticks s + 1 < 5 \<longleftrightarrow> slice_ticks s < 4"
    using assms(3) unat_Suc_less [of "slice_ticks s" 5]
    by (auto simp: word_less_nat_alt word_le_nat_alt)
  then show ?thesis using assms(1,2) by (simp add: schedule_on_tick_def Let_def)
qed

theorem schedule_on_tick_slice_witness:
  "schedule_on_tick 0x7000 example_sched = Ok 0 (example_sched\<lparr>slice_ticks := 1\<rparr>)"
  using schedule_on_tick_slice [of example_sched "0x7000"] by (simp add: example_sched_def example_task_def)

end
