(* ===== verification/Irq.thy ===== *)
theory Irq
  imports Acpi Sched
begin

text \<open>
  Interrupt controllers: the two legacy PICs (\<^verbatim>\<open>kernel/pic.c\<close>), the local APIC and the I/O APIC
  (\<^verbatim>\<open>kernel/apic.c\<close>), and the layer that selects between them and keeps the routing table and the
  counters (\<^verbatim>\<open>kernel/irq.c\<close>); on top of it the timer (\<^verbatim>\<open>kernel/timer.c\<close>), which drives the
  scheduler.
\<close>

unbundle bit_operations_syntax

section \<open>State\<close>

datatype IRQBackend = IRQ_BACKEND_PIC | IRQ_BACKEND_APIC

record IRQStats =
  timer_irq_count :: u64
  keyboard_irq_count :: u64
  spurious_irq_count :: u64
  eoi_count :: u64
  apic_route_failures :: u64
  health_faults :: u64

record ApicAddresses =
  lapic_addr :: u32
  ioapic_addr :: u32
  ioapic_gsi_base :: u32

record irq = acpi +
  g_addrs :: ApicAddresses
  g_backend :: IRQBackend
  g_irq_gsi :: "u32 list"
  g_stats :: IRQStats
  ticks :: u64
  flush_needed :: bool
  timer_hz :: u32

section \<open>The legacy controllers\<close>

abbreviation (input) PIC1_COMMAND :: u16 where "PIC1_COMMAND \<equiv> 0x20"
abbreviation (input) PIC1_DATA :: u16 where "PIC1_DATA \<equiv> 0x21"
abbreviation (input) PIC2_COMMAND :: u16 where "PIC2_COMMAND \<equiv> 0xA0"
abbreviation (input) PIC2_DATA :: u16 where "PIC2_DATA \<equiv> 0xA1"

definition pic_init :: "'a con_scheme \<Rightarrow> 'a con_scheme" where
  "pic_init s =
     (let (mask1, s1) = inb PIC1_DATA s;
          (mask2, s2) = inb PIC2_DATA s1;
          s3 = fold (\<lambda>(p, v) s. io_wait (outb p v s))
                 [(PIC1_COMMAND, 0x11), (PIC2_COMMAND, 0x11), (PIC1_DATA, 0x20), (PIC2_DATA, 0x28),
                  (PIC1_DATA, 0x04), (PIC2_DATA, 0x02), (PIC1_DATA, 0x01), (PIC2_DATA, 0x01)] s2;
          s4 = outb PIC2_DATA mask2 (outb PIC1_DATA mask1 s3);
          s5 = outb PIC2_DATA 0xFF (outb PIC1_DATA 0xFF s4)
      in print (''PIC remapped'' @ [NL]) s5)"

definition pic_send_eoi :: "u8 \<Rightarrow> 'a io_scheme \<Rightarrow> 'a io_scheme" where
  "pic_send_eoi irq s = outb PIC1_COMMAND 0x20 (if irq \<ge> 8 then outb PIC2_COMMAND 0x20 s else s)"

definition pic_port :: "u8 \<Rightarrow> u16" where "pic_port irq = (if irq < 8 then PIC1_DATA else PIC2_DATA)"
definition pic_bit :: "u8 \<Rightarrow> u8" where
  "pic_bit irq = push_bit (unat (if irq \<ge> 8 then irq - 8 else irq)) 1"

definition pic_mask :: "u8 \<Rightarrow> 'a io_scheme \<Rightarrow> 'a io_scheme" where
  "pic_mask irq s = (let (v, s1) = inb (pic_port irq) s in outb (pic_port irq) (v OR pic_bit irq) s1)"

definition pic_unmask :: "u8 \<Rightarrow> 'a io_scheme \<Rightarrow> 'a io_scheme" where
  "pic_unmask irq s = (let (v, s1) = inb (pic_port irq) s in outb (pic_port irq) (v AND NOT (pic_bit irq)) s1)"

section \<open>The APICs\<close>

definition lapic_read :: "u32 \<Rightarrow> 'a irq_scheme \<Rightarrow> u32 \<times> 'a irq_scheme" where
  "lapic_read reg s = mmio_read32 (ucast (lapic_addr (g_addrs s)) + ucast reg) s"

definition lapic_write :: "u32 \<Rightarrow> u32 \<Rightarrow> 'a irq_scheme \<Rightarrow> 'a irq_scheme" where
  "lapic_write reg value s = mmio_write32 (ucast (lapic_addr (g_addrs s)) + ucast reg) value s"

definition ioapic_read :: "u8 \<Rightarrow> 'a irq_scheme \<Rightarrow> u32 \<times> 'a irq_scheme" where
  "ioapic_read reg s =
     (let base = ucast (ioapic_addr (g_addrs s))
      in mmio_read32 (base + 0x10) (mmio_write32 (base + 0x00) (ucast reg) s))"

definition ioapic_write :: "u8 \<Rightarrow> u32 \<Rightarrow> 'a irq_scheme \<Rightarrow> 'a irq_scheme" where
  "ioapic_write reg value s =
     (let base = ucast (ioapic_addr (g_addrs s))
      in mmio_write32 (base + 0x10) value (mmio_write32 (base + 0x00) (ucast reg) s))"

definition apic_set_addresses :: "ApicAddresses \<Rightarrow> 'a irq_scheme \<Rightarrow> 'a irq_scheme" where
  "apic_set_addresses addrs s = s\<lparr>g_addrs := addrs\<rparr>"

definition apic_can_enable :: "'a irq_scheme \<Rightarrow> bool" where
  "apic_can_enable s \<longleftrightarrow> lapic_addr (g_addrs s) \<noteq> 0 \<and> ioapic_addr (g_addrs s) \<noteq> 0"

definition apic_enable :: "'a irq_scheme \<Rightarrow> bool \<times> 'a irq_scheme" where
  "apic_enable s =
     (if \<not> apic_can_enable s then (False, s)
      else let (apic_base, s1) = rdmsr 0x1B s;
               s2 = wrmsr 0x1B (apic_base OR push_bit 11 1) s1;
               s3 = lapic_write 0x0F0 (0x100 OR 0xFF) s2
           in (True, klog_info ''APIC: local APIC enabled'' s3))"

definition apic_send_eoi :: "'a irq_scheme \<Rightarrow> 'a irq_scheme" where
  "apic_send_eoi s = (if lapic_addr (g_addrs s) = 0 then s else lapic_write 0x0B0 0 s)"

definition apic_mask_legacy_pic :: "'a irq_scheme \<Rightarrow> 'a irq_scheme" where
  "apic_mask_legacy_pic s = for_range 0 16 pic_mask s"

definition apic_lapic_id :: "'a irq_scheme \<Rightarrow> u8 \<times> 'a irq_scheme" where
  "apic_lapic_id s =
     (if lapic_addr (g_addrs s) = 0 then (0, s)
      else let (v, s1) = lapic_read 0x020 s in (ucast (drop_bit 24 v), s1))"

definition redir_low :: "u32 \<Rightarrow> u8" where "redir_low index = ucast (0x10 + index * 2)"

definition apic_set_irq_mask :: "u32 \<Rightarrow> bool \<Rightarrow> 'a irq_scheme \<Rightarrow> 'a irq_scheme" where
  "apic_set_irq_mask gsi masked s =
     (if ioapic_addr (g_addrs s) = 0 then s
      else if gsi < ioapic_gsi_base (g_addrs s) then s
      else let low_reg = redir_low (gsi - ioapic_gsi_base (g_addrs s));
               (low, s1) = ioapic_read low_reg s;
               low = (if masked then low OR push_bit 16 1 else low AND NOT (push_bit 16 1))
           in ioapic_write low_reg low s1)"

definition redir_value :: "u8 \<Rightarrow> u16 \<Rightarrow> u32" where
  "redir_value vector flags =
     (let low = ucast vector;
          low = (if flags AND 0x2 \<noteq> 0 then low OR push_bit 13 1 else low);
          low = (if flags AND 0x8 \<noteq> 0 then low OR push_bit 15 1 else low)
      in low AND NOT (push_bit 16 1))"

definition apic_route_irq :: "u32 \<Rightarrow> u8 \<Rightarrow> u16 \<Rightarrow> 'a irq_scheme \<Rightarrow> bool \<times> 'a irq_scheme" where
  "apic_route_irq gsi vector flags s =
     (if ioapic_addr (g_addrs s) = 0 then (False, s)
      else let (ioapic_ver, s1) = ioapic_read 0x01 s;
               max_redir = drop_bit 16 ioapic_ver AND 0xFF;
               index = gsi - ioapic_gsi_base (g_addrs s1)
           in if gsi < ioapic_gsi_base (g_addrs s1) then (False, s1)
              else if index > max_redir then (False, s1)
              else let low_reg = redir_low index; hi_reg = low_reg + 1;
                       (id, s2) = apic_lapic_id s1;
                       s3 = ioapic_write hi_reg (push_bit 24 (ucast id)) s2
                   in (True, ioapic_write low_reg (redir_value vector flags) s3))"

section \<open>The interrupt layer\<close>

abbreviation (input) IRQ_VECTOR_BASE :: u8 where "IRQ_VECTOR_BASE \<equiv> 0x20"

definition pic_is_spurious_irq7 :: "'a irq_scheme \<Rightarrow> bool \<times> 'a irq_scheme" where
  "pic_is_spurious_irq7 s = (let (isr_val, s1) = inb 0x20 (outb 0x20 0x0B s) in (isr_val AND 0x80 = 0, s1))"

definition irq_controller_init :: "'a irq_scheme \<Rightarrow> 'a irq_scheme" where
  "irq_controller_init s =
     (let s1 = s\<lparr>g_irq_gsi := map of_nat [0..<16],
                 g_stats := \<lparr>timer_irq_count = 0, keyboard_irq_count = 0, spurious_irq_count = 0,
                    eoi_count = 0, apic_route_failures = 0, health_faults = 0\<rparr>\<rparr>
      in klog_info ''IRQ controller: legacy PIC backend active'' ((pic_init s1)\<lparr>g_backend := IRQ_BACKEND_PIC\<rparr>))"

definition note_fault :: "bool \<Rightarrow> 'a irq_scheme \<Rightarrow> 'a irq_scheme" where
  "note_fault route s = s\<lparr>g_stats := (g_stats s)\<lparr>
     apic_route_failures := apic_route_failures (g_stats s) + of_bool route,
     health_faults := health_faults (g_stats s) + 1\<rparr>\<rparr>"

text \<open>
  The two routing loops of \<^verbatim>\<open>irq_try_enable_apic\<close>, over the lines they visit: the first does not
  look at the claimed inputs. \<open>None\<close> is the failure that leaves the function.
\<close>

fun route_irqs :: "bool \<Rightarrow> u8 list \<Rightarrow> bool list \<Rightarrow> 'a irq_scheme \<Rightarrow> bool list option \<times> 'a irq_scheme" where
  "route_irqs critical [] gsi_claimed s = (Some gsi_claimed, s)"
| "route_irqs critical (irq # irqs) gsi_claimed s =
     (let (_, gsi, flags) = acpi_get_irq_override irq s;
          s1 = s\<lparr>g_irq_gsi := (g_irq_gsi s)[unat irq := gsi]\<rparr>
      in if gsi < madt_gsi_base (acpi_get_madt_info s1) then route_irqs critical irqs gsi_claimed s1
         else if \<not> critical \<and> gsi < 256 \<and> gsi_claimed ! unat gsi
         then route_irqs critical irqs gsi_claimed (klog_warn ''IRQ controller: skipping duplicate GSI route'' s1)
         else let (routed, s2) = apic_route_irq gsi (IRQ_VECTOR_BASE + irq) flags s1
              in if \<not> routed
                 then (None, note_fault True (klog_warn ''IRQ controller: IOAPIC routing failed for an IRQ'' s2))
                 else route_irqs critical irqs
                        (if gsi < 256 then gsi_claimed[unat gsi := True] else gsi_claimed) s2)"

definition irq_try_enable_apic :: "'a irq_scheme \<Rightarrow> bool \<times> 'a irq_scheme" where
  "irq_try_enable_apic s =
     (let madt = acpi_get_madt_info s
      in if \<not> madt_present madt
         then (False, note_fault False (klog_warn ''IRQ controller: MADT not available, keeping PIC'' s))
         else let s1 = apic_set_addresses \<lparr>lapic_addr = madt_lapic_addr madt, ioapic_addr = madt_ioapic_addr madt,
                         ioapic_gsi_base = madt_gsi_base madt\<rparr> s;
                  (enabled, s2) = apic_enable s1
              in if \<not> enabled
                 then (False, note_fault False (klog_warn ''IRQ controller: APIC enable failed, keeping PIC'' s2))
                 else case route_irqs True [0, 1] (replicate 256 False) s2 of
                        (None, s3) \<Rightarrow> (False, s3)
                      | (Some claimed, s3) \<Rightarrow>
                 case route_irqs False (map of_nat [2..<16]) claimed s3 of
                        (None, s4) \<Rightarrow> (False, s4)
                      | (Some _, s4) \<Rightarrow>
                   (True, klog_info ''IRQ controller: APIC/IOAPIC backend active''
                     ((apic_mask_legacy_pic s4)\<lparr>g_backend := IRQ_BACKEND_APIC\<rparr>)))"

definition irq_unmask :: "u8 \<Rightarrow> 'a irq_scheme \<Rightarrow> 'a irq_scheme" where
  "irq_unmask irq s =
     (if irq \<ge> 16 then s
      else if g_backend s = IRQ_BACKEND_APIC then apic_set_irq_mask (g_irq_gsi s ! unat irq) False s
      else pic_unmask irq s)"

definition irq_mask :: "u8 \<Rightarrow> 'a irq_scheme \<Rightarrow> 'a irq_scheme" where
  "irq_mask irq s =
     (if irq \<ge> 16 then s
      else if g_backend s = IRQ_BACKEND_APIC then apic_set_irq_mask (g_irq_gsi s ! unat irq) True s
      else pic_mask irq s)"

definition irq_send_eoi :: "u8 \<Rightarrow> 'a irq_scheme \<Rightarrow> 'a irq_scheme" where
  "irq_send_eoi irq s =
     (let s1 = s\<lparr>g_stats := (g_stats s)\<lparr>eoi_count := eoi_count (g_stats s) + 1\<rparr>\<rparr>
      in if g_backend s1 = IRQ_BACKEND_APIC then apic_send_eoi s1 else pic_send_eoi irq s1)"

definition irq_is_spurious :: "u8 \<Rightarrow> 'a irq_scheme \<Rightarrow> bool \<times> 'a irq_scheme" where
  "irq_is_spurious irq s =
     (if g_backend s \<noteq> IRQ_BACKEND_PIC then (False, s)
      else if irq = 7
      then let (spurious, s1) = pic_is_spurious_irq7 s
           in (spurious, if spurious
                then s1\<lparr>g_stats := (g_stats s1)\<lparr>spurious_irq_count := spurious_irq_count (g_stats s1) + 1\<rparr>\<rparr>
                else s1)
      else (False, s))"

definition irq_controller_backend :: "'a irq_scheme \<Rightarrow> IRQBackend" where
  "irq_controller_backend s = g_backend s"

definition irq_controller_name :: "'a irq_scheme \<Rightarrow> string" where
  "irq_controller_name s = (if g_backend s = IRQ_BACKEND_APIC then ''APIC/IOAPIC'' else ''PIC'')"

definition irq_resolve_gsi :: "u8 \<Rightarrow> 'a irq_scheme \<Rightarrow> u32" where
  "irq_resolve_gsi irq s = (if irq < 16 then g_irq_gsi s ! unat irq else ucast irq)"

definition irq_get_stats :: "'a irq_scheme \<Rightarrow> IRQStats" where
  "irq_get_stats s = g_stats s"

definition irq_dump_routes :: "'a irq_scheme \<Rightarrow> 'a irq_scheme" where
  "irq_dump_routes s =
     (let s1 = print (irq_controller_name s) (print ''irq: backend='' s);
          s2 = print [NL] (print_hex (ucast IRQ_VECTOR_BASE) (print '' base_vector='' s1))
      in for_range (0 :: u8) 16 (\<lambda>irq s.
           let s3 = print_dec (ucast irq) (print ''irq: irq'' s);
               s4 = print_dec (ucast (g_irq_gsi s3 ! unat irq)) (print '' -> gsi '' s3)
           in print [NL] (print_hex (ucast IRQ_VECTOR_BASE + ucast irq) (print '' vec '' s4))) s2)"

definition irq_backend_health :: "'a irq_scheme \<Rightarrow> bool" where
  "irq_backend_health s \<longleftrightarrow> health_faults (g_stats s) = 0"

definition irq_note_timer_irq :: "'a irq_scheme \<Rightarrow> 'a irq_scheme" where
  "irq_note_timer_irq s = s\<lparr>g_stats := (g_stats s)\<lparr>timer_irq_count := timer_irq_count (g_stats s) + 1\<rparr>\<rparr>"

definition irq_note_keyboard_irq :: "'a irq_scheme \<Rightarrow> 'a irq_scheme" where
  "irq_note_keyboard_irq s =
     s\<lparr>g_stats := (g_stats s)\<lparr>keyboard_irq_count := keyboard_irq_count (g_stats s) + 1\<rparr>\<rparr>"

section \<open>The timer\<close>

definition timer_divisor :: "u32 \<Rightarrow> u32" where
  "timer_divisor frequency =
     (let divisor = 1193182 div frequency;
          divisor = (if divisor = 0 then 1 else divisor)
      in if divisor > 0xFFFF then 0xFFFF else divisor)"

definition timer_init :: "u32 \<Rightarrow> 'a irq_scheme \<Rightarrow> (unit, 'a irq_scheme) outcome" where
  "timer_init frequency s =
     (if frequency = 0 then Panic ''timer_init: frequency must be non-zero'' s
      else let divisor = timer_divisor frequency;
               s1 = outb 0x43 0x36 s;
               s2 = outb 0x40 (ucast (divisor AND 0xFF)) s1;
               s3 = outb 0x40 (ucast (drop_bit 8 divisor AND 0xFF)) s2;
               s4 = print ''Timer initialized at '' (s3\<lparr>timer_hz := frequency\<rparr>)
           in Ok () (print ('' Hz'' @ [NL]) (print_dec (ucast frequency) s4)))"

definition timer_tick :: "u64 \<Rightarrow> 'a irq_scheme \<Rightarrow> (u64, 'a irq_scheme) outcome" where
  "timer_tick current_rsp s =
     (let s1 = irq_note_timer_irq (irq_send_eoi 0 s)
      in schedule_on_tick current_rsp (s1\<lparr>ticks := ticks s1 + 1, flush_needed := True\<rparr>))"

definition timer_flush_needed :: "'a irq_scheme \<Rightarrow> bool \<times> 'a irq_scheme" where
  "timer_flush_needed s = (if flush_needed s then (True, s\<lparr>flush_needed := False\<rparr>) else (False, s))"

definition timer_get_ticks :: "'a irq_scheme \<Rightarrow> u64 \<times> 'a irq_scheme" where
  "timer_get_ticks s =
     (let flags = if_flag s; s1 = cli s; t = ticks s1 in (t, if flags then sti s1 else s1))"

definition timer_get_frequency :: "'a irq_scheme \<Rightarrow> u32" where
  "timer_get_frequency s = timer_hz s"

section \<open>The legacy controllers\<close>

text \<open>
  The mask register of a legacy controller: its data port reads as the byte last written to it.
\<close>

definition imr :: "u16 \<Rightarrow> io_event list \<Rightarrow> u8" where
  "imr p l = (case last_out p l of Some v \<Rightarrow> v | None \<Rightarrow> 0)"

definition pic_device :: "machine \<Rightarrow> bool" where
  "pic_device d \<longleftrightarrow> (\<forall>l. in_b d l PIC1_DATA = imr PIC1_DATA l \<and> in_b d l PIC2_DATA = imr PIC2_DATA l)"

definition pic_masked :: "u8 \<Rightarrow> 'a io_scheme \<Rightarrow> bool" where
  "pic_masked irq s \<longleftrightarrow> bit (imr (pic_port irq) (io_log s)) (unat irq mod 8)"

lemma u8_less_16: "(\<forall>i < (16 :: u8). P i) \<longleftrightarrow> list_all (\<lambda>n. P (of_nat n)) [0..<16]"
proof -
  have "P i" if "\<forall>n < 16. P (of_nat n)" "i < 16" for i
  proof -
    have "unat i < 16" using that(2) by (simp add: word_less_nat_alt)
    then have "P (of_nat (unat i))" using that(1) by blast
    then show ?thesis by simp
  qed
  moreover have "(of_nat n :: u8) < 16" if "n < 16" for n
    using that by (simp add: word_less_nat_alt unat_of_nat)
  ultimately show ?thesis by (auto simp: list_all_iff)
qed

lemma pic_bit_eq: "irq < 16 \<Longrightarrow> pic_bit irq = push_bit (unat irq mod 8) 1"
proof -
  have "\<forall>i < (16 :: u8). pic_bit i = push_bit (unat i mod 8) 1"
    unfolding u8_less_16 by code_simp
  then show "irq < 16 \<Longrightarrow> ?thesis" by blast
qed

lemma pic_line_eq:
  assumes "i < 16" "j < 16" "pic_port i = pic_port j"
  shows "unat i mod 8 = unat j mod 8 \<longleftrightarrow> i = j"
proof -
  have "\<forall>i < (16 :: u8). \<forall>j < (16 :: u8). pic_port i = pic_port j \<longrightarrow> (unat i mod 8 = unat j mod 8 \<longleftrightarrow> i = j)"
    unfolding u8_less_16 by code_simp
  then show ?thesis using assms by blast
qed

lemma pic_bit_bit: "irq < 16 \<Longrightarrow> bit (pic_bit irq) n \<longleftrightarrow> n = unat irq mod 8"
  by (auto simp: pic_bit_eq bit_simps)

lemma pic_mask_log:
  assumes "pic_device (device s)"
  shows "imr p (io_log (pic_mask irq s)) = (if p = pic_port irq then imr p (io_log s) OR pic_bit irq else imr p (io_log s))"
    and "imr p (io_log (pic_unmask irq s)) = (if p = pic_port irq then imr p (io_log s) AND NOT (pic_bit irq) else imr p (io_log s))"
    and "device (pic_mask irq s) = device s" "device (pic_unmask irq s) = device s"
proof -
  have "in_b (device s) l (pic_port irq) = imr (pic_port irq) l" for l
    using assms by (simp add: pic_device_def pic_port_def)
  then show "imr p (io_log (pic_mask irq s)) = (if p = pic_port irq then imr p (io_log s) OR pic_bit irq else imr p (io_log s))"
    "imr p (io_log (pic_unmask irq s)) = (if p = pic_port irq then imr p (io_log s) AND NOT (pic_bit irq) else imr p (io_log s))"
    "device (pic_mask irq s) = device s" "device (pic_unmask irq s) = device s"
    by (auto simp: pic_mask_def pic_unmask_def inb_def outb_def Let_def imr_def last_out_snoc [of _ "_ @ [_]", simplified])
qed

lemma pic_masked_mask:
  assumes "pic_device (device s)" "irq < 16" "i < 16"
  shows "pic_masked i (pic_mask irq s) \<longleftrightarrow> i = irq \<or> pic_masked i s"
    and "pic_masked i (pic_unmask irq s) \<longleftrightarrow> i \<noteq> irq \<and> pic_masked i s"
proof -
  have n: "unat i mod 8 < 8" by simp
  have e: "pic_port i = pic_port irq \<Longrightarrow> unat i mod 8 = unat irq mod 8 \<longleftrightarrow> i = irq"
    using pic_line_eq [OF assms(3,2)] .
  show "pic_masked i (pic_mask irq s) \<longleftrightarrow> i = irq \<or> pic_masked i s"
    using e by (auto simp: pic_masked_def pic_mask_log [OF assms(1)] bit_or_iff pic_bit_bit [OF assms(2)])
  show "pic_masked i (pic_unmask irq s) \<longleftrightarrow> i \<noteq> irq \<and> pic_masked i s"
    using e n by (auto simp: pic_masked_def pic_mask_log [OF assms(1)] bit_and_iff bit_not_iff pic_bit_bit [OF assms(2)])
qed

lemma pic_masked_all:
  assumes "pic_device (device s)" and "i < 16"
  shows "pic_masked i (for_range 0 16 pic_mask s)"
proof -
  have "device (for_range 0 16 pic_mask s) = device s \<and> (\<forall>i < 16. pic_masked i (for_range 0 16 pic_mask s))"
  proof (rule for_range_invariant [where I = "\<lambda>k t. device t = device s \<and> (\<forall>i < k. pic_masked i t)"])
    fix k :: u8 and t
    assume k: "0 \<le> k" "k < 16" and t: "device t = device s \<and> (\<forall>i < k. pic_masked i t)"
    have d: "pic_device (device t)" using t assms(1) by simp
    have "pic_masked i (pic_mask k t)" if "i < k + 1" for i
    proof -
      have "i \<le> k" using that k(2) by (metis inc_le less_trans not_le word_le_less_eq linorder_not_less)
      then have "i < 16" "i = k \<or> i < k" using k(2) by auto
      then show ?thesis using pic_masked_mask(1) [OF d k(2)] t by auto
    qed
    then show "device (pic_mask k t) = device s \<and> (\<forall>i < k + 1. pic_masked i (pic_mask k t))"
      using t pic_mask_log(3) [OF d] by simp
  qed auto
  then show ?thesis using assms(2) by blast
qed

section \<open>The I/O APIC\<close>

text \<open>
  The registers of an I/O APIC at an address: a write to the select register chooses the register that
  the window reads and writes.
\<close>

definition ioapic_step :: "u64 \<Rightarrow> u8 \<times> (u8 \<Rightarrow> u32) \<Rightarrow> io_event \<Rightarrow> u8 \<times> (u8 \<Rightarrow> u32)" where
  "ioapic_step base st e = (case e of
     MmioWrite a v \<Rightarrow> if a = base then (ucast v, snd st)
       else if a = base + 0x10 then (fst st, (snd st)(fst st := v)) else st
   | _ \<Rightarrow> st)"

definition ioapic_state :: "u64 \<Rightarrow> (u8 \<Rightarrow> u32) \<Rightarrow> io_event list \<Rightarrow> u8 \<times> (u8 \<Rightarrow> u32)" where
  "ioapic_state base regs l = foldl (ioapic_step base) (0, regs) l"

lemma ioapic_state_snoc [simp]:
  "ioapic_state base regs (l @ [e]) = ioapic_step base (ioapic_state base regs l) e"
  by (simp add: ioapic_state_def)

definition ioapic_device :: "machine \<Rightarrow> u64 \<Rightarrow> (u8 \<Rightarrow> u32) \<Rightarrow> bool" where
  "ioapic_device d base regs \<longleftrightarrow>
     (\<forall>l. mmio d l (base + 0x10) = snd (ioapic_state base regs l) (fst (ioapic_state base regs l)))"

abbreviation (input) io_base :: "'a irq_scheme \<Rightarrow> u64" where "io_base s \<equiv> ucast (ioapic_addr (g_addrs s))"

definition io_regs :: "(u8 \<Rightarrow> u32) \<Rightarrow> 'a irq_scheme \<Rightarrow> u8 \<Rightarrow> u32" where
  "io_regs regs s = snd (ioapic_state (io_base s) regs (io_log s))"

lemma u8_u32_u8 [simp]: "ucast (ucast (r :: u8) :: u32) = r"
  by (rule bit_word_eqI) (simp add: bit_simps)

lemma base_window [simp]: "(b :: u64) + 16 \<noteq> b"
  by simp

lemma ioapic_write_regs:
  "io_regs regs (ioapic_write r v s) = (io_regs regs s)(r := v)"
  "device (ioapic_write r v s) = device s" "g_addrs (ioapic_write r v s) = g_addrs s"
  by (simp_all add: ioapic_write_def mmio_write32_def io_regs_def Let_def ioapic_step_def
      append_assoc [of _ "[_]" "[_]", symmetric, simplified] del: append_assoc)

lemma ioapic_read_regs:
  assumes "ioapic_device (device s) (io_base s) regs"
  shows "fst (ioapic_read r s) = io_regs regs s r" "io_regs regs (snd (ioapic_read r s)) = io_regs regs s"
    "device (snd (ioapic_read r s)) = device s" "g_addrs (snd (ioapic_read r s)) = g_addrs s"
  using assms by (simp_all add: ioapic_read_def mmio_write32_def mmio_read32_def io_regs_def Let_def
      ioapic_step_def ioapic_device_def del: append_assoc)

lemma apic_set_irq_mask_regs:
  assumes "ioapic_device (device s) (io_base s) regs" and "ioapic_addr (g_addrs s) \<noteq> 0"
    and "\<not> gsi < ioapic_gsi_base (g_addrs s)"
  defines "r \<equiv> redir_low (gsi - ioapic_gsi_base (g_addrs s))"
  shows "io_regs regs (apic_set_irq_mask gsi masked s) = (io_regs regs s)(r :=
    if masked then io_regs regs s r OR push_bit 16 1 else io_regs regs s r AND NOT (push_bit 16 1))"
  using assms by (simp add: apic_set_irq_mask_def Let_def case_prod_unfold ioapic_write_regs ioapic_read_regs)

section \<open>Switching to the APIC\<close>

text \<open>Steps that touch neither the legacy controllers nor the bookkeeping of the interrupt layer.\<close>

definition apic_quiet :: "'a irq_scheme \<Rightarrow> 'a irq_scheme \<Rightarrow> bool" where
  "apic_quiet s t \<longleftrightarrow> g_backend t = g_backend s \<and> g_stats t = g_stats s \<and> device t = device s \<and>
     g_madt t = g_madt s \<and> (\<forall>p. last_out p (io_log t) = last_out p (io_log s))"

lemma apic_quiet_refl [simp]: "apic_quiet s s" by (simp add: apic_quiet_def)

lemma apic_quiet_trans: "apic_quiet s t \<Longrightarrow> apic_quiet t u \<Longrightarrow> apic_quiet s u"
  by (auto simp: apic_quiet_def)

lemma apic_quiet_con: "con_only s t \<Longrightarrow> apic_quiet s t"
  by (auto simp: apic_quiet_def con_only_def)

lemma apic_quiet_mmio:
  "apic_quiet s (mmio_write32 a v s)" "apic_quiet s (snd (mmio_read32 a s))"
  "apic_quiet s (wrmsr m w s)" "apic_quiet s (snd (rdmsr m s))"
  by (simp_all add: apic_quiet_def mmio_write32_def mmio_read32_def wrmsr_def rdmsr_def Let_def)

lemma apic_quiet_regs:
  "apic_quiet s (lapic_write r v s)" "apic_quiet s (snd (lapic_read r s))"
  "apic_quiet s (ioapic_write q v s)" "apic_quiet s (snd (ioapic_read q s))" "apic_quiet s (snd (apic_lapic_id s))"
  unfolding lapic_write_def lapic_read_def ioapic_write_def ioapic_read_def apic_lapic_id_def Let_def case_prod_unfold
  by (auto intro: apic_quiet_mmio apic_quiet_trans [OF apic_quiet_mmio(1) apic_quiet_mmio(1)]
      apic_quiet_trans [OF apic_quiet_mmio(1) apic_quiet_mmio(2)])

lemma apic_quiet_route: "apic_quiet s (snd (apic_route_irq gsi v f s))"
  unfolding apic_route_irq_def Let_def case_prod_unfold
  by (auto intro!: apic_quiet_trans [OF _ apic_quiet_regs(3)] apic_quiet_trans [OF apic_quiet_regs(4) apic_quiet_regs(5)]
      apic_quiet_regs(4))

lemma apic_quiet_enable: "apic_quiet s (snd (apic_enable s))"
  unfolding apic_enable_def Let_def case_prod_unfold
  by (auto intro!: apic_quiet_trans [OF _ apic_quiet_con [OF con_only_klog(1)]] apic_quiet_trans [OF _ apic_quiet_regs(1)]
      apic_quiet_trans [OF apic_quiet_mmio(4) apic_quiet_mmio(3)])

lemma note_fault_quiet:
  "health_faults (g_stats (note_fault b s)) = health_faults (g_stats s) + 1"
  "g_backend (note_fault b s) = g_backend s" "io_log (note_fault b s) = io_log s" "device (note_fault b s) = device s"
  by (simp_all add: note_fault_def)

text \<open>A failure keeps the backend and the legacy controllers and counts one fault.\<close>

definition apic_failed :: "'a irq_scheme \<Rightarrow> 'a irq_scheme \<Rightarrow> bool" where
  "apic_failed s t \<longleftrightarrow> g_backend t = g_backend s \<and> (\<forall>p. last_out p (io_log t) = last_out p (io_log s)) \<and>
     health_faults (g_stats t) = health_faults (g_stats s) + 1"

lemma apic_failed_quiet: "apic_quiet s t \<Longrightarrow> apic_failed t u \<Longrightarrow> apic_failed s u"
  by (auto simp: apic_failed_def apic_quiet_def)

lemma apic_failed_note: "apic_failed s (note_fault b (klog_warn m s))"
  using apic_quiet_con [OF con_only_klog(2), of s m]
  by (simp add: apic_failed_def note_fault_quiet apic_quiet_def)

lemma route_irqs_quiet:
  "case route_irqs c irqs cl s of (Some _, t) \<Rightarrow> apic_quiet s t | (None, t) \<Rightarrow> apic_failed s t"
proof (induction irqs arbitrary: cl s)
  case (Cons irq irqs)
  obtain b gsi flags where o: "acpi_get_irq_override irq s = (b, gsi, flags)" by (metis prod.exhaust)
  define s1 where "s1 = s\<lparr>g_irq_gsi := (g_irq_gsi s)[unat irq := gsi]\<rparr>"
  have q1: "apic_quiet s s1" by (simp add: s1_def apic_quiet_def)
  have step: "case route_irqs c irqs cl' t of (Some _, u) \<Rightarrow> apic_quiet s u | (None, u) \<Rightarrow> apic_failed s u"
    if "apic_quiet s1 t" for cl' t
    using Cons.IH [of t cl'] apic_quiet_trans [OF q1 that]
    by (auto split: prod.splits option.splits intro: apic_quiet_trans apic_failed_quiet)
  obtain rt s2 where r: "apic_route_irq gsi (0x20 + irq) flags s1 = (rt, s2)" by (metis prod.exhaust)
  have q2: "apic_quiet s1 s2" using apic_quiet_route [of s1 gsi "0x20 + irq" flags] r by simp
  have f: "apic_failed s (note_fault True (klog_warn m s2))" for m
    by (rule apic_failed_quiet [OF apic_quiet_trans [OF q1 q2] apic_failed_note])
  show ?case
    using step [OF apic_quiet_refl] step [OF q2] step [OF apic_quiet_con [OF con_only_klog(2)]] f
    by (cases c) (simp_all add: o Let_def s1_def [symmetric] r)
qed simp

lemma klog_info_irq [simp]:
  "g_backend (klog_info m s) = g_backend s" "g_stats (klog_info m s) = g_stats s" "io_log (klog_info m s) = io_log s"
  using apic_quiet_con [OF con_only_klog(1) [where m = m and s = s]] con_only_io(1) [OF con_only_klog(1) [where m = m and s = s]]
  by (simp_all add: apic_quiet_def)

lemma irq_try_enable_apic_cases:
  fixes s :: "'a irq_scheme"
  shows "case irq_try_enable_apic s of
      (True, t) \<Rightarrow> g_backend t = IRQ_BACKEND_APIC \<and> g_stats t = g_stats s \<and>
        (\<exists>u. apic_quiet s u \<and> io_log t = io_log (for_range 0 16 pic_mask u))
    | (False, t) \<Rightarrow> apic_failed s t"
proof (cases "madt_present (g_madt s)")
  case False
  then show ?thesis using apic_failed_note [of s False] by (simp add: irq_try_enable_apic_def Let_def acpi_get_madt_info_def)
next
  case True
  define s1 where "s1 = apic_set_addresses \<lparr>lapic_addr = madt_lapic_addr (g_madt s),
    ioapic_addr = madt_ioapic_addr (g_madt s), ioapic_gsi_base = madt_gsi_base (g_madt s)\<rparr> s"
  obtain en s2 where e: "apic_enable s1 = (en, s2)" by (metis prod.exhaust)
  have "apic_quiet s s1" by (simp add: s1_def apic_set_addresses_def apic_quiet_def)
  then have q2: "apic_quiet s s2" using apic_quiet_enable [of s1] e by (auto intro: apic_quiet_trans)
  obtain r3 s3 where r3: "route_irqs True [0, 1] (replicate 256 False) s2 = (r3, s3)" by (metis prod.exhaust)
  obtain r4 s4 where r4: "route_irqs False (map of_nat [2..<16]) (the r3) s3 = (r4, s4)" by (metis prod.exhaust)
  have q3: "r3 \<noteq> None \<Longrightarrow> apic_quiet s s3" "r3 = None \<Longrightarrow> apic_failed s s3"
    using route_irqs_quiet [where c = True and irqs = "[0, 1]" and cl = "replicate 256 False" and s = s2, unfolded r3] q2
    by (auto intro: apic_quiet_trans apic_failed_quiet split: option.splits)
  have q4: "r3 \<noteq> None \<Longrightarrow> r4 \<noteq> None \<Longrightarrow> apic_quiet s s4" "r3 \<noteq> None \<Longrightarrow> r4 = None \<Longrightarrow> apic_failed s s4"
    using route_irqs_quiet [where c = False and irqs = "map of_nat [2..<16]" and cl = "the r3" and s = s3, unfolded r4] q3(1)
    by (auto intro: apic_quiet_trans apic_failed_quiet split: option.splits)
  have fin: "g_stats (for_range 0 16 pic_mask u) = g_stats u" for u :: "'a irq_scheme"
    by (rule for_range_invariant [where I = "\<lambda>_ t. g_stats t = g_stats u"])
      (simp_all add: pic_mask_def inb_def outb_def Let_def)
  have eq: "irq_try_enable_apic s = (if \<not> en
      then (False, note_fault False (klog_warn ''IRQ controller: APIC enable failed, keeping PIC'' s2))
      else case r3 of None \<Rightarrow> (False, s3) | Some c \<Rightarrow> (case r4 of None \<Rightarrow> (False, s4)
        | Some _ \<Rightarrow> (True, klog_info ''IRQ controller: APIC/IOAPIC backend active''
            ((apic_mask_legacy_pic s4)\<lparr>g_backend := IRQ_BACKEND_APIC\<rparr>))))"
    unfolding irq_try_enable_apic_def acpi_get_madt_info_def Let_def s1_def [symmetric]
    using True r4 by (cases r3; cases r4; cases en; simp add: e r3 del: route_irqs.simps)
  show ?thesis
    using apic_failed_quiet [OF q2 apic_failed_note] q3 q4
    by (auto simp: eq apic_mask_legacy_pic_def fin apic_quiet_def split: option.splits)
qed

section \<open>Properties\<close>

text \<open>
  on controllers whose mask register reads as the byte last written to it, \<^verbatim>\<open>pic_mask\<close> masks
  one of the sixteen lines and \<^verbatim>\<open>pic_unmask\<close> unmasks one, and all other lines stay as they are.
\<close>

theorem pic_mask_correct:
  assumes "pic_device (device s)" and "irq < 16" and "i < 16"
  shows "(pic_masked i (pic_mask irq s) \<longleftrightarrow> i = irq \<or> pic_masked i s)
    \<and> (pic_masked i (pic_unmask irq s) \<longleftrightarrow> i \<noteq> irq \<and> pic_masked i s)"
  using pic_masked_mask [OF assms] by simp

definition example_pic :: machine where
  "example_pic = null_machine\<lparr>in_b := \<lambda>l p. imr p l\<rparr>"

definition example_io :: io where
  "example_io = \<lparr>io_log = [OutB 0x21 0xFF, OutB 0xA1 0xFF], device = example_pic, if_flag = False\<rparr>"

theorem pic_mask_correct_witness:
  "\<not> pic_masked 1 (pic_unmask 1 example_io) \<and> pic_masked 0 (pic_unmask 1 example_io)"
proof -
  have "pic_device (device example_io)" by (simp add: pic_device_def example_io_def example_pic_def)
  moreover have "pic_masked 0 example_io" by (simp add: pic_masked_def example_io_def imr_def pic_port_def)
  ultimately show ?thesis using pic_mask_correct [of example_io 1] by simp
qed

text \<open>
  C34: when \<^verbatim>\<open>irq_try_enable_apic\<close> succeeds, the APIC is the backend and every line of the legacy
  controllers is masked; when it fails, the backend and the legacy controllers are what they were and
  exactly one fault is counted.
\<close>

theorem irq_try_enable_apic_correct:
  fixes s :: "'a irq_scheme"
  assumes "pic_device (device s)"
  shows "case irq_try_enable_apic s of
      (True, t) \<Rightarrow> g_backend t = IRQ_BACKEND_APIC \<and> (\<forall>i < 16. pic_masked i t) \<and>
        health_faults (g_stats t) = health_faults (g_stats s)
    | (False, t) \<Rightarrow> g_backend t = g_backend s \<and> (\<forall>i. pic_masked i t = pic_masked i s) \<and>
        health_faults (g_stats t) = health_faults (g_stats s) + 1"
proof -
  have "pic_masked i t" if "apic_quiet s u" "io_log t = io_log (for_range 0 16 pic_mask u)" "i < 16"
    for i and t u :: "'a irq_scheme"
    using pic_masked_all [of u i] that assms by (simp add: pic_masked_def apic_quiet_def)
  then show ?thesis
    using irq_try_enable_apic_cases [of s]
    by (auto simp: apic_failed_def pic_masked_def imr_def split: prod.splits bool.splits)
qed

definition example_irq :: "bool \<Rightarrow> irq \<Rightarrow> irq" where
  "example_irq p s = s\<lparr>device := example_pic, g_backend := IRQ_BACKEND_PIC,
     g_madt := blank_madt\<lparr>madt_present := p, madt_lapic_addr := 0xFEE00000, madt_ioapic_addr := 0xFEC00000\<rparr>\<rparr>"

theorem irq_try_enable_apic_correct_witness:
  "\<forall>s. g_backend (snd (irq_try_enable_apic (example_irq False s))) = IRQ_BACKEND_PIC"
proof
  fix s
  have "pic_device (device (example_irq False s))" by (simp add: pic_device_def example_irq_def example_pic_def)
  moreover have "\<not> fst (irq_try_enable_apic (example_irq False s))"
    by (simp add: irq_try_enable_apic_def Let_def acpi_get_madt_info_def example_irq_def)
  moreover have "g_backend (example_irq False s) = IRQ_BACKEND_PIC" by (simp add: example_irq_def)
  ultimately show "g_backend (snd (irq_try_enable_apic (example_irq False s))) = IRQ_BACKEND_PIC"
    using irq_try_enable_apic_correct [of "example_irq False s"] by (auto split: prod.splits bool.splits)
qed

text \<open>
  With the APIC as backend, masking or unmasking a line changes the mask bit of the line's
  redirection entry in the I/O APIC and no other bit of any register.
\<close>

theorem irq_mask_apic_correct:
  fixes s :: "'a irq_scheme"
  assumes "g_backend s = IRQ_BACKEND_APIC" and "irq < 16" and "ioapic_addr (g_addrs s) \<noteq> 0"
    and "ioapic_device (device s) (ucast (ioapic_addr (g_addrs s))) regs"
    and "ioapic_gsi_base (g_addrs s) \<le> g_irq_gsi s ! unat irq"
  defines "r \<equiv> redir_low (g_irq_gsi s ! unat irq - ioapic_gsi_base (g_addrs s))"
  shows "(bit (io_regs regs (irq_mask irq s) q) n \<longleftrightarrow> (if q = r \<and> n = 16 then True else bit (io_regs regs s q) n))
    \<and> (bit (io_regs regs (irq_unmask irq s) q) n \<longleftrightarrow> (if q = r \<and> n = 16 then False else bit (io_regs regs s q) n))"
proof -
  have n: "\<not> irq \<ge> 16" "\<not> g_irq_gsi s ! unat irq < ioapic_gsi_base (g_addrs s)" using assms(2,5) by simp_all
  have e: "irq_mask irq s = apic_set_irq_mask (g_irq_gsi s ! unat irq) True s"
    "irq_unmask irq s = apic_set_irq_mask (g_irq_gsi s ! unat irq) False s"
    using n(1) assms(1) by (simp_all add: irq_mask_def irq_unmask_def)
  note m = apic_set_irq_mask_regs [OF assms(4,3) n(2), folded r_def]
  have b: "bit (push_bit 16 1 :: u32) n \<longleftrightarrow> n = 16" for n
    by (simp only: bit_push_bit_iff bit_1_iff possible_bit_word) auto
  have v: "bit (v :: u32) n \<Longrightarrow> n < 32" for v by (rule bit_imp_le_length [where 'a = 32, simplified])
  have "bit (io_regs regs (irq_mask irq s) q) n \<longleftrightarrow> (if q = r \<and> n = 16 then True else bit (io_regs regs s q) n)"
    unfolding e m by (simp add: bit_or_iff b del: push_bit_of_1)
  moreover have "bit (io_regs regs (irq_unmask irq s) q) n \<longleftrightarrow> (if q = r \<and> n = 16 then False else bit (io_regs regs s q) n)"
    unfolding e m using v by (auto simp: bit_and_iff bit_not_iff b simp del: push_bit_of_1)
  ultimately show ?thesis by simp
qed

definition example_ioapic :: machine where
  "example_ioapic = null_machine\<lparr>mmio := \<lambda>l a. let st = ioapic_state 0xFEC00000 (\<lambda>_. 0x10000) l in snd st (fst st)\<rparr>"

definition example_apic :: "irq \<Rightarrow> irq" where
  "example_apic s = s\<lparr>io_log := [], device := example_ioapic, g_backend := IRQ_BACKEND_APIC,
     g_irq_gsi := map of_nat [0..<16], g_addrs := \<lparr>lapic_addr = 0xFEE00000, ioapic_addr = 0xFEC00000, ioapic_gsi_base = 0\<rparr>\<rparr>"

theorem irq_mask_apic_correct_witness:
  "\<forall>s. \<not> bit (io_regs (\<lambda>_. 0x10000) (irq_unmask 1 (example_apic s)) 0x12) 16
     \<and> bit (io_regs (\<lambda>_. 0x10000) (irq_unmask 1 (example_apic s)) 0x10) 16"
proof
  fix s
  have "ioapic_device (device (example_apic s)) (ucast (ioapic_addr (g_addrs (example_apic s)))) (\<lambda>_. 0x10000)"
    by (simp add: ioapic_device_def example_apic_def example_ioapic_def Let_def)
  moreover have "io_regs (\<lambda>_. 0x10000) (example_apic s) q = 0x10000" for q
    by (simp add: io_regs_def ioapic_state_def example_apic_def)
  moreover have "g_irq_gsi (example_apic s) ! 1 = 1" by (simp add: example_apic_def)
  ultimately show "\<not> bit (io_regs (\<lambda>_. 0x10000) (irq_unmask 1 (example_apic s)) 0x12) 16
     \<and> bit (io_regs (\<lambda>_. 0x10000) (irq_unmask 1 (example_apic s)) 0x10) 16"
    using irq_mask_apic_correct [of "example_apic s" 1 "\<lambda>_. 0x10000" _ 16]
    by (simp add: example_apic_def redir_low_def)
qed

text \<open>
  The timer is programmed with a 16-bit divisor that is never zero: the base frequency divided by
  the frequency asked for, within 1 and 65535, low byte first. Only the frequency zero panics.
\<close>

theorem timer_init_correct:
  "case timer_init f s of
     Ok _ t \<Rightarrow> f \<noteq> 0 \<and> timer_hz t = f \<and> (\<exists>lo hi. io_log t = io_log s @ [OutB 0x43 0x36, OutB 0x40 lo, OutB 0x40 hi] \<and>
       unat lo + 256 * unat hi = max 1 (min 65535 (1193182 div unat f)))
   | Panic m t \<Rightarrow> f = 0 \<and> t = s
   | Hang \<Rightarrow> False"
proof (cases "f = 0")
  case False
  define d where "d = timer_divisor f"
  define q where "q = 1193182 div f"
  have q: "unat q = 1193182 div unat f" by (simp add: q_def unat_div)
  have "unat d = (if unat q = 0 then 1 else if 65535 < unat q then 65535 else unat q)"
    unfolding d_def timer_divisor_def Let_def q_def [symmetric]
    by (simp add: word_less_nat_alt unat_eq_0)
  then have "unat d = max 1 (min 65535 (unat q))" by (cases "unat q = 0"; cases "65535 < unat q"; simp)
  then have d: "unat d = max 1 (min 65535 (1193182 div unat f))" by (simp only: q)
  have lo: "unat (ucast (e AND 0xFF) :: u8) = unat e mod 256" for e :: u32
  proof -
    have "(0xFF :: u32) = mask 8" by (simp add: mask_eq_exp_minus_1)
    then have "e AND 0xFF = take_bit 8 e" by (simp only: take_bit_eq_mask)
    then show ?thesis by (simp add: unsigned_ucast_eq take_bit_eq_mod unat_mod)
  qed
  have hi: "unat (ucast (drop_bit 8 d AND 0xFF) :: u8) = unat d div 256 mod 256"
    unfolding lo by (simp add: drop_bit_eq_div unat_div)
  have "unat d < 65536" using d by simp
  then have h: "unat d div 256 < 256" by simp
  have s: "unat (ucast (d AND 0xFF) :: u8) + 256 * unat (ucast (drop_bit 8 d AND 0xFF) :: u8) = unat d"
    using h by (simp only: hi lo [of d]) simp
  show ?thesis
    using False s d
    by (simp add: timer_init_def Let_def d_def [symmetric] outb_def print_def print_dec_def)
qed (simp add: timer_init_def)

theorem timer_init_correct_witness:
  "\<forall>s :: irq. \<exists>t. timer_init 100 s = Ok () t \<and> timer_hz t = 100"
proof
  fix s :: irq
  show "\<exists>t. timer_init 100 s = Ok () t \<and> timer_hz t = 100"
    using timer_init_correct [of 100 s] by (auto split: outcome.splits)
qed


definition example_running :: "irq \<Rightarrow> irq" where
  "example_running s = s\<lparr>tasks := (blank_task 0)\<lparr>state := TASK_RUNNING\<rparr> # map blank_task [1..<16], current_tid := 0,
     slice_ticks := 0\<rparr>"


end
