(* ===== verification/Keyboard.thy ===== *)
theory Keyboard
  imports Irq
begin

text \<open>
  The keyboard, \<^verbatim>\<open>kernel/keyboard.c\<close>: scan codes from port 0x60 become characters in a ring of 64
  slots, of which 63 can be in use, from which the shell reads.
\<close>

unbundle bit_operations_syntax

section \<open>State and tables\<close>

record kbd = irq +
  kb_buf :: string
  kb_head :: u8
  kb_tail :: u8
  shell_task_id :: int
  left_shift :: bool
  right_shift :: bool
  g_have_e0 :: bool

abbreviation (input) KB_BUF_SIZE :: u8 where "KB_BUF_SIZE \<equiv> 64"
abbreviation (input) KB_EVENT_UP :: char where "KB_EVENT_UP \<equiv> CHR 0x11"
abbreviation (input) KB_EVENT_DOWN :: char where "KB_EVENT_DOWN \<equiv> CHR 0x12"

definition scancode_map :: string where
  "scancode_map =
     [NUL, NUL] @ ''1234567890-='' @ [CHR 0x08, NUL] @ ''qwertyuiop[]'' @ [NL, NUL] @ ''asdfghjkl;'' @
     [CHR 0x27, CHR 0x60, NUL, CHR 0x5C] @ ''zxcvbnm,./'' @ [NUL] @ ''*'' @ [NUL] @ '' '' @ replicate 70 NUL"

definition scancode_map_shift :: string where
  "scancode_map_shift =
     [NUL, NUL] @ ''!@#$%^&*()_+'' @ [CHR 0x08, NUL] @ ''QWERTYUIOP{}'' @ [NL, NUL] @ ''ASDFGHJKL:'' @
     [CHR 0x22, CHR 0x7E, NUL, CHR 0x7C] @ ''ZXCVBNM<>?'' @ [NUL] @ ''*'' @ [NUL] @ '' '' @ replicate 70 NUL"

section \<open>Operations\<close>

definition shift_active :: "'a kbd_scheme \<Rightarrow> bool" where
  "shift_active s \<longleftrightarrow> left_shift s \<or> right_shift s"

definition translate_scancode :: "u8 \<Rightarrow> 'a kbd_scheme \<Rightarrow> char" where
  "translate_scancode scancode s =
     (if scancode \<ge> 128 then NUL
      else if shift_active s then scancode_map_shift ! unat scancode
      else scancode_map ! unat scancode)"

definition keyboard_set_shell_task :: "int \<Rightarrow> 'a kbd_scheme \<Rightarrow> 'a kbd_scheme" where
  "keyboard_set_shell_task i s = s\<lparr>shell_task_id := i\<rparr>"

definition keyboard_get_state :: "'a kbd_scheme \<Rightarrow> bool \<times> bool" where
  "keyboard_get_state s = (left_shift s, right_shift s)"

definition kb_push :: "char \<Rightarrow> 'a kbd_scheme \<Rightarrow> 'a kbd_scheme" where
  "kb_push c s =
     (let next = (kb_head s + 1) mod KB_BUF_SIZE
      in if next = kb_tail s then s
         else let s1 = s\<lparr>kb_buf := (kb_buf s)[unat (kb_head s) := c], kb_head := next\<rparr>
              in if shell_task_id s1 \<ge> 0 then task_wake (shell_task_id s1) s1 else s1)"

definition kb_getchar :: "'a kbd_scheme \<Rightarrow> char \<times> 'a kbd_scheme" where
  "kb_getchar s =
     (if kb_head s = kb_tail s then (NUL, s)
      else (kb_buf s ! unat (kb_tail s), s\<lparr>kb_tail := (kb_tail s + 1) mod KB_BUF_SIZE\<rparr>))"

definition kb_available :: "'a kbd_scheme \<Rightarrow> bool" where
  "kb_available s \<longleftrightarrow> kb_head s \<noteq> kb_tail s"

text \<open>The polling loops: \<^verbatim>\<open>while (inb(0x64) & 0x01) inb(0x60);\<close> and a wait for a status bit.\<close>

partial_function (option) kb_drain :: "'a kbd_scheme \<Rightarrow> 'a kbd_scheme option" where
  "kb_drain s = (let (v, s1) = inb 0x64 s
     in if v AND 0x01 \<noteq> 0 then kb_drain (snd (inb 0x60 s1)) else Some s1)"

partial_function (option) kb_wait :: "u8 \<Rightarrow> bool \<Rightarrow> 'a kbd_scheme \<Rightarrow> 'a kbd_scheme option" where
  "kb_wait b want s = (let (v, s1) = inb 0x64 s
     in if (v AND b \<noteq> 0) = want then Some s1 else kb_wait b want s1)"

definition keyboard_init :: "'a kbd_scheme \<Rightarrow> (unit, 'a kbd_scheme) outcome" where
  "keyboard_init s =
     (case kb_drain s of None \<Rightarrow> Hang | Some s1 \<Rightarrow>
      case kb_wait 0x01 True (outb 0x64 0x20 s1) of None \<Rightarrow> Hang | Some s2 \<Rightarrow>
      let (config, s3) = inb 0x60 s2;
          config = (config OR push_bit 6 1) OR push_bit 0 1
      in case kb_wait 0x02 False (outb 0x64 0x60 s3) of None \<Rightarrow> Hang | Some s4 \<Rightarrow>
         let s5 = outb 0x64 0xAE (outb 0x60 config s4)
         in Ok () (print (''Keyboard initialized'' @ [NL])
              (s5\<lparr>left_shift := False, right_shift := False, g_have_e0 := False\<rparr>)))"

definition set_shift :: "u8 \<Rightarrow> bool \<Rightarrow> 'a kbd_scheme \<Rightarrow> 'a kbd_scheme" where
  "set_shift key released s =
     (if key = 0x2A then s\<lparr>left_shift := \<not> released\<rparr>
      else if key = 0x36 then s\<lparr>right_shift := \<not> released\<rparr> else s)"

text \<open>What \<^verbatim>\<open>keyboard_handler\<close> does with the scan code it has read.\<close>

definition handle_scancode :: "u8 \<Rightarrow> 'a kbd_scheme \<Rightarrow> 'a kbd_scheme" where
  "handle_scancode scancode s =
     (if scancode = 0xE0 then s\<lparr>g_have_e0 := True\<rparr>
      else if g_have_e0 s
      then let s1 = s\<lparr>g_have_e0 := False\<rparr>
           in if scancode = 0x48 then kb_push KB_EVENT_UP s1
              else if scancode = 0x50 then kb_push KB_EVENT_DOWN s1 else s1
      else let key = scancode AND 0x7F;
               released = (scancode AND 0x80 \<noteq> 0);
               s1 = set_shift key released s
           in if released then s1
              else let c = translate_scancode key s1 in if c \<noteq> NUL then kb_push c s1 else s1)"

definition keyboard_handler :: "'a kbd_scheme \<Rightarrow> 'a kbd_scheme" where
  "keyboard_handler s =
     (let (scancode, s1) = inb 0x60 s in handle_scancode scancode (irq_note_keyboard_irq s1))"

section \<open>The buffer\<close>

definition kb_inv :: "'a kbd_scheme \<Rightarrow> bool" where
  "kb_inv s \<longleftrightarrow> length (kb_buf s) = 64 \<and> unat (kb_head s) < 64 \<and> unat (kb_tail s) < 64"

definition kb_contents :: "'a kbd_scheme \<Rightarrow> string" where
  "kb_contents s = window (kb_buf s) (unat (kb_tail s)) ((unat (kb_head s) + 64 - unat (kb_tail s)) mod 64)"

lemma unat_next: "unat (i :: u8) < 64 \<Longrightarrow> unat ((i + 1) mod 64) = (unat i + 1) mod 64"
  by (subst unat_mod, subst unat_add_lem [THEN iffD1]) simp_all

lemma task_wake_kbd [simp]:
  "kb_buf (task_wake i s) = kb_buf s" "kb_head (task_wake i s) = kb_head s" "kb_tail (task_wake i s) = kb_tail s"
  by (simp_all add: task_wake_def set_task_def)

lemma kb_push_eq:
  "(kb_head s + 1) mod 64 \<noteq> kb_tail s \<Longrightarrow> kb_buf (kb_push c s) = (kb_buf s)[unat (kb_head s) := c]
    \<and> kb_head (kb_push c s) = (kb_head s + 1) mod 64 \<and> kb_tail (kb_push c s) = kb_tail s"
  "(kb_head s + 1) mod 64 = kb_tail s \<Longrightarrow> kb_push c s = s"
  by (simp_all add: kb_push_def Let_def)

lemma ring_count: "h < 64 \<Longrightarrow> t < 64 \<Longrightarrow> (h + 64 - t) mod 64 = (if t \<le> h then h - t else h + 64 - t)"
  for h t :: nat by (auto simp: mod_if)

lemma ring_count_next:
  fixes h t :: nat
  assumes "h < 64" "t < 64" "(h + 64 - t) mod 64 < 63"
  shows "((h + 1) mod 64 + 64 - t) mod 64 = Suc ((h + 64 - t) mod 64)"
proof (cases "h = 63")
  case True
  then show ?thesis using assms ring_count [OF assms(1,2)] by (auto simp: mod_if)
next
  case False
  then have "(h + 1) mod 64 = h + 1" "h + 1 < 64" using assms(1) by simp_all
  then have e2: "((h + 1) mod 64 + 64 - t) mod 64 = (if t \<le> h + 1 then h + 1 - t else h + 1 + 64 - t)"
    using ring_count [of "h + 1" t] assms(2) by simp
  have e1: "(h + 64 - t) mod 64 = (if t \<le> h then h - t else h + 64 - t)" by (rule ring_count [OF assms(1,2)])
  show ?thesis using assms(3) assms(2) unfolding e1 e2 by (simp split: if_splits; linarith)
qed

lemma kb_full_iff:
  assumes "kb_inv s"
  shows "(kb_head s + 1) mod 64 = kb_tail s \<longleftrightarrow> \<not> length (kb_contents s) < 63"
proof -
  have "(kb_head s + 1) mod 64 = kb_tail s \<longleftrightarrow> (unat (kb_head s) + 1) mod 64 = unat (kb_tail s)"
    using assms unat_next [of "kb_head s"] by (simp add: kb_inv_def word_unat_eq_iff)
  also have "\<dots> \<longleftrightarrow> \<not> (unat (kb_head s) + 64 - unat (kb_tail s)) mod 64 < 63"
    using assms by (simp add: kb_inv_def mod_if) linarith
  finally show ?thesis by (simp add: kb_contents_def)
qed

lemma kb_empty_iff:
  assumes "kb_inv s"
  shows "kb_contents s = [] \<longleftrightarrow> kb_head s = kb_tail s"
proof -
  have "kb_contents s = [] \<longleftrightarrow> (unat (kb_head s) + 64 - unat (kb_tail s)) mod 64 = 0"
    by (metis kb_contents_def length_0_conv length_window)
  also have "\<dots> \<longleftrightarrow> unat (kb_head s) = unat (kb_tail s)" using assms by (auto simp: kb_inv_def mod_if)
  finally show ?thesis by (simp add: word_unat_eq_iff)
qed

lemma kb_push_inv: "kb_inv s \<Longrightarrow> kb_inv (kb_push c s)"
  by (cases "(kb_head s + 1) mod 64 = kb_tail s") (simp_all add: kb_push_eq kb_inv_def unat_next)

lemma kb_push_contents:
  assumes inv: "kb_inv s"
  shows "kb_contents (kb_push c s) = (if length (kb_contents s) < 63 then kb_contents s @ [c] else kb_contents s)"
proof (cases "(kb_head s + 1) mod 64 = kb_tail s")
  case True
  then show ?thesis using kb_full_iff [OF inv] by (simp add: kb_push_eq)
next
  case False
  let ?h = "unat (kb_head s)" and ?t = "unat (kb_tail s)"
  define n where "n = (?h + 64 - ?t) mod 64"
  have b: "length (kb_buf s) = 64" "?h < 64" "?t < 64" using inv by (simp_all add: kb_inv_def)
  have n: "n < 63" using False kb_full_iff [OF inv] by (simp add: kb_contents_def n_def)
  have h: "(?t + n) mod 64 = ?h" using b by (auto simp: n_def mod_if)
  have n': "((?h + 1) mod 64 + 64 - ?t) mod 64 = Suc n" using ring_count_next [OF b(2,3)] n by (simp add: n_def)
  have "kb_contents (kb_push c s) = window ((kb_buf s)[(?t + n) mod length (kb_buf s) := c]) ?t (Suc n)"
    using False b h n' by (simp add: kb_contents_def kb_push_eq unat_next)
  also have "\<dots> = kb_contents s @ [c]"
    using n b window_snoc [of n "kb_buf s" ?t c] by (simp add: kb_contents_def n_def)
  finally show ?thesis using n by (simp add: kb_contents_def n_def)
qed

lemma kb_getchar_some:
  assumes inv: "kb_inv s" and ne: "kb_contents s \<noteq> []"
  shows "\<exists>s'. kb_getchar s = (hd (kb_contents s), s') \<and> kb_contents s' = tl (kb_contents s) \<and> kb_inv s'"
proof -
  let ?h = "unat (kb_head s)" and ?t = "unat (kb_tail s)"
  define s' where "s' = s\<lparr>kb_tail := (kb_tail s + 1) mod 64\<rparr>"
  have b: "length (kb_buf s) = 64" "?h < 64" "?t < 64" using inv by (simp_all add: kb_inv_def)
  have d: "kb_head s \<noteq> kb_tail s" using ne kb_empty_iff [OF inv] by simp
  then have "?h \<noteq> ?t" by (simp add: word_unat_eq_iff)
  then obtain n where n: "(?h + 64 - ?t) mod 64 = Suc n" using b by (cases "(?h + 64 - ?t) mod 64") (auto simp: mod_if split: if_splits)
  have n': "(?h + 64 - (?t + 1) mod 64) mod 64 = n" using b n by (auto simp: mod_if split: if_splits)
  have w: "kb_contents s = kb_buf s ! ?t # window (kb_buf s) (Suc ?t) n"
    using b by (simp add: kb_contents_def n window_hd)
  have "kb_contents s' = window (kb_buf s) (Suc ?t) n"
    using b n' window_mod [of "kb_buf s" "Suc ?t" n] by (simp add: kb_contents_def s'_def unat_next)
  moreover have "kb_inv s'" using b by (simp add: kb_inv_def s'_def unat_next)
  ultimately show ?thesis using d w by (intro exI [of _ s']) (simp add: kb_getchar_def s'_def)
qed

interpretation kb_fifo: bounded_fifo kb_push kb_getchar kb_contents 63 NUL kb_inv
proof
  fix s :: "'a kbd_scheme" and e
  show "kb_inv s \<Longrightarrow> kb_contents (kb_push e s) =
      (if length (kb_contents s) < 63 then kb_contents s @ [e] else kb_contents s)"
    by (rule kb_push_contents)
  show "kb_inv s \<Longrightarrow> kb_inv (kb_push e s)" by (rule kb_push_inv)
  show "kb_inv s \<Longrightarrow> kb_contents s = [] \<Longrightarrow> kb_getchar s = (NUL, s)"
    by (simp add: kb_getchar_def kb_empty_iff)
  show "kb_inv s \<Longrightarrow> kb_contents s \<noteq> [] \<Longrightarrow>
      \<exists>s'. kb_getchar s = (hd (kb_contents s), s') \<and> kb_contents s' = tl (kb_contents s) \<and> kb_inv s'"
    by (rule kb_getchar_some)
qed

section \<open>Properties\<close>

text \<open>
  C29: for every interleaving of keyboard interrupts that deliver a character and reads by the shell,
  the characters read are those of a queue of 63 elements: in the order of arrival, none lost or
  repeated unless the queue was full, and 0 when it was empty.
\<close>

theorem kb_buffer_refines:
  fixes s :: "'a kbd_scheme"
  assumes "kb_inv s"
  shows "fst (fifo_run kb_push kb_getchar ops s) = fst (fifo_spec 63 NUL ops (kb_contents s))
    \<and> kb_contents (snd (fifo_run kb_push kb_getchar ops s)) = snd (fifo_spec 63 NUL ops (kb_contents s))
    \<and> kb_inv (snd (fifo_run kb_push kb_getchar ops s))"
  using kb_fifo.run_refines [OF assms] .

definition kb_boot :: "'a kbd_scheme \<Rightarrow> 'a kbd_scheme" where
  "kb_boot s = s\<lparr>kb_buf := replicate 64 NUL, kb_head := 0, kb_tail := 0, shell_task_id := - 1\<rparr>"

lemma kb_boot_inv: "kb_inv (kb_boot s)" "kb_contents (kb_boot s) = []"
  by (simp_all add: kb_inv_def kb_boot_def kb_contents_def)

theorem kb_buffer_refines_witness:
  "\<forall>s :: kbd. fst (fifo_run kb_push kb_getchar [Pop, Push (CHR ''h''), Push (CHR ''i''), Pop, Pop, Pop] (kb_boot s))
     = [NUL, CHR ''h'', CHR ''i'', NUL]"
proof
  fix s :: kbd
  show "fst (fifo_run kb_push kb_getchar [Pop, Push (CHR ''h''), Push (CHR ''i''), Pop, Pop, Pop] (kb_boot s))
     = [NUL, CHR ''h'', CHR ''i'', NUL]"
    using kb_buffer_refines [OF kb_boot_inv(1), of "[Pop, Push (CHR ''h''), Push (CHR ''i''), Pop, Pop, Pop]" s]
    by (simp add: kb_boot_inv)
qed

text \<open>
  a character that arrives while the shell sleeps makes the shell runnable and is there for it to
  read; no other task changes.
\<close>

theorem kb_push_wakes:
  fixes s :: "'a kbd_scheme"
  assumes "kb_inv s" and "length (kb_contents s) < 63" and "length (tasks s) = 16"
    and "shell_task_id s = int i" and "i < 16" and "state (tasks s ! i) = TASK_WAITING"
  shows "tasks (kb_push c s) = (tasks s)[i := (tasks s ! i)\<lparr>state := TASK_RUNNABLE\<rparr>]
    \<and> kb_available (kb_push c s)"
proof -
  have "(kb_head s + 1) mod 64 \<noteq> kb_tail s" using kb_full_iff [OF assms(1)] assms(2) by simp
  then have "tasks (kb_push c s) = (tasks s)[i := (tasks s ! i)\<lparr>state := TASK_RUNNABLE\<rparr>]"
    using assms by (simp add: kb_push_def Let_def task_wake_def set_task_def)
  moreover have "kb_contents (kb_push c s) \<noteq> []" using kb_push_contents [OF assms(1), of c] assms(2) by simp
  ultimately show ?thesis
    using kb_empty_iff [OF kb_push_inv [OF assms(1)], of c] by (simp add: kb_available_def)
qed

definition sleeping_task :: Task where
  "sleeping_task = (blank_task 0)\<lparr>state := TASK_WAITING\<rparr>"

theorem kb_push_wakes_witness:
  "\<forall>s :: kbd. kb_available (kb_push (CHR ''a'')
     ((kb_boot s)\<lparr>tasks := sleeping_task # map blank_task [1..<16], shell_task_id := 0\<rparr>))"
proof
  fix s :: kbd
  let ?s = "(kb_boot s)\<lparr>tasks := sleeping_task # map blank_task [1..<16], shell_task_id := 0\<rparr>"
  have "kb_inv ?s" "kb_contents ?s = []"
    using kb_boot_inv [of s] by (simp_all add: kb_inv_def kb_contents_def)
  then show "kb_available (kb_push (CHR ''a'') ?s)"
    using kb_push_wakes [of ?s 0 "CHR ''a''"] by (simp add: sleeping_task_def)
qed

text \<open>
  C39: the wake-up is lost when the character arrives after the shell's last read and before it goes to
  sleep: the shell then waits although a character is in the buffer.
\<close>

theorem kb_lost_wakeup:
  fixes s :: "'a kbd_scheme"
  assumes "kb_inv s" and "kb_getchar s = (NUL, s)" and "kb_contents s = []" and "length (tasks s) = 16"
    and "shell_task_id s = int i" and "current_tid s = int i" and "i < 16"
    and "state (tasks s ! i) = TASK_RUNNING" and "\<not> is_user (tasks s ! i)"
  shows "\<exists>s'. task_sleep int20 (kb_push c s) = int20 s' \<and> state (tasks s' ! i) = TASK_WAITING \<and> kb_available s'"
proof -
  have f: "(kb_head s + 1) mod 64 \<noteq> kb_tail s" using kb_full_iff [OF assms(1)] assms(3) by simp
  define s1 where "s1 = s\<lparr>kb_buf := (kb_buf s)[unat (kb_head s) := c], kb_head := (kb_head s + 1) mod 64\<rparr>"
  have p: "kb_push c s = s1"
    using f assms by (simp add: kb_push_def Let_def task_wake_def s1_def)
  have "kb_contents s1 \<noteq> []" using kb_push_contents [OF assms(1), of c] assms(3) p by simp
  then have a: "kb_available s1"
    using kb_empty_iff [OF kb_push_inv [OF assms(1)], of c] p by (simp add: kb_available_def)
  define s' where "s' = set_current (\<lambda>t. t\<lparr>state := TASK_WAITING\<rparr>) s1"
  have "task_sleep int20 s1 = int20 s'"
    using assms by (simp add: task_sleep_def task_current_def s1_def s'_def)
  moreover have "state (tasks s' ! i) = TASK_WAITING" "kb_available s'"
    using assms a by (simp_all add: s'_def s1_def set_current_def set_task_def kb_available_def)
  ultimately show ?thesis using p by auto
qed

theorem kb_lost_wakeup_witness:
  "\<forall>s :: kbd. \<exists>s'. task_sleep (Ok ()) (kb_push (CHR ''a'') ((kb_boot s)\<lparr>tasks :=
       (blank_task 0)\<lparr>state := TASK_RUNNING\<rparr> # map blank_task [1..<16], shell_task_id := 0, current_tid := 0\<rparr>))
     = Ok () s' \<and> state (tasks s' ! 0) = TASK_WAITING \<and> kb_available s'"
proof
  fix s :: kbd
  let ?s = "(kb_boot s)\<lparr>tasks := (blank_task 0)\<lparr>state := TASK_RUNNING\<rparr> # map blank_task [1..<16],
     shell_task_id := 0, current_tid := 0\<rparr>"
  have "kb_inv ?s" "kb_contents ?s = []" "kb_getchar ?s = (NUL, ?s)"
    using kb_boot_inv [of s] by (simp_all add: kb_inv_def kb_contents_def kb_getchar_def kb_boot_def)
  then show "\<exists>s'. task_sleep (Ok ()) (kb_push (CHR ''a'') ?s) = Ok () s' \<and> state (tasks s' ! 0) = TASK_WAITING
      \<and> kb_available s'"
    using kb_lost_wakeup [of ?s 0 "Ok ()" "CHR ''a''"] by (simp add: blank_task_def)
qed

end
