(* ===== verification/Paging.thy ===== *)
theory Paging
  imports Keyboard
begin

text \<open>
  The kernel's first page tables, \<^verbatim>\<open>kernel/paging.c\<close>: tables taken one after the other from the
  memory behind the kernel image, an identity map of low memory and the map of the kernel half, both
  with 2 MiB pages. The state adds the statics and the global \<^verbatim>\<open>kernel_cr3\<close>.
\<close>

unbundle bit_operations_syntax

section \<open>State\<close>

record paging = kbd +
  pml4 :: u64
  pdpt :: u64
  next_free_table :: u64
  kernel_cr3 :: u64

abbreviation (input) PSE_2MB :: u64 where "PSE_2MB \<equiv> 0x200000"
abbreviation (input) IDENTITY_MIN_4G :: u64 where "IDENTITY_MIN_4G \<equiv> 0x100000000"

section \<open>Operations\<close>

definition alloc_table :: "'a paging_scheme \<Rightarrow> u64 \<times> 'a paging_scheme" where
  "alloc_table s =
     (let addr = next_free_table s;
          s1 = s\<lparr>next_free_table := next_free_table s + PAGE_SIZE\<rparr>
      in (addr, s1\<lparr>mem := for_range 0 PAGE_SIZE (\<lambda>i m. m(addr + i := 0)) (mem s1)\<rparr>))"

text \<open>The end of conventional memory, the framebuffer and 4 GiB: the largest, rounded up to 2 MiB.\<close>

definition ram_top :: "pmem \<Rightarrow> u64 \<Rightarrow> u64 list \<Rightarrow> u64" where
  "ram_top m mmap offs = fold (\<lambda>off top.
     let d = mmap + off; e = desc_PhysicalStart m d + desc_NumberOfPages m d * PAGE_SIZE
     in if desc_Type m d = 7 then if e > top then e else top else top) offs 0"

definition identity_top :: "BootInfo \<Rightarrow> u64 \<Rightarrow> u64" where
  "identity_top bootInfo ramtop =
     (let fb_end = framebuffer bootInfo + ucast (height bootInfo * pixels_per_scanline bootInfo * 4);
          max_memory = ramtop;
          max_memory = (if fb_end > max_memory then fb_end else max_memory);
          max_memory = (if max_memory < IDENTITY_MIN_4G then IDENTITY_MIN_4G else max_memory)
      in (max_memory + PSE_2MB - 1) AND NOT (PSE_2MB - 1))"

definition identity_flags :: "u64 \<Rightarrow> u64" where
  "identity_flags addr =
     (let page_flags = 0x1 OR 0x2 OR 0x80 OR 0x8000000000000000
      in if addr = 0xFEC00000 \<or> addr = 0xFEE00000 then page_flags OR 0x10 else page_flags)"

lemma slots_left: "i < (512 :: u64) \<Longrightarrow> 512 - unat (i + 1) < 512 - unat i"
  using unat_Suc_less [of i 512] by (simp add: word_less_nat_alt)

text \<open>The two loops of the identity map: over one page directory, and over the directories.\<close>

function fill_pd :: "u64 \<Rightarrow> u64 \<Rightarrow> u64 \<Rightarrow> u64 \<Rightarrow> pmem \<Rightarrow> u64 \<times> pmem" where
  "fill_pd pd max_memory i addr m =
     (if i < 512 \<and> addr < max_memory
      then fill_pd pd max_memory (i + 1) (addr + PSE_2MB)
             (store64 m (pd + 8 * i) (addr OR identity_flags addr))
      else (addr, m))"
  by pat_completeness auto

termination fill_pd
  by (relation "measure (\<lambda>(pd, mx, i, a, m). 512 - unat i)")
    (auto dest: slots_left)

declare fill_pd.simps [simp del]

function fill_pdpt :: "u64 \<Rightarrow> u64 \<Rightarrow> u64 \<Rightarrow> 'a paging_scheme \<Rightarrow> 'a paging_scheme" where
  "fill_pdpt max_memory j addr s =
     (if addr < max_memory \<and> j < 512
      then let (pd, s1) = alloc_table s;
               s2 = set_entry (pdpt s1) j (pd OR 0x1 OR 0x2) s1;
               (addr', m) = fill_pd pd max_memory 0 addr (mem s2)
           in fill_pdpt max_memory (j + 1) addr' (s2\<lparr>mem := m\<rparr>)
      else s)"
  by pat_completeness auto

termination fill_pdpt
  by (relation "measure (\<lambda>(mx, i, a, s). 512 - unat i)")
    (auto dest: slots_left)

declare fill_pdpt.simps [simp del]

definition map_kernel_half :: "'a paging_scheme \<Rightarrow> 'a paging_scheme" where
  "map_kernel_half s =
     (let (pdpt_hi, s1) = alloc_table s;
          s2 = set_entry (pml4 s1) 511 (pdpt_hi OR 0x3) s1;
          (pd_hi, s3) = alloc_table s2;
          s4 = set_entry pdpt_hi 510 (pd_hi OR 0x3) s3;
          (phys, s5) = for_range (0 :: u32) 512 (\<lambda>i (phys, s).
             (phys + PSE_2MB, set_entry pd_hi (ucast i) (phys OR 0x83) s)) (0, s4)
      in s5)"

text \<open>The no-execute flag of an entry has a meaning once bit 11 of the register EFER is set.\<close>

definition enable_nx :: "'a paging_scheme \<Rightarrow> 'a paging_scheme" where
  "enable_nx s =
     (let (efer, s1) = rdmsr 0xC0000080 s;
          s2 = wrmsr 0xC0000080 (efer OR push_bit 11 1) s1;
          (efer_check, s3) = rdmsr 0xC0000080 s2
      in print [NL] (print_hex efer_check (print ''EFER after NXE: '' s3)))"

definition paging_init :: "u64 \<Rightarrow> BootInfo \<Rightarrow> 'a paging_scheme \<Rightarrow> (unit, 'a paging_scheme) outcome" where
  "paging_init kernel_end bootInfo s =
     (let s1 = s\<lparr>next_free_table := (kernel_end_phys kernel_end + PAGE_SIZE - 1) AND NOT (PAGE_SIZE - 1)\<rparr>;
          (t, s2) = alloc_table s1;
          (u, s3) = alloc_table (s2\<lparr>pml4 := t\<rparr>);
          s4 = set_entry (pml4 s3) 0 (u OR 0x3) (s3\<lparr>pdpt := u\<rparr>)
      in case mmap_offsets 0 (memory_map_size bootInfo) (memory_map_descriptor_size bootInfo) of
           None \<Rightarrow> Hang
         | Some offs \<Rightarrow>
             let s5 = fill_pdpt (identity_top bootInfo (ram_top (mem s4) (memory_map bootInfo) offs)) 0 0 s4;
                 s6 = cli (enable_nx (map_kernel_half s5));
                 s7 = s6\<lparr>cr3 := pml4 s6, kernel_cr3 := pml4 s6, paging_arena_end := next_free_table s6\<rparr>
             in Ok () (print [NL] (print_hex (paging_arena_end s7) (print ''paging_arena_end = '' s7))))"

definition paging_remove_identity_map :: "'a paging_scheme \<Rightarrow> 'a paging_scheme" where
  "paging_remove_identity_map s = set_entry (pml4 s) 0 0 s"

end
