(* ===== verification/Desc.thy ===== *)
theory Desc
  imports Paging
begin

text \<open>
  The descriptor tables: segments (\<^verbatim>\<open>kernel/gdt.c\<close>), the task state segment (\<^verbatim>\<open>kernel/tss.c\<close>),
  interrupt gates (the tables of \<^verbatim>\<open>kernel/idt.c\<close>) and the per-processor block
  (\<^verbatim>\<open>kernel/percpu.c\<close>). The addresses the linker assigns are a parameter. The TSS descriptor, which
  the code writes over the slots 5 and 6 of the segment table, is a field of its own.
\<close>

unbundle bit_operations_syntax

section \<open>Data\<close>

record symbols =
  sym_gdt :: u64
  sym_tss :: u64
  sym_df_stack :: u64
  sym_irq_stack :: u64
  sym_idt :: u64
  sym_isr :: "nat \<Rightarrow> u64"
  sym_syscall_stack :: u64
  sym_percpu :: u64

record GDTEntry =
  limit_low :: u16
  base_low :: u16
  base_mid :: u8
  access :: u8
  granularity :: u8
  base_high :: u8

record GDTDescriptor =
  gdt_limit :: u16
  gdt_base :: u64

record TSSDescriptor =
  t_limit_low :: u16
  t_base_low :: u16
  t_base_mid1 :: u8
  t_access :: u8
  t_granularity :: u8
  t_base_mid2 :: u8
  t_base_high :: u32
  t_reserved :: u32

record TSS =
  rsp0 :: u64
  rsp1 :: u64
  rsp2 :: u64
  ist1 :: u64
  ist2 :: u64
  ist3 :: u64
  ist4 :: u64
  ist5 :: u64
  ist6 :: u64
  ist7 :: u64
  iopb_offset :: u16

record IDTEntry =
  offset_low :: u16
  selector :: u16
  ist :: u8
  type_attr :: u8
  offset_mid :: u16
  offset_high :: u32
  i_reserved :: u32

record IDTDescriptor =
  idt_limit :: u16
  idt_base :: u64

record PerCPU =
  pc_kernel_rsp :: u64
  pc_user_rsp :: u64
  pc_kernel_cr3 :: u64
  pc_user_cr3 :: u64

record desc = paging +
  gdt :: "GDTEntry list"
  gdt_tss :: TSSDescriptor
  gdtr :: GDTDescriptor
  tss :: TSS
  task_register :: u16
  idt :: "IDTEntry list"
  idtr :: IDTDescriptor
  segment_registers :: "u16 list"
  percpu_data :: PerCPU

abbreviation (input) GDT_KERNEL_CODE :: u16 where "GDT_KERNEL_CODE \<equiv> 0x08"
abbreviation (input) GDT_TSS :: u16 where "GDT_TSS \<equiv> 0x28"
abbreviation (input) TSS_SIZE :: u32 where "TSS_SIZE \<equiv> 104"

section \<open>Segments\<close>

definition gdt_set_tss :: "u64 \<Rightarrow> u32 \<Rightarrow> 'a desc_scheme \<Rightarrow> 'a desc_scheme" where
  "gdt_set_tss tss_addr tss_size s = s\<lparr>gdt_tss :=
     \<lparr>t_limit_low = ucast (tss_size AND 0xFFFF), t_base_low = ucast (tss_addr AND 0xFFFF),
      t_base_mid1 = ucast (drop_bit 16 tss_addr AND 0xFF), t_access = 0x89, t_granularity = 0x00,
      t_base_mid2 = ucast (drop_bit 24 tss_addr AND 0xFF),
      t_base_high = ucast (drop_bit 32 tss_addr AND 0xFFFFFFFF), t_reserved = 0\<rparr>\<rparr>"

definition gdt_set_entry :: "nat \<Rightarrow> u8 \<Rightarrow> u8 \<Rightarrow> 'a desc_scheme \<Rightarrow> 'a desc_scheme" where
  "gdt_set_entry i acc gran s = s\<lparr>gdt := (gdt s)[i :=
     \<lparr>limit_low = 0xFFFF, base_low = 0, base_mid = 0, access = acc, granularity = gran, base_high = 0\<rparr>]\<rparr>"

definition null_segment :: GDTEntry where
  "null_segment = \<lparr>limit_low = 0, base_low = 0, base_mid = 0, access = 0, granularity = 0, base_high = 0\<rparr>"

text \<open>The segment registers are listed as ds, es, fs, gs, ss, cs.\<close>

definition gdt_init :: "'b symbols_scheme \<Rightarrow> 'a desc_scheme \<Rightarrow> 'a desc_scheme" where
  "gdt_init lk s =
     (let s0 = s\<lparr>gdt := (gdt s)[0 := null_segment]\<rparr>;
          s1 = gdt_set_entry 1 0x9A 0x20 s0;
          s2 = gdt_set_entry 2 0x92 0x00 s1;
          s3 = gdt_set_entry 3 0xFA 0x20 s2;
          s4 = gdt_set_entry 4 0xF2 0x00 s3;
          s5 = s4\<lparr>gdtr := \<lparr>gdt_limit = 7 * 8 - 1, gdt_base = sym_gdt lk\<rparr>,
                  segment_registers := replicate 5 0x10 @ [0x08]\<rparr>
      in print (''GDT loaded'' @ [NL]) s5)"

section \<open>Task state segment\<close>

definition blank_tss :: TSS where
  "blank_tss = \<lparr>rsp0 = 0, rsp1 = 0, rsp2 = 0, ist1 = 0, ist2 = 0, ist3 = 0, ist4 = 0, ist5 = 0, ist6 = 0,
     ist7 = 0, iopb_offset = 0\<rparr>"

definition tss_set_rsp0 :: "u64 \<Rightarrow> 'a desc_scheme \<Rightarrow> 'a desc_scheme" where
  "tss_set_rsp0 rsp s = s\<lparr>tss := (tss s)\<lparr>rsp0 := rsp\<rparr>\<rparr>"

definition tss_init :: "'b symbols_scheme \<Rightarrow> 'a desc_scheme \<Rightarrow> 'a desc_scheme" where
  "tss_init lk s =
     (let s1 = s\<lparr>tss := blank_tss\<lparr>rsp0 := sym_irq_stack lk + 8192, ist1 := sym_df_stack lk + 4096,
                  iopb_offset := ucast TSS_SIZE\<rparr>\<rparr>;
          s2 = gdt_set_tss (sym_tss lk) (TSS_SIZE - 1) s1;
          s3 = s2\<lparr>task_register := 0x28\<rparr>
      in print (''TSS loaded'' @ [NL]) s3)"

section \<open>Interrupt gates\<close>

definition idt_set_entry :: "nat \<Rightarrow> u64 \<Rightarrow> u8 \<Rightarrow> u8 \<Rightarrow> 'a desc_scheme \<Rightarrow> 'a desc_scheme" where
  "idt_set_entry vector addr ist_index attr s = s\<lparr>idt := (idt s)[vector :=
     \<lparr>offset_low = ucast (addr AND 0xFFFF), selector = GDT_KERNEL_CODE, ist = ist_index, type_attr = attr,
      offset_mid = ucast (drop_bit 16 addr AND 0xFFFF),
      offset_high = ucast (drop_bit 32 addr AND 0xFFFFFFFF), i_reserved = 0\<rparr>]\<rparr>"

definition null_gate :: IDTEntry where
  "null_gate = \<lparr>offset_low = 0, selector = 0, ist = 0, type_attr = 0, offset_mid = 0, offset_high = 0,
     i_reserved = 0\<rparr>"

definition idt_init :: "'b symbols_scheme \<Rightarrow> 'a desc_scheme \<Rightarrow> 'a desc_scheme" where
  "idt_init lk s =
     (let s0 = s\<lparr>idt := replicate 256 null_gate\<rparr>;
          s1 = fold (\<lambda>v. idt_set_entry v (sym_isr lk v) 0 0x8E) [0..<8] s0;
          s2 = idt_set_entry 8 (sym_isr lk 8) 1 0x8E s1;
          s3 = fold (\<lambda>v. idt_set_entry v (sym_isr lk v) 0 0x8E) [9..<21] s2;
          s4 = fold (\<lambda>v. idt_set_entry v (sym_isr lk v) 0 0x8E) [32..<48] s3;
          s5 = idt_set_entry 128 (sym_isr lk 128) 0 0xEE s4;
          s6 = s5\<lparr>idtr := \<lparr>idt_limit = 256 * 16 - 1, idt_base = sym_idt lk\<rparr>\<rparr>
      in print (''IDT loaded'' @ [NL]) s6)"

section \<open>Per-processor data\<close>

definition percpu_init :: "'b symbols_scheme \<Rightarrow> 'a desc_scheme \<Rightarrow> 'a desc_scheme" where
  "percpu_init lk s =
     (let s1 = s\<lparr>percpu_data := \<lparr>pc_kernel_rsp = sym_syscall_stack lk + 8192, pc_user_rsp = 0,
                  pc_kernel_cr3 = cr3 s, pc_user_cr3 = 0\<rparr>\<rparr>;
          s2 = wrmsr 0xC0000102 (sym_percpu lk) (tss_set_rsp0 (sym_syscall_stack lk + 8192) s1)
      in print (''PerCPU initialized'' @ [NL]) s2)"

section \<open>Gates\<close>

definition gate_offset :: "IDTEntry \<Rightarrow> u64" where
  "gate_offset g = ucast (offset_low g) OR push_bit 16 (ucast (offset_mid g)) OR push_bit 32 (ucast (offset_high g))"

definition gate :: "u64 \<Rightarrow> u8 \<Rightarrow> u8 \<Rightarrow> IDTEntry" where
  "gate addr ist_index attr = \<lparr>offset_low = ucast (addr AND 0xFFFF), selector = GDT_KERNEL_CODE, ist = ist_index,
     type_attr = attr, offset_mid = ucast (drop_bit 16 addr AND 0xFFFF),
     offset_high = ucast (drop_bit 32 addr AND 0xFFFFFFFF), i_reserved = 0\<rparr>"

lemma gate_offset_gate: "gate_offset (gate addr i a) = addr"
proof -
  have m: "(0xFFFF :: u64) = mask 16" "(0xFFFFFFFF :: u64) = mask 32" by (simp_all add: mask_eq_exp_minus_1)
  have parts: "addr = ucast (ucast (addr AND mask 16) :: u16) OR push_bit 16 (ucast (ucast (drop_bit 16 addr AND mask 16) :: u16))
      OR push_bit 32 (ucast (ucast (drop_bit 32 addr AND mask 32) :: u32))"
  proof (rule bit_eqI)
    fix n assume "possible_bit TYPE(64 word) n"
    then consider "n < 16" | "16 \<le> n" "n < 32" | "32 \<le> n" "n < 64" by fastforce
    then show "bit addr n = bit ((ucast (ucast (addr AND mask 16) :: u16) :: u64) OR push_bit 16 (ucast (ucast (drop_bit 16 addr AND mask 16) :: u16))
      OR push_bit 32 (ucast (ucast (drop_bit 32 addr AND mask 32) :: u32))) n"
      by cases (auto simp: bit_simps)
  qed
  show ?thesis unfolding gate_offset_def gate_def m using parts [symmetric] by simp
qed

lemma gate_fields [simp]: "selector (gate x i a) = GDT_KERNEL_CODE" "ist (gate x i a) = i" "type_attr (gate x i a) = a"
  by (simp_all add: gate_def)

lemma idt_set_entry_gates: "idt (idt_set_entry v addr i a s) = (idt s)[v := gate addr i a]"
  by (simp add: idt_set_entry_def gate_def)

lemma idt_set_range:
  assumes "b \<le> length (idt s)"
  shows "length (idt (fold (\<lambda>v. idt_set_entry v (f v) i att) [a..<b] s)) = length (idt s)"
    and "idt (fold (\<lambda>v. idt_set_entry v (f v) i att) [a..<b] s) ! v =
      (if a \<le> v \<and> v < b then gate (f v) i att else idt s ! v)"
proof -
  let ?s = "\<lambda>b. fold (\<lambda>v. idt_set_entry v (f v) i att) [a..<b] s"
  have "b \<le> length (idt s) \<longrightarrow> length (idt (?s b)) = length (idt s) \<and>
      idt (?s b) ! v = (if a \<le> v \<and> v < b then gate (f v) i att else idt s ! v)"
    by (induction b) (auto simp: idt_set_entry_gates nth_list_update)
  then show "length (idt (?s b)) = length (idt s)"
    "idt (?s b) ! v = (if a \<le> v \<and> v < b then gate (f v) i att else idt s ! v)" using assms by blast+
qed

definition installed :: "nat \<Rightarrow> bool" where
  "installed v \<longleftrightarrow> v < 21 \<or> 32 \<le> v \<and> v < 48 \<or> v = 128"

lemma idt_init_gates:
  "length (idt (idt_init lk s)) = 256"
  "v < 256 \<Longrightarrow> idt (idt_init lk s) ! v =
     (if installed v then gate (sym_isr lk v) (if v = 8 then 1 else 0) (if v = 128 then 0xEE else 0x8E) else null_gate)"
  by (simp_all add: idt_init_def Let_def print_def idt_set_entry_gates idt_set_range nth_list_update installed_def
      del: upt_rec_numeral)

text \<open>
  C24: After \<^verbatim>\<open>idt_init\<close> the table has 256 gates. The gates of the exceptions 0 to 20, of the sixteen
  interrupt lines and of vector 128 are present, are in the kernel code segment and lead to the stub of
  their vector; no other gate is present. Only vector 128 may be called from user mode, and only the
  double fault switches to a stack of its own.
\<close>

theorem idt_init_correct:
  assumes "v < 256"
  shows "let g = idt (idt_init lk s) ! v in
    length (idt (idt_init lk s)) = 256 \<and> (bit (type_attr g) 7 \<longleftrightarrow> installed v) \<and>
    (installed v \<longrightarrow> gate_offset g = sym_isr lk v \<and> selector g = GDT_KERNEL_CODE) \<and>
    (type_attr g AND 0x60 = 0x60 \<longleftrightarrow> v = 128) \<and> (ist g \<noteq> 0 \<longleftrightarrow> v = 8)"
proof -
  have b: "bit (0x8E :: u8) 7" "bit (0xEE :: u8) 7" by (simp_all add: bit_iff_odd)
  show ?thesis unfolding Let_def idt_init_gates(2) [OF assms(1)] idt_init_gates(1)
    using b by (auto simp: gate_offset_gate installed_def null_gate_def)
qed

theorem idt_init_correct_witness:
  "\<forall>s :: desc. \<forall>lk :: symbols. installed 14 \<and> gate_offset (idt (idt_init lk s) ! 14) = sym_isr lk 14 \<and>
     \<not> bit (type_attr (idt (idt_init lk s) ! 21)) 7"
  using idt_init_correct [of 14] idt_init_correct [of 21] by (auto simp: installed_def Let_def)

end
