(* ===== verification/Proc.thy ===== *)
theory Proc
  imports Sched
begin

text \<open>
  Creating processes, the rest of \<^verbatim>\<open>kernel/process.c\<close>: the user stack, the ELF loader and the
  spawn operations. The image is a range of memory; the fields of its headers are read at their
  ELF64 offsets. The two built-in images, which the linker provides, are parameters.
\<close>

unbundle bit_operations_syntax

abbreviation (input) PROCESS_STACK_VIRT :: u64 where "PROCESS_STACK_VIRT \<equiv> 0x00007FFFFFFFE000"
abbreviation (input) PROCESS_STACK_PAGES :: nat where "PROCESS_STACK_PAGES \<equiv> 4"
abbreviation (input) USER_LOWER_LIMIT :: u64 where "USER_LOWER_LIMIT \<equiv> 0x400000"
abbreviation (input) USER_UPPER_LIMIT :: u64 where "USER_UPPER_LIMIT \<equiv> 0x0000800000000000"
abbreviation (input) VMM_FLAG_NX :: u64 where "VMM_FLAG_NX \<equiv> 0x8000000000000000"

section \<open>ELF headers\<close>

record Elf64_Ehdr =
  e_ident4 :: "u8 list"
  e_entry :: u64
  e_phoff :: u64
  e_phnum :: u16

definition load_ehdr :: "pmem \<Rightarrow> u64 \<Rightarrow> Elf64_Ehdr" where
  "load_ehdr m a = \<lparr>e_ident4 = [m a, m (a + 1), m (a + 2), m (a + 3)],
     e_entry = load64 m (a + 24), e_phoff = load64 m (a + 32), e_phnum = load16 m (a + 56)\<rparr>"

record Elf64_Phdr =
  p_type :: u32
  p_flags :: u32
  p_offset :: u64
  p_vaddr :: u64
  p_filesz :: u64
  p_memsz :: u64

definition load_phdr :: "pmem \<Rightarrow> u64 \<Rightarrow> Elf64_Phdr" where
  "load_phdr m a = \<lparr>p_type = load32 m a, p_flags = load32 m (a + 4), p_offset = load64 m (a + 8),
     p_vaddr = load64 m (a + 16), p_filesz = load64 m (a + 32), p_memsz = load64 m (a + 40)\<rparr>"

section \<open>Loading\<close>

definition zero_page :: "u64 \<Rightarrow> pmem \<Rightarrow> pmem" where
  "zero_page page m = for_range 0 4096 (\<lambda>j m. m(page + j := 0)) m"

text \<open>Allocate, clear and map one page: \<open>Some (-1)\<close> leaves the caller.\<close>

definition map_fresh_page ::
  "u64 \<Rightarrow> u64 \<Rightarrow> u64 \<Rightarrow> 'a proc_scheme \<Rightarrow> (int option, 'a proc_scheme) outcome" where
  "map_fresh_page as va flags s =
     (let (page, s1) = pmm_alloc_page s
      in if page = 0 then Ok (Some (- 1)) s1
         else kbind (vmm_map as va page flags (s1\<lparr>mem := zero_page page (mem s1)\<rparr>)) (\<lambda>_ s.
              Ok None s))"

definition map_user_stack :: "u64 \<Rightarrow> 'a proc_scheme \<Rightarrow> (int \<times> u64, 'a proc_scheme) outcome" where
  "map_user_stack as s =
     (let stack_base = PROCESS_STACK_VIRT - of_nat PROCESS_STACK_PAGES * 0x1000
      in if as = 0 then Ok (- 1, 0) s
         else if stack_base < USER_LOWER_LIMIT \<or> PROCESS_STACK_VIRT \<ge> USER_UPPER_LIMIT then Ok (- 1, 0) s
         else kbind (for_list [0..<PROCESS_STACK_PAGES] (\<lambda>i s.
                map_fresh_page as (PROCESS_STACK_VIRT - of_nat (i + 1) * 0x1000)
                  (VMM_FLAG_PRESENT OR VMM_FLAG_WRITE OR VMM_FLAG_USER OR VMM_FLAG_NX) s) s) (\<lambda>r s.
              case r of Some e \<Rightarrow> Ok (e, 0) s | None \<Rightarrow> Ok (0, PROCESS_STACK_VIRT) s))"

text \<open>The pages \<^verbatim>\<open>for (va = from; va < to; va += 0x1000)\<close> visits, for aligned bounds.\<close>

definition page_steps :: "u64 \<Rightarrow> u64 \<Rightarrow> u64 list" where
  "page_steps from to =
     map (\<lambda>k. from + of_nat k * 0x1000) [0..<(if from < to then unat (to - from) div 4096 else 0)]"

definition segment_flags :: "u32 \<Rightarrow> u64" where
  "segment_flags pf =
     (let flags = VMM_FLAG_PRESENT OR VMM_FLAG_USER;
          flags = (if pf AND 2 \<noteq> 0 then flags OR VMM_FLAG_WRITE else flags)
      in if pf AND 1 = 0 then flags OR VMM_FLAG_NX else flags)"

definition load_segment_pages ::
  "u64 \<Rightarrow> u64 \<Rightarrow> u64 \<Rightarrow> u64 \<Rightarrow> 'a proc_scheme \<Rightarrow> (int option, 'a proc_scheme) outcome" where
  "load_segment_pages as seg_start seg_end flags s =
     for_list (page_steps seg_start seg_end) (\<lambda>va s.
       if vmm_virt_to_phys as va s \<noteq> 0 then Ok None s else map_fresh_page as va flags s) s"

definition copy_segment ::
  "u64 \<Rightarrow> u64 \<Rightarrow> u64 \<Rightarrow> 'a proc_scheme \<Rightarrow> (int option, 'a proc_scheme) outcome" where
  "copy_segment as elf_data pha s =
     (let src = elf_data + p_offset (load_phdr (mem s) pha)
      in for_dyn_out 0 (\<lambda>s. p_filesz (load_phdr (mem s) pha)) (\<lambda>off s.
           let va = p_vaddr (load_phdr (mem s) pha) + off;
               phys = vmm_virt_to_phys as va s
           in if phys = 0 then Ok (Some (- 1)) s
              else Ok None (s\<lparr>mem := (mem s)(phys := mem s (src + off))\<rparr>)) s)"

definition load_segment ::
  "u64 \<Rightarrow> u64 \<Rightarrow> u64 \<Rightarrow> u64 \<Rightarrow> 'a proc_scheme \<Rightarrow> (int option, 'a proc_scheme) outcome" where
  "load_segment as elf_data sz pha s =
     (let ph = load_phdr (mem s) pha
      in if p_type ph \<noteq> 1 then Ok None s
         else if p_memsz ph < p_filesz ph then Ok (Some (- 1)) s
         else if p_offset ph + p_filesz ph > sz then Ok (Some (- 1)) s
         else let seg_start = page_base (p_vaddr ph);
                  seg_end = page_base (p_vaddr ph + p_memsz ph + 0xFFF)
              in if seg_start < USER_LOWER_LIMIT \<or> seg_end \<ge> USER_UPPER_LIMIT then Ok (Some (- 1)) s
                 else kbind (load_segment_pages as seg_start seg_end (segment_flags (p_flags ph)) s) (\<lambda>r s.
                      case r of Some e \<Rightarrow> Ok (Some e) s | None \<Rightarrow> copy_segment as elf_data pha s))"

definition load_elf_into_as ::
  "u64 \<Rightarrow> u64 \<Rightarrow> u64 \<Rightarrow> 'a proc_scheme \<Rightarrow> (int \<times> u64, 'a proc_scheme) outcome" where
  "load_elf_into_as as elf_data sz s =
     (let eh = load_ehdr (mem s) elf_data
      in if as = 0 \<or> elf_data = 0 \<or> sz < 64 then Ok (- 1, 0) s
         else if e_ident4 eh \<noteq> [0x7F, 0x45, 0x4C, 0x46] then Ok (- 1, 0) s
         else if e_entry eh < USER_LOWER_LIMIT \<or> e_entry eh \<ge> USER_UPPER_LIMIT then Ok (- 1, 0) s
         else if e_phoff eh + ucast (e_phnum eh) * 56 > sz then Ok (- 1, 0) s
         else let phdrs = elf_data + e_phoff eh
              in kbind (for_dyn_out 0 (\<lambda>s. e_phnum (load_ehdr (mem s) elf_data)) (\<lambda>i s.
                   load_segment as elf_data sz (phdrs + 56 * ucast i) s) s) (\<lambda>r s.
                 case r of Some e \<Rightarrow> Ok (e, 0) s
                 | None \<Rightarrow> Ok (0, e_entry (load_ehdr (mem s) elf_data)) s))"

section \<open>Spawning\<close>

definition spawn_record :: "int \<Rightarrow> u64 \<Rightarrow> int \<Rightarrow> u64 \<Rightarrow> u64 \<Rightarrow> Process \<Rightarrow> Process" where
  "spawn_record q as t ent rsp p = p\<lparr>used := True, p_pid := q, p_address_space := as, main_tid := t,
     p_entry := ent, user_rsp := rsp, exited := False, p_exit_code := 0, reap_pending := False\<rparr>"

definition process_spawn_from_elf :: "u64 \<Rightarrow> u64 \<Rightarrow> 'a proc_scheme \<Rightarrow> (int, 'a proc_scheme) outcome" where
  "process_spawn_from_elf elf_data sz s =
     (let slot = alloc_process_slot s
      in if slot < 0 then Ok (- 1) s
         else kbind (vmm_create_address_space s) (\<lambda>as s.
         if as = 0 then Ok (- 1) s
         else kbind (load_elf_into_as as elf_data sz s) (\<lambda>(r, ent) s.
         if r < 0 then Ok (- 1) (vmm_destroy_address_space as s)
         else kbind (map_user_stack as s) (\<lambda>(r, rsp) s.
         if r < 0 then Ok (- 1) (vmm_destroy_address_space as s)
         else let q = next_pid s
              in kbind (task_create_user q as ent rsp (s\<lparr>next_pid := next_pid s + 1\<rparr>)) (\<lambda>t s.
         if t < 0 then Ok (- 1) (vmm_destroy_address_space as s)
         else let s1 = set_proc (nat slot) (spawn_record q as t ent rsp) s;
                  s2 = print_dec (u64_of_int q) (print ''[proc spawn pid='' s1);
                  s3 = print_dec (u64_of_int t) (print '' tid='' s2);
                  s4 = print ('']'' @ [NL]) (print_hex ent (print '' entry='' s3))
              in Ok q s4)))))"

definition process_spawn_builtin ::
  "u64 \<times> u64 \<Rightarrow> u64 \<times> u64 \<Rightarrow> int \<Rightarrow> 'a proc_scheme \<Rightarrow> (int, 'a proc_scheme) outcome" where
  "process_spawn_builtin hello burn image_id s =
     (if image_id = 0 then process_spawn_from_elf (fst hello) (snd hello - fst hello) s
      else if image_id = 1 then process_spawn_from_elf (fst burn) (snd burn - fst burn) s
      else Ok (- 1) s)"

end
