(* ===== verification/Pages.thy ===== *)
theory Pages
  imports Proc
begin

text \<open>
  What the page-table code of \<^verbatim>\<open>kernel/vmm.c\<close> leaves alone, and the fresh pages that the loader and the
  stack set-up of \<^verbatim>\<open>kernel/process.c\<close> give an address space. The invariant of the loader, \<open>page_view\<close>, says
  which bytes the processor sees in the new pages and that nothing else changed.
\<close>

unbundle bit_operations_syntax

section \<open>Memory the page-table code leaves alone\<close>

text \<open>
  An address is quiet when it lies outside the bitmap, the free frames, the page tables and the
  \<^verbatim>\<open>AddressSpace\<close> structures: data. Mapping a page keeps quiet memory quiet and unchanged.
\<close>

definition quiet :: "'a vmm_scheme \<Rightarrow> u64 set \<Rightarrow> u64 \<Rightarrow> bool" where
  "quiet s S a \<longleftrightarrow> a \<notin> bitmap_region s \<and> (\<forall>n \<in> free_set s. a \<notin> frame_region n) \<and>
     (\<forall>r \<in> roots s S. \<forall>p t. table_at (mem s) r p t \<longrightarrow> a \<notin> region t 4096) \<and>
     (\<forall>as \<in> S. a \<notin> region as 8)"

definition keeps :: "'a vmm_scheme \<Rightarrow> u64 set \<Rightarrow> 'a vmm_scheme \<Rightarrow> bool" where
  "keeps s S s' \<longleftrightarrow> (\<forall>a. quiet s S a \<longrightarrow> quiet s' S a \<and> mem s' a = mem s a)"

lemma keepsD: "keeps s S s' \<Longrightarrow> quiet s S a \<Longrightarrow> quiet s' S a \<and> mem s' a = mem s a"
  by (simp add: keeps_def)

lemma keeps_refl [simp]: "keeps s S s"
  by (simp add: keeps_def)

lemma keeps_trans: "keeps s S t \<Longrightarrow> keeps t S u \<Longrightarrow> keeps s S u"
  by (simp add: keeps_def)

lemma quietI:
  assumes "quiet s S a" and "bitmap_region s' = bitmap_region s" and "free_set s' \<subseteq> free_set s"
    and "roots s' S = roots s S"
    and "\<And>r p t. r \<in> roots s S \<Longrightarrow> table_at (mem s') r p t \<Longrightarrow> table_at (mem s) r p t \<or> a \<notin> region t 4096"
  shows "quiet s' S a"
  using assms unfolding quiet_def by blast

lemma set_entry_out:
  assumes "vm_inv s S" and "r \<in> roots s S" and "table_at (mem s) r p t" and "i < 512" and "quiet s S a"
  shows "mem (set_entry t i v s) a = mem s a"
proof -
  have "region (t + 8 * i) 8 \<subseteq> region t 4096" by (rule slot_subset [OF vm_invD(5) [OF assms(1-3)] assms(4)])
  moreover have "a \<notin> region t 4096" using assms(2,3,5) by (auto simp: quiet_def)
  ultimately show ?thesis unfolding set_entry_def by (simp, subst store64_apply_out) auto
qed

lemma alloc_keeps:
  fixes s s' :: "'a vmm_scheme"
  assumes inv: "vm_inv s S" and pi: "pmm_inv s'" and mo: "mem_only s s'" and n: "n \<in> free_set s"
    and fs: "free_set s' = free_set s - {n}"
    and out: "\<And>x. x \<notin> bitmap_region s \<Longrightarrow> x \<notin> frame_region n \<Longrightarrow> mem s' x = mem s x"
  shows "keeps s S s'"
  unfolding keeps_def
proof (intro allI impI conjI)
  fix a assume q: "quiet s S a"
  note st = alloc_step [OF inv pi mo n fs out]
  show "mem s' a = mem s a" using q n by (intro out) (auto simp: quiet_def)
  show "quiet s' S a"
    by (rule quietI [OF q mem_only_fields(4) [OF mo] _ vm_step_roots [OF st(1)]])
      (use fs st(3) in auto)
qed

text \<open>A table hung into an empty slot is the only new one.\<close>

lemma link_tables:
  assumes inv: "vm_inv s S" and t: "r0 \<in> roots s S" "table_at (mem s) r0 p0 t0"
    and i: "length p0 \<le> 2" "i0 < 512" and absent: "\<not> present (entry (mem s) t0 i0)"
    and n: "kframe s n" "fresh_table s S n" and zero: "\<And>j. j < 512 \<Longrightarrow> entry (mem s) n j = 0"
    and e: "pte_addr e = n" "present e" "\<not> huge e"
    and r: "r \<in> roots s S" and q: "table_at (mem (set_entry t0 i0 e s)) r q u"
  shows "table_at (mem s) r q u \<or> u = n"
proof -
  note fr = set_entry_frame [OF inv t i(2), where v = e]
  have nt0: "n \<noteq> t0" using n(2) t by (auto simp: fresh_table_def)
  have z: "\<not> present (entry (mem (set_entry t0 i0 e s)) n j)" if "j < 512" for j
    using fr(5) [OF kframe_aligned [OF inv n(1)] that] zero [OF that] nt0 by simp
  have same: "entry (mem (set_entry t0 i0 e s)) t j = entry (mem s) t j"
    if "r \<in> roots s S" "table_at (mem s) r p t" "j < 512" "(t, j) \<noteq> (t0, i0)" for r p t j
    using fr(5) [OF vm_invD(5) [OF inv that(1,2)] that(3)] that(4) by auto
  have "entry (mem (set_entry t0 i0 e s)) t0 i0 = e" using fr(5) [OF vm_invD(5) [OF inv t] i(2)] by simp
  then have ws: "walk_step (mem (set_entry t0 i0 e s)) t0 i0 = Some n" using e by (simp add: walk_step_def)
  have "table_at (mem (set_entry t0 i0 e s)) r q u \<longleftrightarrow>
      table_at (mem s) r q u \<or> q = p0 @ [i0] \<and> table_at (mem s) r p0 t0 \<and> u = n"
    by (rule table_at_new [OF vm_invD(2) [OF inv] t i _ absent ws _ r], erule (3) same, erule z)
  then show ?thesis using q by blast
qed

lemma get_or_create_keeps:
  assumes inv: "vm_inv s S" and t: "r0 \<in> roots s S" "table_at (mem s) r0 p0 t0"
    and i: "length p0 \<le> 2" "i0 < 512" and nh: "\<not> huge (entry (mem s) t0 i0)"
    and fl: "\<forall>k. bit flags k \<longrightarrow> k < 3" and g: "get_or_create_table t0 i0 flags s = Ok t' s'"
  shows "keeps s S s'"
proof (cases "present (entry (mem s) t0 i0)")
  case True
  let ?u = "set_entry t0 i0 (entry (mem s) t0 i0 OR 4) s"
  note fr = set_entry_frame [OF inv t i(2), where v = "entry (mem s) t0 i0 OR 4"]
  have st: "walk_step (mem ?u) t j = walk_step (mem s) t j" if "r \<in> roots s S" "table_at (mem s) r p t" "j < 512" for r p t j
    using fr(5) [OF vm_invD(5) [OF inv that(1,2)] that(3)] by (simp add: walk_step_def user_bit Let_def)
  have tab: "table_at (mem ?u) r p t \<longleftrightarrow> table_at (mem s) r p t" if "r \<in> roots s S" for r p t
    using st that by (intro table_at_cong) blast
  have "roots ?u S = roots s S" using fr(4) by (auto simp: roots_def)
  then have "quiet ?u S a" if "quiet s S a" for a
    using fr(2) tab by (intro quietI [OF that mem_only_fields(4) [OF fr(1)]]) auto
  then have "keeps s S ?u" using set_entry_out [OF inv t i(2)] by (simp add: keeps_def)
  moreover have "s' = ?u \<or> s' = s" using g True by (auto simp: get_or_create_table_def Let_def split: if_splits)
  ultimately show ?thesis by auto
next
  case False
  show ?thesis
  proof (cases rule: alloc_page_table_cases [OF vm_invD(1) [OF inv]])
    case 1
    then show ?thesis using g False by (simp add: get_or_create_table_def)
  next
    case (2 n s1)
    note a = alloc_step [OF inv 2(4,5,2,3,8)] and k = alloc_keeps [OF inv 2(4,5,2,3,8)]
    have inv1: "vm_inv s1 S" and t1: "r0 \<in> roots s1 S" "table_at (mem s1) r0 p0 t0"
      using a(1) t vm_step_roots [OF a(1)] by (auto simp: vm_step_def)
    have "entry (mem s1) t0 i0 = entry (mem s) t0 i0"
      using kframe_disjoint [OF inv vm_invD(3) [OF inv t]] 2(2)
      by (intro entry_cong vm_invD(5) [OF inv t] i(2) 2(8)) blast+
    then have ab: "\<not> present (entry (mem s1) t0 i0)" using False by simp
    have n40: "n < 2 ^ 40" using 2(2) inv by (auto simp: vm_inv_def free_set_def)
    let ?e = "page_addr n OR flags OR 1"
    note pt = pte_addr_table [OF n40 fl [rule_format]]
    have lt: "table_at (mem s1) r q u \<or> u = page_addr n"
      if "r \<in> roots s1 S" "table_at (mem (set_entry t0 i0 ?e s1)) r q u" for r q u
      by (rule link_tables [OF inv1 t1 i ab 2(6) a(2) 2(7) pt(1,3,4) that])
    note fr = set_entry_frame [OF inv1 t1 i(2), where v = ?e]
    have s': "s' = set_entry t0 i0 ?e s1" using g False 2(1) by (auto simp: get_or_create_table_def)
    have "quiet s' S x \<and> mem s' x = mem s x" if q: "quiet s S x" for x
    proof -
      have q1: "quiet s1 S x" "mem s1 x = mem s x" using keepsD [OF k q] by auto
      have "x \<notin> region (page_addr n) 4096" using q 2(2) by (auto simp: quiet_def frame_region_def)
      moreover have "roots s' S = roots s1 S" unfolding s' using fr(4) by (auto simp: roots_def)
      ultimately have "quiet s' S x" unfolding s' using fr(2)
        by (intro quietI [OF q1(1) mem_only_fields(4) [OF fr(1)]]) (auto dest: lt)
      then show ?thesis using set_entry_out [OF inv1 t1 i(2) q1(1)] q1(2) by (simp add: s')
    qed
    then show ?thesis by (simp add: keeps_def)
  qed
qed

lemma get_or_create_ok:
  assumes inv: "vm_inv s S" and t: "r0 \<in> roots s S" "table_at (mem s) r0 p0 t0"
    and i: "length p0 \<le> 2" "i0 < 512" and nh: "\<not> huge (entry (mem s) t0 i0)"
    and fl: "\<forall>k. bit flags k \<longrightarrow> k < 3" and g: "get_or_create_table t0 i0 flags s = Ok t' s'"
  shows "vm_step s S s'" and "table_at (mem s') r0 (p0 @ [i0]) t'" and "keeps s S s'"
    and "vm_inv s' S" and "r0 \<in> roots s' S"
proof -
  show st: "vm_step s S s'" "table_at (mem s') r0 (p0 @ [i0]) t'"
    by (cases rule: get_or_create_table_cases [OF inv t i nh fl]; use g in auto)+
  show "keeps s S s'" by (rule get_or_create_keeps [OF inv t i nh fl g])
  show "vm_inv s' S" "r0 \<in> roots s' S" using st(1) t(1) vm_step_roots [OF st(1)] by (auto simp: vm_step_def)
qed

lemma vm_step_user_path:
  assumes "vm_step s S s'" and "r \<in> roots s S" and "user_path (mem s) r v"
  shows "user_path (mem s') r v"
proof -
  obtain pdpt pd where p: "table_at (mem s) r [pml4_i v] pdpt" "table_at (mem s) r [pml4_i v, pdpt_i v] pd"
    "user_entry (mem s) r (pml4_i v)" "user_entry (mem s) pdpt (pdpt_i v)" "user_entry (mem s) pd (pd_i v)"
    using assms(3) by (auto simp: user_path_def)
  then show ?thesis unfolding user_path_def
    using vm_step_table [OF assms(1,2)] vm_step_user [OF assms(1,2)] vm_step_user [OF assms(1,2), of "[]" r]
    by (intro exI [of _ pdpt] exI [of _ pd]) simp
qed

lemma leaf_keeps:
  assumes inv: "vm_inv s S" and t: "r0 \<in> roots s S" "table_at (mem s) r0 p0 t0"
    and p0: "length p0 = 3" and i0: "i0 < 512"
  shows "keeps s S (set_entry t0 i0 e s)"
proof -
  note fr = set_entry_frame [OF inv t i0, where v = e] and ls = leaf_step [OF inv t p0 i0, where e = e]
  have "roots (set_entry t0 i0 e s) S = roots s S" using fr(4) by (auto simp: roots_def)
  then have "quiet (set_entry t0 i0 e s) S a" if "quiet s S a" for a
    using fr(2) ls(4) by (intro quietI [OF that mem_only_fields(4) [OF fr(1)]]) auto
  then show ?thesis using set_entry_out [OF inv t i0] by (simp add: keeps_def)
qed

lemma vmm_map_keeps:
  assumes inv: "vm_inv s S" and as: "as \<in> S" "as \<noteq> 0"
    and al: "virt AND 0xFFF = 0" "phys AND 0xFFF = 0" and ok: "vmm_map as virt phys flags s = Ok () s'"
  shows "keeps s S s'" and "\<exists>pt. table_at (mem s') (pml4_of s as) (table_path virt) pt"
    and "r \<in> roots s S \<Longrightarrow> user_path (mem s) r v \<Longrightarrow> user_path (mem s') r v"
proof -
  let ?r = "pml4_of s as"
  have r: "?r \<in> roots s S" using as(1) by (simp add: roots_def)
  have fl: "\<forall>k. bit (table_flags flags) k \<longrightarrow> k < 3" using table_flags_bits(1) by blast
  obtain pdpt s1 pd s2 where g1: "get_or_create_table ?r (pml4_i virt) (table_flags flags) s = Ok pdpt s1"
    and g2: "get_or_create_table pdpt (pdpt_i virt) (table_flags flags) s1 = Ok pd s2"
    and m: "map_in_pd virt phys flags pd s2 = Ok () s'"
    using ok unfolding vmm_map_eq [OF as(2) al] by (auto simp: kbind_Ok_iff)
  obtain pt s3 where h: "\<not> huge (entry (mem s2) pd (pd_i virt))"
    and g3: "get_or_create_table pd (pd_i virt) (table_flags flags) s2 = Ok pt s3"
    and s': "s' = set_entry pt (pt_i virt) (page_base phys OR flags OR VMM_FLAG_PRESENT) s3"
    using m unfolding map_in_pd_def by (auto simp: kbind_Ok_iff kassert_Ok_iff)
  have t0: "table_at (mem s) ?r [] ?r" by simp
  have l: "length [] \<le> (2 :: nat)" "length [pml4_i virt] \<le> 2" "length [pml4_i virt, pdpt_i virt] \<le> 2" by simp_all
  have h0: "\<not> huge (entry (mem s) ?r (pml4_i virt))" using upper_not_huge [OF inv r t0] by simp
  note k1 = get_or_create_ok [OF inv r t0 l(1) index_less(1) h0 fl g1]
  have t1: "table_at (mem s1) ?r [pml4_i virt] pdpt" using k1(2) by simp
  have h1: "\<not> huge (entry (mem s1) pdpt (pdpt_i virt))" using upper_not_huge [OF k1(4,5) t1] by simp
  note k2 = get_or_create_ok [OF k1(4,5) t1 l(2) index_less(2) h1 fl g2]
  have t2: "table_at (mem s2) ?r [pml4_i virt, pdpt_i virt] pd" using k2(2) by simp
  note k3 = get_or_create_ok [OF k2(4,5) t2 l(3) index_less(3) h fl g3]
  have t3: "table_at (mem s3) ?r (table_path virt) pt" using k3(2) by (simp add: table_path_def)
  have l3: "length (table_path virt) = 3" by simp
  note st = vm_step_trans [OF vm_step_trans [OF k1(1) k2(1)] k3(1)]
  show "keeps s S s'" unfolding s'
    using k1(3) k2(3) k3(3) leaf_keeps [OF k3(4,5) t3 l3 index_less(4)] by (blast intro: keeps_trans)
  show "\<exists>pt. table_at (mem s') ?r (table_path virt) pt"
    unfolding s' leaf_step(4) [OF k3(4,5) t3 l3 index_less(4) k3(5)] using t3 by blast
  show "user_path (mem s') r v" if "r \<in> roots s S" "user_path (mem s) r v"
    unfolding s' using that vm_step_roots [OF st] vm_step_user_path [OF st that]
    by (intro leaf_step_user [OF k3(4,5) t3 l3 index_less(4)]) auto
qed

section \<open>Writing data\<close>

lemma quiet_write:
  fixes s :: "'a vmm_scheme"
  assumes inv: "vm_inv s S" and all: "\<forall>x. \<not> quiet s S x \<longrightarrow> m x = mem s x"
  shows "vm_inv (s\<lparr>mem := m\<rparr>) S" and "free_set (s\<lparr>mem := m\<rparr>) = free_set s"
    and "as \<in> S \<Longrightarrow> pml4_of (s\<lparr>mem := m\<rparr>) as = pml4_of s as"
    and "r \<in> roots s S \<Longrightarrow> table_at m r p t \<longleftrightarrow> table_at (mem s) r p t"
    and "r \<in> roots s S \<Longrightarrow> translate m r v = translate (mem s) r v"
    and "quiet (s\<lparr>mem := m\<rparr>) S = quiet s S"
    and "r \<in> roots s S \<Longrightarrow> user_path m r v \<longleftrightarrow> user_path (mem s) r v"
proof -
  have out: "m x = mem s x" if "\<not> quiet s S x" for x using all that by blast
  have en: "entry m t j = entry (mem s) t j" if "r \<in> roots s S" "table_at (mem s) r p t" "j < 512" for r p t j
    using that by (intro entry_cong vm_invD(5) [OF inv that(1,2)] out) (auto simp: quiet_def)
  show tab: "table_at m r p t \<longleftrightarrow> table_at (mem s) r p t" if "r \<in> roots s S" for r p t
    by (rule table_at_cong) (simp add: walk_step_def en [OF that])
  have geom: "bitmap_geom s" using vm_invD(1) [OF inv] by (rule pmm_inv_geom)
  have bm: "m x = mem s x" if "x \<in> bitmap_region s" for x using that by (intro out) (simp add: quiet_def)
  show fs: "free_set (s\<lparr>mem := m\<rparr>) = free_set s" by (rule pmm_mem_update(1) [OF geom bm])
  have pi: "pmm_inv (s\<lparr>mem := m\<rparr>)" using pmm_mem_update(2) [OF geom bm] vm_invD(1) [OF inv] by simp
  show rt: "pml4_of (s\<lparr>mem := m\<rparr>) as = pml4_of s as" if "as \<in> S" for as
    using that unfolding pml4_of_def by (auto intro!: load64_cong out simp: quiet_def)
  have kf: "kframe (s\<lparr>mem := m\<rparr>) = kframe s" by (simp add: kframe_def fs bitmap_region_def fun_eq_iff)
  show "vm_inv (s\<lparr>mem := m\<rparr>) S"
  proof (rule vm_inv_rebuild [OF inv _ pi])
    fix r p t assume r: "r \<in> roots s S" and t: "table_at (mem (s\<lparr>mem := m\<rparr>)) r p t"
    then have t': "table_at (mem s) r p t" using tab by simp
    show "kframe (s\<lparr>mem := m\<rparr>) t \<and> table_ok (mem (s\<lparr>mem := m\<rparr>)) p t"
      using vm_invD(3,4) [OF inv r t'] en [OF r t'] by (simp add: kf table_ok_def)
  qed (use fs rt tab in auto)
  show "translate m r v = translate (mem s) r v" if "r \<in> roots s S"
    by (rule translate_cong) (auto intro!: leaf_cong en [OF that] simp: tab [OF that])
  have rs: "roots (s\<lparr>mem := m\<rparr>) S = roots s S" using rt by (auto simp: roots_def)
  show "quiet (s\<lparr>mem := m\<rparr>) S = quiet s S"
    unfolding quiet_def fun_eq_iff rs fs using tab by (simp add: bitmap_region_def)
  show "user_path m r v \<longleftrightarrow> user_path (mem s) r v" if r: "r \<in> roots s S"
  proof -
    have "user_entry m r (pml4_i v) = user_entry (mem s) r (pml4_i v)"
      using en [OF r, of "[]" r] by (simp add: user_entry_def)
    moreover have "user_entry m t j = user_entry (mem s) t j" if "table_at (mem s) r p t" "j < 512" for p t j
      using en [OF r that] by (simp add: user_entry_def)
    ultimately show ?thesis unfolding user_path_def tab [OF r] by (metis index_less)
  qed
qed

section \<open>Fresh pages of an address space\<close>

lemma page_offset_bits: "(v AND 0xFFF) = v - page_base v" for v :: u64
proof -
  have "page_base v + (v AND 0xFFF) = page_base v OR (v AND 0xFFF)"
    by (rule disjunctive_add) (auto simp: bit_page_base bit_page_offset)
  also have "\<dots> = v" by (rule bit_word_eqI) (auto simp: bit_or_iff bit_page_base bit_page_offset)
  finally show ?thesis by (simp add: algebra_simps)
qed

lemma unat_page_base: "unat (page_base v) = 4096 * (unat v div 4096)"
proof -
  have "(0xFFF :: u64) = mask 12" by (simp add: mask_eq_exp_minus_1)
  then have "page_base v = v AND NOT (mask 12)" by (simp only: page_base_def)
  then show ?thesis using and_not_mask_dvd [of v 12] by (simp add: minus_mod_eq_mult_div)
qed

lemma index_page_base [simp]:
  "pml4_i (page_base v) = pml4_i v" "pdpt_i (page_base v) = pdpt_i v" "pd_i (page_base v) = pd_i v"
  "pt_i (page_base v) = pt_i v"
  unfolding pml4_i_def pdpt_i_def pd_i_def pt_i_def
  by (rule bit_word_eqI, simp only: bit_and_iff bit_drop_bit_eq bit_page_base o_def, linarith?)+

lemma page_base_offset: "page_base v AND 0xFFF = 0"
  by (rule bit_word_eqI) (simp only: bit_page_offset bit_page_base bit_0_eq, auto)

lemma table_path_page_base: "table_path (page_base v) = table_path v"
  by (simp add: table_path_def)

text \<open>Below 2 ^ 48 the four indices determine the page.\<close>

lemma page_index_bit: "bit (drop_bit n v AND 0x1FF) k \<longleftrightarrow> k < 9 \<and> bit v (n + k)" for v :: u64
proof -
  have e: "(0x1FF :: u64) = mask 9" by (simp add: mask_eq_exp_minus_1)
  show ?thesis unfolding e by (auto simp: bit_and_iff bit_drop_bit_eq bit_mask_iff)
qed

lemma same_page_bits:
  assumes "same_page v w" and "12 \<le> k" and "k < 48"
  shows "bit v k = bit w k"
proof -
  have i: "drop_bit n v AND 0x1FF = drop_bit n w AND 0x1FF" if "n \<in> {12, 21, 30, 39}" for n
    using assms(1) that by (auto simp: same_page_def table_path_def pml4_i_def pdpt_i_def pd_i_def pt_i_def)
  have b: "bit v (n + j) = bit w (n + j)" if "n \<in> {12, 21, 30, 39}" "j < 9" for n j
    using page_index_bit [of n v j] page_index_bit [of n w j] i [OF that(1)] that(2) by simp
  consider "k < 21" | "21 \<le> k" "k < 30" | "30 \<le> k" "k < 39" | "39 \<le> k" by linarith
  then show ?thesis
    using b [of 12 "k - 12"] b [of 21 "k - 21"] b [of 30 "k - 30"] b [of 39 "k - 39"] assms(2,3) by cases simp_all
qed

lemma low_bit: "v < 2 ^ 48 \<Longrightarrow> bit v k \<Longrightarrow> k < 48" for v :: u64
proof -
  assume v: "v < 2 ^ 48" and b: "bit v k"
  have "take_bit 48 v = v" using v by (simp add: take_bit_eq_mod word_unat_eq_iff unat_mod word_less_nat_alt)
  then show "k < 48" using b by (metis bit_take_bit_iff)
qed

lemma same_page_low:
  assumes "v < 2 ^ 48" and "w < 2 ^ 48"
  shows "same_page v w \<longleftrightarrow> page_base v = page_base w"
proof
  assume s: "same_page v w"
  show "page_base v = page_base w"
    by (rule bit_word_eqI) (use same_page_bits [OF s] low_bit [OF assms(1)] low_bit [OF assms(2)] in
      \<open>auto simp: bit_page_base\<close>)
next
  assume "page_base v = page_base w"
  then show "same_page v w"
    unfolding same_page_def using table_path_page_base [of v] table_path_page_base [of w] index_page_base(4) [of v] index_page_base(4) [of w] by metis
qed

text \<open>
  The state \<open>t\<close> reached from \<open>s\<close> by giving the space \<open>as\<close> fresh pages for the addresses of \<open>P\<close>, with
  the bytes \<open>F\<close>: the addresses translate, one to one, to quiet memory that was not in use, everything
  else translates as before, in every address space, and data is as before.
\<close>

definition page_view ::
  "'a vmm_scheme \<Rightarrow> u64 set \<Rightarrow> u64 \<Rightarrow> u64 set \<Rightarrow> (u64 \<Rightarrow> u8) \<Rightarrow> 'a vmm_scheme \<Rightarrow> bool" where
  "page_view s S as P F t \<longleftrightarrow> vm_inv t S \<and> mem_only s t \<and> (\<forall>a \<in> S. pml4_of t a = pml4_of s a) \<and> keeps s S t \<and>
     (\<forall>w \<in> P. w < 2 ^ 48 \<and> user_path (mem t) (pml4_of s as) w \<and>
        (\<exists>pt. table_at (mem t) (pml4_of s as) (table_path w) pt) \<and>
        (\<exists>x. translate (mem t) (pml4_of s as) w = Some x \<and> x \<noteq> 0 \<and> quiet t S x \<and> \<not> quiet s S x \<and> mem t x = F w)) \<and>
     (\<forall>v \<in> P. \<forall>w \<in> P. translate (mem t) (pml4_of s as) v = translate (mem t) (pml4_of s as) w \<longrightarrow> v = w) \<and>
     (\<forall>a \<in> S. \<forall>w. (\<forall>v \<in> P. \<not> same_page w v) \<longrightarrow> translate (mem t) (pml4_of s a) w = translate (mem s) (pml4_of s a) w)"

lemma page_view_empty: "vm_inv s S \<Longrightarrow> page_view s S as {} F s"
  by (simp add: page_view_def)

lemma page_view_roots: "page_view s S as P F t \<Longrightarrow> roots t S = roots s S"
  by (auto simp: page_view_def roots_def)

lemma page_view_phys:
  assumes v: "page_view s S as P F t" and as: "as \<in> S" and w: "w \<in> P"
  shows "translate (mem t) (pml4_of s as) w = Some (vmm_virt_to_phys as w t)" and "vmm_virt_to_phys as w t \<noteq> 0"
    and "quiet t S (vmm_virt_to_phys as w t)" and "\<not> quiet s S (vmm_virt_to_phys as w t)"
    and "mem t (vmm_virt_to_phys as w t) = F w"
proof -
  obtain x pt where x: "translate (mem t) (pml4_of s as) w = Some x" "x \<noteq> 0" "quiet t S x" "\<not> quiet s S x" "mem t x = F w"
    and pt: "table_at (mem t) (pml4_of s as) (table_path w) pt"
    using v w unfolding page_view_def by blast
  have inv: "vm_inv t S" and p: "pml4_of t as = pml4_of s as" using v as by (auto simp: page_view_def)
  have "table_at (mem t) (pml4_of s as) ([pml4_i w, pdpt_i w] @ [pd_i w]) pt" using pt by (simp add: table_path_def)
  then have "small_page (mem t) (pml4_of t as) w"
    unfolding table_at_snoc p small_page_def by (auto simp: table_at_def walk_step_def Let_def split: if_splits option.splits)
  then have "vmm_virt_to_phys as w t = x" using vmm_virt_to_phys_translate [OF inv as] x(1) p by simp
  then show "translate (mem t) (pml4_of s as) w = Some (vmm_virt_to_phys as w t)" "vmm_virt_to_phys as w t \<noteq> 0"
    "quiet t S (vmm_virt_to_phys as w t)" "\<not> quiet s S (vmm_virt_to_phys as w t)" "mem t (vmm_virt_to_phys as w t) = F w"
    using x by auto
qed

lemma vmm_virt_to_phys_none:
  assumes inv: "vm_inv s S" and as: "as \<in> S" and t: "translate (mem s) (pml4_of s as) v = None"
  shows "vmm_virt_to_phys as v s = 0"
proof -
  have r: "pml4_of s as \<in> roots s S" using as by (simp add: roots_def)
  have "small_page (mem s) (pml4_of s as) v" unfolding small_page_def
  proof (intro allI impI notI)
    fix pd assume w: "walk (mem s) (pml4_of s as) [pml4_i v, pdpt_i v] = Some pd" and h: "huge (entry (mem s) pd (pd_i v))"
    have pd: "table_at (mem s) (pml4_of s as) [pml4_i v, pdpt_i v] pd" using w by (simp add: table_at_def)
    then have "present (entry (mem s) pd (pd_i v))" using vm_invD(4) [OF inv r pd] h by (simp add: table_ok_def Let_def)
    then show False using translate_huge [OF pd _ h] t by simp
  qed
  then show ?thesis using vmm_virt_to_phys_translate [OF inv as] t by simp
qed

lemma page_view_write:
  assumes v: "page_view s S as P F t" and as: "as \<in> S" and w: "w \<in> P"
  shows "page_view s S as P (F(w := b)) (t\<lparr>mem := (mem t)(vmm_virt_to_phys as w t := b)\<rparr>)"
proof -
  let ?x = "vmm_virt_to_phys as w t" and ?m = "(mem t)(vmm_virt_to_phys as w t := b)" and ?r = "pml4_of s as"
  note ph = page_view_phys [OF v as w]
  have inv: "vm_inv t S" using v by (simp add: page_view_def)
  have rs: "roots t S = roots s S" by (rule page_view_roots [OF v])
  have out: "\<forall>y. \<not> quiet t S y \<longrightarrow> ?m y = mem t y" using ph(3) by auto
  note q = quiet_write [where m = ?m, OF inv out]
  have q6: "quiet (t\<lparr>mem := ?m\<rparr>) S = quiet t S" by (rule quiet_write(6) [OF inv out])
  have r: "pml4_of s a \<in> roots t S" if "a \<in> S" for a using that rs by (simp add: roots_def)
  have k: "keeps s S (t\<lparr>mem := ?m\<rparr>)"
    using v ph(4) by (auto simp: page_view_def keeps_def q6)
  have "\<exists>x. translate ?m ?r u = Some x \<and> x \<noteq> 0 \<and> quiet t S x \<and> \<not> quiet s S x \<and> ?m x = (F(w := b)) u" if u: "u \<in> P" for u
  proof -
    have "u = w" if "vmm_virt_to_phys as u t = ?x"
      using v u w ph(1) page_view_phys(1) [OF v as u] that unfolding page_view_def by metis
    then show ?thesis using page_view_phys [OF v as u] q(5) [OF r [OF as]] by auto
  qed
  moreover have "table_at ?m ?r (table_path u) = table_at (mem t) ?r (table_path u)" for u
    using q(4) [OF r [OF as]] by (simp add: fun_eq_iff)
  ultimately show ?thesis
    using v k q(1,3) q(5,7) [OF r] as mem_only_trans [of s t "t\<lparr>mem := ?m\<rparr>"]
    unfolding page_view_def q6 by simp
qed

section \<open>One more fresh page\<close>

lemma zero_page_apply:
  assumes "aligned page"
  shows "zero_page page m x = (if x \<in> region page 4096 then 0 else m x)"
proof -
  let ?I = "\<lambda>k m'. \<forall>x. m' x = (if x \<in> region page (unat k) then 0 else m x)"
  have "?I (4096 :: u64) (zero_page page m)" unfolding zero_page_def
  proof (rule for_range_invariant [where I = ?I])
    fix k :: u64 and m' assume k: "k < 4096" and I: "?I k m'"
    have "unat (x - page) = unat k \<longleftrightarrow> x = page + k" for x
      unfolding word_unat_eq_iff [symmetric] by (auto simp: algebra_simps)
    then have "region page (unat (k + 1)) = insert (page + k) (region page (unat k))"
      unfolding unat_Suc_less [OF k] region_def by (auto simp: less_Suc_eq)
    then show "?I (k + 1) (m'(page + k := 0))" using I by auto
  qed (auto simp: region_def)
  then show ?thesis by simp
qed

lemma page_addr_offset:
  assumes "n < 2 ^ 52"
  shows "page_addr n OR (w AND 0xFFF) = page_addr n + (w AND 0xFFF)"
    and "page_addr n OR (w AND 0xFFF) \<in> region (page_addr n) 4096"
proof -
  show e: "page_addr n OR (w AND 0xFFF) = page_addr n + (w AND 0xFFF)"
    by (rule disjunctive_add [symmetric]) (auto simp: bit_page_addr bit_page_offset)
  have "(w AND 0xFFF) = take_bit 12 w" by (simp add: take_bit_eq_mask mask_eq_exp_minus_1)
  then have "unat (w AND 0xFFF) < 4096" by (simp add: take_bit_eq_mod unat_mod)
  then show "page_addr n OR (w AND 0xFFF) \<in> region (page_addr n) 4096"
    unfolding e region_def by simp
qed

lemma alloc_data_page:
  fixes t :: "'a vmm_scheme"
  assumes inv: "vm_inv t S" and fr: "free_set t \<noteq> {}"
  obtains n t1 where "pmm_alloc_page t = (page_addr n, t1)" "n \<in> free_set t" "free_set t1 = free_set t - {n}"
    "0 < n" "n < 2 ^ 40" "vm_step t S t1" "keeps t S t1" "\<And>x. x \<in> region (page_addr n) 4096 \<Longrightarrow> quiet t1 S x \<and> \<not> quiet t S x"
proof -
  have pi: "pmm_inv t" by (rule vm_invD(1) [OF inv])
  obtain n t1 where n: "pmm_alloc_page t = (page_addr n, t1)" "n \<in> free_set t"
    "free_set t1 = free_set t - {n}" "pmm_inv t1"
    using pmm_frames.alloc_some [OF pi fr] by blast
  have f1: "mem_only t t1" "pmm_frame t t1"
    using mem_only_pmm_alloc_page [of t] pmm_alloc_page_frame [OF pmm_inv_geom [OF pi]] n(1) by simp_all
  have nb: "0 < n" "frame_region n \<inter> bitmap_region t = {}"
    using pmm_frames.avail_frame [OF pi n(2)] by (auto simp: freeable_def)
  have n40: "n < 2 ^ 40" using n(2) inv by (auto simp: vm_inv_def free_set_def)
  have out: "mem t1 x = mem t x" if "x \<notin> bitmap_region t" "x \<notin> frame_region n" for x
    using that f1(2) by (simp add: pmm_frame_def)
  note st = alloc_step [OF inv n(4) f1(1) n(2,3) out]
  have inv1: "vm_inv t1 S" using st(1) by (simp add: vm_step_def)
  have kf: "kframe t1 (page_addr n)"
    unfolding kframe_def using n nb mem_only_fields [OF f1(1)] by (intro exI [of _ n]) (auto simp: free_set_def)
  have "quiet t1 S x \<and> \<not> quiet t S x" if x: "x \<in> region (page_addr n) 4096" for x
  proof -
    have "region t' 4096 \<inter> region (page_addr n) 4096 = {}" if "r \<in> roots t1 S" "table_at (mem t1) r p t'" for r p t'
      using that st(2) vm_invD(5) [OF inv1 that] kframe_aligned [OF inv1 kf]
      by (intro aligned_disjoint) (auto simp: fresh_table_def)
    then have "quiet t1 S x"
      using x kframe_disjoint [OF inv1 kf] st(2) unfolding quiet_def fresh_table_def by blast
    then show ?thesis using x n(2) by (auto simp: quiet_def frame_region_def)
  qed
  then show thesis
    using that [OF n(1-3) nb(1) n40 st(1) alloc_keeps [OF inv n(4) f1(1) n(2,3) out]] by blast
qed

text \<open>What one fresh page adds, whatever was mapped before.\<close>

definition adds_page :: "'a vmm_scheme \<Rightarrow> u64 set \<Rightarrow> u64 \<Rightarrow> u64 \<Rightarrow> nat \<Rightarrow> 'a vmm_scheme \<Rightarrow> bool" where
  "adds_page t S as va n t' \<longleftrightarrow> vm_inv t' S \<and> mem_only t t' \<and> keeps t S t' \<and> (\<forall>a \<in> S. pml4_of t' a = pml4_of t a) \<and>
     0 < n \<and> n < 2 ^ 40 \<and>
     (\<forall>x \<in> region (page_addr n) 4096. quiet t' S x \<and> \<not> quiet t S x \<and> mem t' x = 0) \<and>
     (\<forall>w. same_page w va \<longrightarrow> translate (mem t') (pml4_of t as) w = Some (page_addr n OR (w AND 0xFFF))) \<and>
     (\<forall>r \<in> roots t S. \<forall>w. \<not> same_page w va \<longrightarrow> translate (mem t') r w = translate (mem t) r w) \<and>
     (\<forall>r \<in> roots t S. \<forall>p u. table_at (mem t) r p u \<longrightarrow> table_at (mem t') r p u) \<and>
     (\<exists>pt. table_at (mem t') (pml4_of t as) (table_path va) pt) \<and> user_path (mem t') (pml4_of t as) va \<and>
     (\<forall>r \<in> roots t S. \<forall>v. user_path (mem t) r v \<longrightarrow> user_path (mem t') r v)"

lemma map_fresh_page_ok:
  fixes t :: "'a proc_scheme"
  assumes inv: "vm_inv t S" and as: "as \<in> S" "as \<noteq> 0" and va: "va AND 0xFFF = 0"
    and fl: "flags AND 0x000FFFFFFFFFF000 = 0" "user flags" and tr: "translate (mem t) (pml4_of t as) va = None"
    and card: "4 \<le> card (free_set t)"
  obtains n t' where "map_fresh_page as va flags t = Ok None t'" "adds_page t S as va n t'"
    "card (free_set t) \<le> card (free_set t') + 4"
proof -
  have "free_set t \<noteq> {}" using card by auto
  from alloc_data_page [OF inv this] obtain n t1 where n: "pmm_alloc_page t = (page_addr n, t1)" "n \<in> free_set t"
    "free_set t1 = free_set t - {n}" "0 < n" "n < 2 ^ 40" and st: "vm_step t S t1" and k1: "keeps t S t1"
    and q1: "\<And>x. x \<in> region (page_addr n) 4096 \<Longrightarrow> quiet t1 S x \<and> \<not> quiet t S x" by blast
  define t2 where "t2 = t1\<lparr>mem := zero_page (page_addr n) (mem t1)\<rparr>"
  have inv1: "vm_inv t1 S" and rs1: "roots t1 S = roots t S" using st vm_step_roots [OF st] by (auto simp: vm_step_def)
  have al: "aligned (page_addr n)" using n(5) by simp
  have "\<forall>x. \<not> quiet t1 S x \<longrightarrow> zero_page (page_addr n) (mem t1) x = mem t1 x"
    using q1 by (auto simp: zero_page_apply [OF al])
  note w = quiet_write [OF inv1 this, folded t2_def]
  have r: "pml4_of t as \<in> roots t S" using as by (simp add: roots_def)
  have p2: "pml4_of t2 a = pml4_of t a" if "a \<in> S" for a using w(3) [OF that] st that by (simp add: vm_step_def)
  have rs2: "roots t2 S = roots t S" using p2 by (auto simp: roots_def)
  have m2: "mem t2 = zero_page (page_addr n) (mem t1)" by (simp add: t2_def)
  have tr2: "translate (mem t2) r v = translate (mem t) r v" if "r \<in> roots t S" for r v
    using w(5) [of r v] that rs1 vm_step_translate [OF st that] by (simp add: m2)
  have k2: "keeps t S t2" unfolding keeps_def
    using k1 q1 w(6) by (auto simp: keeps_def m2 zero_page_apply [OF al])
  have nz: "page_addr n \<noteq> 0" using n(4,5) page_addr_inj [of n 0] by auto
  have pa: "page_addr n AND 0xFFF = 0"
    by (rule bit_word_eqI) (auto simp: bit_page_offset bit_page_addr)
  have p52: "page_addr n < 2 ^ 52" using n(5) by (simp add: word_less_nat_alt unat_page_addr)
  have card2: "card (free_set t) = card (free_set t2) + 1"
    using w(2) n(2,3) card by (simp add: card_Diff_singleton)
  obtain t' where ok: "vmm_map as va (page_addr n) flags t2 = Ok () t'"
    using tr card card2 tr2 [OF r] p2 [OF as(1)]
    by (cases rule: vmm_map_cases [OF w(1) as va pa, of flags]) auto
  note mo = vmm_map_ok [OF w(1) as va pa p52 fl(1) ok] and mk = vmm_map_keeps [OF w(1) as va pa ok]
  have mo1: "mem_only t t2" using st by (auto simp: vm_step_def t2_def intro: mem_only_trans)
  have q2: "quiet t2 S x \<and> mem t2 x = 0" if "x \<in> region (page_addr n) 4096" for x
    using q1 [OF that] w(6) that by (simp add: m2 zero_page_apply [OF al])
  have "quiet t' S x \<and> \<not> quiet t S x \<and> mem t' x = 0" if "x \<in> region (page_addr n) 4096" for x
    using q1 [OF that] q2 [OF that] keepsD [OF mk(1)] by simp
  moreover have "table_at (mem t') r p u" if "r \<in> roots t S" "table_at (mem t) r p u" for r p u
    using mo(9) [of r p u] w(4) [of r p u] vm_step_table [OF st that] that rs1 rs2 by (simp add: m2)
  moreover have "user_path (mem t') r v" if "r \<in> roots t S" "user_path (mem t) r v" for r v
    using mk(3) [of r v] w(7) [of r v] vm_step_user_path [OF st that] that rs1 rs2 by (simp add: m2)
  moreover have "translate (mem t') r w = translate (mem t) r w" if "r \<in> roots t S" "\<not> same_page w va" for r w
    using mo(7) [of r w] that tr2 rs2 by simp
  ultimately have "adds_page t S as va n t'"
    using mo(3,4,6) mo(8) [OF fl(2)] mk(2) n(4,5) p2 as(1) mem_only_trans [OF mo1 mo(2)] keeps_trans [OF k2 mk(1)]
    unfolding adds_page_def by simp
  moreover have "map_fresh_page as va flags t = Ok None t'" using n(1) nz ok by (simp add: map_fresh_page_def t2_def)
  ultimately show thesis using that mo(10) card2 by simp
qed

definition page_of :: "u64 \<Rightarrow> u64 set" where
  "page_of va = {w. w < 2 ^ 48 \<and> page_base w = va}"

lemma page_base_self: "va AND 0xFFF = 0 \<Longrightarrow> page_base va = va"
  using page_offset_bits [of va] by simp

lemma page_of_same:
  assumes "va AND 0xFFF = 0" and "va < 2 ^ 48" and "w < 2 ^ 48"
  shows "same_page w va \<longleftrightarrow> w \<in> page_of va"
  using same_page_low [OF assms(3,2)] page_base_self [OF assms(1)] assms(3) by (simp add: page_of_def)

lemma page_view_map:
  fixes s t :: "'a proc_scheme"
  assumes v: "page_view s S as P F t" and as: "as \<in> S" "as \<noteq> 0" and va: "va AND 0xFFF = 0" "va < 2 ^ 48"
    and fl: "flags AND 0x000FFFFFFFFFF000 = 0" "user flags" and tr: "translate (mem s) (pml4_of s as) va = None"
    and new: "P \<inter> page_of va = {}" and zero: "\<And>w. w \<notin> P \<Longrightarrow> F w = 0" and card: "4 \<le> card (free_set t)"
  obtains t' where "map_fresh_page as va flags t = Ok None t'" "page_view s S as (P \<union> page_of va) F t'"
    "card (free_set t) \<le> card (free_set t') + 4"
proof -
  have inv: "vm_inv t S" and rt: "\<And>a. a \<in> S \<Longrightarrow> pml4_of t a = pml4_of s a" and k: "keeps s S t" and mo: "mem_only s t"
    and low: "\<And>w. w \<in> P \<Longrightarrow> w < 2 ^ 48"
    and other: "\<And>a w. a \<in> S \<Longrightarrow> \<forall>v \<in> P. \<not> same_page w v \<Longrightarrow>
      translate (mem t) (pml4_of s a) w = translate (mem s) (pml4_of s a) w"
    and inj: "\<And>v w. v \<in> P \<Longrightarrow> w \<in> P \<Longrightarrow>
      translate (mem t) (pml4_of s as) v = translate (mem t) (pml4_of s as) w \<Longrightarrow> v = w"
    using v unfolding page_view_def by blast+
  have np: "\<not> same_page w va" "\<not> same_page va w" if "w \<in> P" for w
    using page_of_same [OF va low [OF that]] new that by (auto simp: same_page_def)
  have trt: "translate (mem t) (pml4_of t as) va = None" using other [OF as(1), of va] np tr rt as(1) by auto
  obtain n t' where f: "map_fresh_page as va flags t = Ok None t'" "adds_page t S as va n t'"
    "card (free_set t) \<le> card (free_set t') + 4"
    using map_fresh_page_ok [OF inv as va(1) fl trt card] .
  have g: "vm_inv t' S" "mem_only t t'" "keeps t S t'" "\<forall>a \<in> S. pml4_of t' a = pml4_of t a" "0 < n" "n < 2 ^ 40"
    and pg: "\<And>x. x \<in> region (page_addr n) 4096 \<Longrightarrow> quiet t' S x \<and> \<not> quiet t S x \<and> mem t' x = 0"
    and tn: "\<And>w. same_page w va \<Longrightarrow> translate (mem t') (pml4_of t as) w = Some (page_addr n OR (w AND 0xFFF))"
    and to: "\<And>r w. r \<in> roots t S \<Longrightarrow> \<not> same_page w va \<Longrightarrow> translate (mem t') r w = translate (mem t) r w"
    and tt: "\<And>r p u. r \<in> roots t S \<Longrightarrow> table_at (mem t) r p u \<Longrightarrow> table_at (mem t') r p u"
    and tp: "\<exists>pt. table_at (mem t') (pml4_of t as) (table_path va) pt" and up: "user_path (mem t') (pml4_of t as) va"
    and uk: "\<And>r v. r \<in> roots t S \<Longrightarrow> user_path (mem t) r v \<Longrightarrow> user_path (mem t') r v"
    using f(2) unfolding adds_page_def by blast+
  let ?r = "pml4_of s as"
  have r: "pml4_of s a \<in> roots t S" if "a \<in> S" for a using that page_view_roots [OF v] by (simp add: roots_def)
  have old: "translate (mem t') ?r w = translate (mem t) ?r w" if "w \<in> P" for w using to [OF r [OF as(1)] np(1) [OF that]] .
  have oldx: "w < 2 ^ 48 \<and> user_path (mem t') ?r w \<and> (\<exists>pt. table_at (mem t') ?r (table_path w) pt) \<and>
    (\<exists>x. translate (mem t') ?r w = Some x \<and> x \<noteq> 0 \<and> quiet t' S x \<and> \<not> quiet s S x \<and> mem t' x = F w)" if "w \<in> P" for w
    using v that tt [OF r [OF as(1)]] uk [OF r [OF as(1)]] keepsD [OF g(3)] unfolding old [OF that] page_view_def by metis
  have n52: "n < 2 ^ 52" using g(6) by simp
  note off = page_addr_offset [OF n52]
  have new_tr: "translate (mem t') ?r w = Some (page_addr n + (w AND 0xFFF))" if "w \<in> page_of va" for w
    using tn [of w] page_of_same [OF va, of w] that rt [OF as(1)] off(1) by (simp add: page_of_def)
  have newx: "w < 2 ^ 48 \<and> user_path (mem t') ?r w \<and> (\<exists>pt. table_at (mem t') ?r (table_path w) pt) \<and>
    (\<exists>x. translate (mem t') ?r w = Some x \<and> x \<noteq> 0 \<and> quiet t' S x \<and> \<not> quiet s S x \<and> mem t' x = F w)"
    if w: "w \<in> page_of va" for w
  proof -
    let ?x = "page_addr n + (w AND 0xFFF)"
    have sp: "same_page w va" and wl: "w < 2 ^ 48" using w page_of_same [OF va, of w] by (auto simp: page_of_def)
    have x: "?x \<in> region (page_addr n) 4096" using off by simp
    have "0 \<notin> region (page_addr n) 4096"
      using g(5,6) by (simp add: region_interval unat_page_addr)
    then have "?x \<noteq> 0" using x by metis
    moreover have "\<not> quiet s S ?x" using pg [OF x] keepsD [OF k] by blast
    moreover have "F w = 0" using w new by (intro zero) blast
    moreover have "user_path (mem t') ?r w" using up sp rt [OF as(1)] by (simp add: user_path_def same_page_def table_path_def)
    ultimately show ?thesis using new_tr [OF w] pg [OF x] tp sp wl rt [OF as(1)] by (auto simp: same_page_def)
  qed
  have nx: "\<not> quiet t S (page_addr n + (w AND 0xFFF))" for w using pg off(1,2) by metis
  have "v = w" if "v \<in> P \<union> page_of va" "w \<in> P \<union> page_of va" "translate (mem t') ?r v = translate (mem t') ?r w" for v w
  proof -
    have cross: False if "a \<in> P" "b \<in> page_of va" "translate (mem t') ?r a = translate (mem t') ?r b" for a b
      using page_view_phys(1,3) [OF v as(1) that(1)] that new_tr [OF that(2)] old [OF that(1)] nx by auto
    have "a = b" if "a \<in> page_of va" "b \<in> page_of va" "translate (mem t') ?r a = translate (mem t') ?r b" for a b
      using that new_tr page_offset_bits [of a] page_offset_bits [of b] by (simp add: page_of_def)
    then show ?thesis using that inj old cross by (metis Un_iff)
  qed
  moreover have "translate (mem t') (pml4_of s a) w = translate (mem s) (pml4_of s a) w"
    if "a \<in> S" "\<forall>v \<in> P \<union> page_of va. \<not> same_page w v" for a w
  proof -
    have "va \<in> page_of va" using va page_base_self by (simp add: page_of_def)
    then show ?thesis using to [OF r [OF that(1)], of w] other [OF that(1), of w] that(2) by simp
  qed
  ultimately have "page_view s S as (P \<union> page_of va) F t'"
    using oldx newx g(1,4) rt mem_only_trans [OF mo g(2)] keeps_trans [OF k g(3)] unfolding page_view_def
    by (intro conjI ballI allI impI) (blast | simp)+
  then show thesis using that f(1,3) by blast
qed

text \<open>The pages a loop maps, those already mapped for the same view left out.\<close>

definition page_closed :: "u64 set \<Rightarrow> bool" where
  "page_closed P \<longleftrightarrow> (\<forall>w \<in> P. page_of (page_base w) \<subseteq> P)"

lemma page_closed_Un: "page_closed P \<Longrightarrow> page_closed (P \<union> \<Union> (page_of ` V))"
  by (auto simp: page_closed_def page_of_def)

lemma load_pages:
  fixes s t :: "'a proc_scheme"
  assumes "page_view s S as P F t" and as: "as \<in> S" "as \<noteq> 0" and "page_closed P"
    and va: "\<And>va. va \<in> set vs \<Longrightarrow> va AND 0xFFF = 0 \<and> va < 2 ^ 48 \<and> translate (mem s) (pml4_of s as) va = None"
    and fl: "flags AND 0x000FFFFFFFFFF000 = 0" "user flags" and "\<And>w. w \<notin> P \<Longrightarrow> F w = 0"
    and "4 * length vs \<le> card (free_set t)"
  shows "\<exists>t'. for_list vs (\<lambda>va s. if vmm_virt_to_phys as va s \<noteq> 0 then Ok None s else map_fresh_page as va flags s) t =
      Ok None t' \<and> page_view s S as (P \<union> \<Union> (page_of ` set vs)) F t' \<and> card (free_set t) \<le> card (free_set t') + 4 * length vs"
  using assms(1,4,5,8,9)
proof (induction vs arbitrary: P t)
  case (Cons va vs)
  have a: "va AND 0xFFF = 0" "va < 2 ^ 48" "translate (mem s) (pml4_of s as) va = None" using Cons.prems(3) by auto
  have self: "va \<in> page_of va" "page_base va = va" using a page_base_self by (auto simp: page_of_def)
  show ?case
  proof (cases "va \<in> P")
    case True
    then have "page_of va \<subseteq> P" using Cons.prems(2) self(2) unfolding page_closed_def by metis
    then have "P \<union> \<Union> (page_of ` set (va # vs)) = P \<union> \<Union> (page_of ` set vs)" by auto
    then show ?thesis
      using Cons.IH [OF Cons.prems(1,2) _ Cons.prems(4)] Cons.prems(3,5) page_view_phys(2) [OF Cons.prems(1) as(1) True]
      by fastforce
  next
    case False
    have dis: "P \<inter> page_of va = {}" using False Cons.prems(2) self(1) by (force simp: page_closed_def page_of_def)
    have inv: "vm_inv t S" and rt: "pml4_of t as = pml4_of s as" using Cons.prems(1) as(1) by (auto simp: page_view_def)
    have "\<forall>v \<in> P. \<not> same_page va v"
    proof (intro ballI notI)
      fix v assume v: "v \<in> P" "same_page va v"
      then have "v < 2 ^ 48" "same_page v va" using Cons.prems(1) by (simp_all add: page_view_def same_page_def)
      then show False using page_of_same [OF a(1,2)] dis v(1) by blast
    qed
    then have "translate (mem t) (pml4_of t as) va = None"
      using Cons.prems(1) a(3) as(1) rt by (simp add: page_view_def)
    then have z: "vmm_virt_to_phys as va t = 0" by (rule vmm_virt_to_phys_none [OF inv as(1)])
    obtain u where u: "map_fresh_page as va flags t = Ok None u" "page_view s S as (P \<union> page_of va) F u"
      "card (free_set t) \<le> card (free_set u) + 4"
      using page_view_map [OF Cons.prems(1) as a(1,2) fl a(3) dis Cons.prems(4)] Cons.prems(5) by auto
    have cl: "page_closed (P \<union> page_of va)" using page_closed_Un [OF Cons.prems(2), of "{va}"] by simp
    have "\<exists>t'. for_list vs (\<lambda>va s. if vmm_virt_to_phys as va s \<noteq> 0 then Ok None s else map_fresh_page as va flags s) u =
      Ok None t' \<and> page_view s S as (P \<union> page_of va \<union> \<Union> (page_of ` set vs)) F t' \<and>
      card (free_set u) \<le> card (free_set t') + 4 * length vs"
      using Cons.prems(3,4,5) u(3) by (intro Cons.IH [OF u(2) cl]) auto
    then show ?thesis using u z by (auto simp: Un_assoc)
  qed
qed simp

end
