(* ===== verification/Syscall.thy ===== *)
theory Syscall
  imports Pages
begin

text \<open>
  The system calls, \<^verbatim>\<open>kernel/syscall.c\<close>: a trap frame in memory comes in, its \<^verbatim>\<open>rax\<close> selects
  the call, the result goes back to \<^verbatim>\<open>rax\<close>, and the value returned to the trap stub is the stack
  pointer to resume from. A user pointer is read through the page tables the processor uses; a read
  that they do not translate ends in the page-fault panic.
\<close>

unbundle bit_operations_syntax

abbreviation (input) USER_TOP :: u64 where "USER_TOP \<equiv> 0x0000800000000000"

definition ret_err :: "u64 \<Rightarrow> u64" where "ret_err errno_val = 0 - errno_val"

definition user_range_valid :: "u64 \<Rightarrow> u64 \<Rightarrow> u64 \<Rightarrow> 'a proc_scheme \<Rightarrow> bool" where
  "user_range_valid as start len s =
     (if as = 0 then False
      else if len = 0 then True
      else if start \<ge> USER_TOP then False
      else if start + len < start then False
      else if start + len > USER_TOP then False
      else let from = page_base start; to = page_base (start + len - 1)
           in list_all (\<lambda>va. vmm_virt_to_phys as va s \<noteq> 0) (page_steps from (to + 0x1000)))"

definition user_byte :: "u64 \<Rightarrow> 'a proc_scheme \<Rightarrow> (u8, 'a proc_scheme) outcome" where
  "user_byte va s = (case translate (mem s) (cr3 s) va of
     None \<Rightarrow> Panic ''page fault'' s | Some p \<Rightarrow> Ok (mem s p) s)"

definition write_bytes :: "u64 \<Rightarrow> u64 \<Rightarrow> 'a proc_scheme \<Rightarrow> (unit option, 'a proc_scheme) outcome" where
  "write_bytes user_ptr len s =
     for_dyn_out 0 (\<lambda>_. len) (\<lambda>i s.
       kbind (user_byte (user_ptr + i) s) (\<lambda>c s. Ok None (print [char_of (unat c), NUL] s))) s"

definition sys_write :: "u64 \<Rightarrow> 'a proc_scheme \<Rightarrow> (u64, 'a proc_scheme) outcome" where
  "sys_write frame s =
     (case task_current s of
        None \<Rightarrow> Ok (ret_err 1) s
      | Some t \<Rightarrow>
          if \<not> is_user t then Ok (ret_err 1) s
          else let user_ptr = frame_get (mem s) frame 13; len = frame_get (mem s) frame 12
               in if len > 4096 then Ok (ret_err 22) s
                  else if \<not> user_range_valid (address_space t) user_ptr len s then Ok (ret_err 14) s
                  else kbind (write_bytes user_ptr len s) (\<lambda>_ s. Ok len s))"

text \<open>\<^verbatim>\<open>(int)(v & 0xFFFFFFFF)\<close>.\<close>

definition int_of_u64 :: "u64 \<Rightarrow> int" where
  "int_of_u64 v = sint (ucast (v AND 0xFFFFFFFF) :: u32)"

definition sys_exit :: "u64 \<Rightarrow> 'a proc_scheme \<Rightarrow> (u64, 'a proc_scheme) outcome" where
  "sys_exit frame s =
     (let code = int_of_u64 (frame_get (mem s) frame 13);
          s1 = process_task_exited (task_current_pid s) code s;
          s2 = (case task_current s1 of
                  None \<Rightarrow> s1
                | Some t \<Rightarrow> set_current (\<lambda>t. t\<lparr>exit_code := code, state := TASK_ZOMBIE\<rparr>) s1)
      in Ok (ret_err 11) s2)"

definition sys_yield :: "'a proc_scheme \<Rightarrow> (u64, 'a proc_scheme) outcome" where
  "sys_yield s = Ok 0 s"

definition sys_spawn ::
  "u64 \<times> u64 \<Rightarrow> u64 \<times> u64 \<Rightarrow> u64 \<Rightarrow> 'a proc_scheme \<Rightarrow> (u64, 'a proc_scheme) outcome" where
  "sys_spawn hello burn frame s =
     kbind (process_spawn_builtin hello burn (int_of_u64 (frame_get (mem s) frame 13)) s) (\<lambda>q s.
       Ok (if q < 0 then ret_err 12 else u64_of_int q) s)"

definition sys_getpid :: "'a proc_scheme \<Rightarrow> (u64, 'a proc_scheme) outcome" where
  "sys_getpid s = (let q = task_current_pid s in Ok (if q < 0 then ret_err 3 else u64_of_int q) s)"

definition sys_call ::
  "u64 \<times> u64 \<Rightarrow> u64 \<times> u64 \<Rightarrow> u64 \<Rightarrow> 'a proc_scheme \<Rightarrow> (u64, 'a proc_scheme) outcome" where
  "sys_call hello burn frame s =
     (let rax = frame_get (mem s) frame 14
      in if rax = 0 then sys_write frame s
         else if rax = 1 then sys_exit frame s
         else if rax = 2 then sys_yield s
         else if rax = 3 then sys_spawn hello burn frame s
         else if rax = 4 then sys_getpid s
         else Ok (ret_err 38) s)"

definition syscall_dispatch ::
  "u64 \<times> u64 \<Rightarrow> u64 \<times> u64 \<Rightarrow> u64 \<Rightarrow> 'a proc_scheme \<Rightarrow> (u64, 'a proc_scheme) outcome" where
  "syscall_dispatch hello burn frame s =
     (if frame = 0 then Ok 0 s
      else kbind (sys_call hello burn frame s) (\<lambda>ret s.
           let s1 = s\<lparr>mem := frame_set frame 14 ret (mem s)\<rparr>
           in if frame_get (mem s1) frame 14 = ret_err 11 \<or> frame_get (mem s1) frame 14 = 0
              then let s2 = (case task_current s1 of
                         None \<Rightarrow> s1
                       | Some t \<Rightarrow> if state t \<noteq> TASK_WAITING \<and> state t \<noteq> TASK_ZOMBIE
                                   then set_current (\<lambda>t. t\<lparr>state := TASK_RUNNABLE\<rparr>) s1 else s1)
                   in task_schedule_from_interrupt frame s2
              else Ok 0 s1))"

section \<open>User ranges\<close>

text \<open>If the software walk finds the page of an address, it finds the address.\<close>

lemma virt_to_phys_page:
  assumes "vmm_virt_to_phys as (page_base v) s \<noteq> 0"
  shows "vmm_virt_to_phys as v s \<noteq> 0"
  using assms unfolding vmm_virt_to_phys_def Let_def index_page_base page_base_offset
  by (auto simp: or_eq_0_iff split: if_splits)

lemma page_steps_member:
  assumes "unat start + unat len \<le> 2 ^ 47" and "i < len"
  shows "page_base (start + i) \<in> set (page_steps (page_base start) (page_base (start + len - 1) + 0x1000))"
proof -
  define a l j where "a = unat start" and "l = unat len" and "j = unat i"
  have b: "a + l \<le> 2 ^ 47" "j < l" using assms by (simp_all add: a_def l_def j_def word_less_nat_alt)
  have si: "unat (start + i) = a + j" using b by (subst unat_add_lem [THEN iffD1]) (simp_all add: a_def j_def)
  have sl: "unat (start + len) = a + l" using b by (subst unat_add_lem [THEN iffD1]) (simp_all add: a_def l_def)
  then have "start + len \<noteq> 0" using b by auto
  then have sl1: "unat (start + len - 1) = a + l - 1" using sl by (simp add: unat_minus_one)
  define f t where "f = page_base start" and "t = page_base (start + len - 1) + 0x1000"
  have uf: "unat f = 4096 * (a div 4096)" by (simp add: f_def unat_page_base a_def)
  have tb: "4096 * ((a + l - 1) div 4096) < 2 ^ 47" using b by linarith
  have ut: "unat t = 4096 * ((a + l - 1) div 4096) + 4096"
    unfolding t_def using tb by (subst unat_add_lem [THEN iffD1]) (simp_all add: unat_page_base sl1)
  have le: "a div 4096 \<le> (a + j) div 4096" "(a + j) div 4096 \<le> (a + l - 1) div 4096"
    using b by (auto intro!: div_le_mono)
  define k where "k = (a + j) div 4096 - a div 4096"
  have lt: "f < t" unfolding word_less_nat_alt uf ut using le by linarith
  have cnt: "unat (t - f) div 4096 = (a + l - 1) div 4096 - a div 4096 + 1"
  proof -
    have "unat (t - f) = unat t - unat f" using lt by (intro unat_sub) simp
    also have "\<dots> = 4096 * ((a + l - 1) div 4096 - a div 4096 + 1)" unfolding uf ut using le by (simp add: algebra_simps)
    finally show ?thesis by simp
  qed
  have "k < unat (t - f) div 4096" unfolding cnt k_def using le by linarith
  moreover have "page_base (start + i) = f + of_nat k * 0x1000"
  proof -
    have kb: "4096 * k < 2 ^ 47" using b le unfolding k_def by linarith
    have "unat (of_nat k * 0x1000 :: u64) = k * 4096"
      using kb by (simp add: unat_word_ariths unat_of_nat mod_mult_left_eq)
    then have "unat (f + of_nat k * 0x1000) = 4096 * (a div 4096) + k * 4096"
      using uf kb b by (subst unat_add_lem [THEN iffD1]) simp_all
    also have "\<dots> = unat (page_base (start + i))" unfolding unat_page_base si k_def using le by (simp add: algebra_simps)
    finally show ?thesis by (simp only: word_unat_eq_iff)
  qed
  ultimately show ?thesis using lt by (auto simp: page_steps_def f_def [symmetric] t_def [symmetric])
qed

lemma user_range_validD:
  assumes "user_range_valid as start len s" and "i < len"
  shows "vmm_virt_to_phys as (start + i) s \<noteq> 0" and "unat (start + i) < 2 ^ 47"
proof -
  have ne: "len \<noteq> 0" using assms(2) by auto
  have c: "start < USER_TOP" "\<not> start + len < start" "\<not> start + len > USER_TOP"
    and all: "list_all (\<lambda>va. vmm_virt_to_phys as va s \<noteq> 0)
      (page_steps (page_base start) (page_base (start + len - 1) + 0x1000))"
    using assms(1) ne by (auto simp: user_range_valid_def Let_def split: if_splits)
  have "unat (start + len) = unat start + unat len"
    using c(2) by (metis not_less unat_plus_simple word_le_less_eq)
  then have l: "unat start + unat len \<le> 2 ^ 47" using c(3) by (simp add: word_less_nat_alt not_less)
  show "vmm_virt_to_phys as (start + i) s \<noteq> 0"
    using all page_steps_member [OF l assms(2)] virt_to_phys_page by (auto simp: list_all_iff)
  have "unat i < unat len" using assms(2) by (simp add: word_less_nat_alt)
  then show "unat (start + i) < 2 ^ 47"
    using l by (subst unat_add_lem [THEN iffD1]) simp_all
qed

lemma print_char_nul: "print [c, NUL] s = s\<lparr>console := console s @ filter (\<lambda>c. c \<noteq> NUL) [c]\<rparr>"
  by (simp add: print_def)

text \<open>What a user range holds, as the processor reads it.\<close>

definition user_char :: "'a proc_scheme \<Rightarrow> u64 \<Rightarrow> nat \<Rightarrow> char" where
  "user_char s ptr n = char_of (unat (mem s (the (translate (mem s) (cr3 s) (ptr + of_nat n)))))"

lemma write_bytes_from:
  assumes "\<forall>i < len. translate (mem s) (cr3 s) (ptr + i) \<noteq> None" and "i \<le> len"
  shows "for_dyn_out i (\<lambda>_. len) (\<lambda>i s.
       kbind (user_byte (ptr + i) s) (\<lambda>c s. Ok None (print [char_of (unat c), NUL] s))) (s\<lparr>console := cs\<rparr>)
     = (Ok None (s\<lparr>console := cs @ filter (\<lambda>c. c \<noteq> NUL) (map (user_char s ptr) [unat i..<unat len])\<rparr>)
        :: (unit option, 'a proc_scheme) outcome)"
  using assms(2)
proof (induction "unat len - unat i" arbitrary: i cs)
  case 0
  then have "i = len" by (simp add: word_le_nat_alt word_unat_eq_iff)
  then show ?case by (subst for_dyn_out.simps) simp
next
  case (Suc n)
  then have lt: "i < len" by (simp add: word_less_nat_alt)
  have u: "unat (i + 1) = Suc (unat i)" by (rule unat_Suc_less [OF lt])
  have le: "i + 1 \<le> len" using lt u by (simp add: word_le_nat_alt word_less_nat_alt)
  obtain p where p: "translate (mem s) (cr3 s) (ptr + i) = Some p" using assms(1) lt by blast
  have b: "kbind (user_byte (ptr + i) (s\<lparr>console := cs\<rparr>)) (\<lambda>c s. Ok None (print [char_of (unat c), NUL] s)) =
      (Ok None (s\<lparr>console := cs @ filter (\<lambda>c. c \<noteq> NUL) [user_char s ptr (unat i)]\<rparr>) :: (unit option, 'a proc_scheme) outcome)"
    using p by (simp add: user_byte_def print_char_nul user_char_def)
  have "n = unat len - unat (i + 1)" using Suc.hyps(2) u by simp
  note ih = Suc.hyps(1) [OF this le, of "cs @ filter (\<lambda>c. c \<noteq> NUL) [user_char s ptr (unat i)]"]
  have m: "[unat i..<unat len] = unat i # [unat (i + 1)..<unat len]"
    using lt u by (simp add: upt_conv_Cons word_less_nat_alt)
  show ?case
    using ih by (subst for_dyn_out.simps) (simp add: b lt m del: append_assoc cong: if_cong)
qed


section \<open>Examples\<close>

text \<open>
  A user task runs with one page, which the tables from 0x1000 on map at 0x400000 to the frame 0x5000.
  The trap frame at 0x6000 asks to write two bytes from there; the one at 0x6800 has an unknown number.
\<close>

definition example_user_mem :: pmem where
  "example_user_mem = (\<lambda>_. 0)(0x101 := 0x10, 0x1000 := 0x07, 0x1001 := 0x20, 0x2000 := 0x07, 0x2001 := 0x30,
     0x3010 := 0x07, 0x3011 := 0x40, 0x4000 := 0x07, 0x4001 := 0x50, 0x5000 := 0x48, 0x5001 := 0x69,
     0x6060 := 2, 0x606A := 0x40, 0x6870 := 99)"

definition example_user :: proc where
  "example_user = example_sched\<lparr>mem := example_user_mem, cr3 := 0x1000, current_tid := 0,
     tasks := (blank_task 0)\<lparr>state := TASK_RUNNING, is_user := True, address_space := 0x100\<rparr>
       # map blank_task [1..<16]\<rparr>"

lemma example_user_fields:
  "mem example_user = example_user_mem" "cr3 example_user = 0x1000" "current_tid example_user = 0" "console example_user = []"
  "task_current example_user = Some ((blank_task 0)\<lparr>state := TASK_RUNNING, is_user := True, address_space := 0x100\<rparr>)"
  by (simp_all add: example_user_def example_sched_def task_current_def)

lemma example_user_frame:
  "frame_get example_user_mem 0x6000 12 = 2" "frame_get example_user_mem 0x6000 13 = 0x400000"
  "frame_get example_user_mem 0x6800 14 = 99"
  unfolding frame_get_def example_user_mem_def by code_simp+

lemma example_user_entries:
  "pml4_of example_user 0x100 = 0x1000" "entry example_user_mem 0x1000 0 = 0x2007" "entry example_user_mem 0x2000 0 = 0x3007"
  "entry example_user_mem 0x3000 2 = 0x4007" "entry example_user_mem 0x4000 0 = 0x5007"
  unfolding pml4_of_def example_user_fields entry_def example_user_mem_def by code_simp+

lemma example_user_index:
  "pml4_i 0x400000 = 0" "pdpt_i 0x400000 = 0" "pd_i 0x400000 = 2" "pt_i 0x400000 = 0"
  "pml4_i 0x400001 = 0" "pdpt_i 0x400001 = 0" "pd_i 0x400001 = 2" "pt_i 0x400001 = 0"
  by code_simp+

lemma example_user_page:
  "translate example_user_mem 0x1000 0x400000 = Some 0x5000" "translate example_user_mem 0x1000 0x400001 = Some 0x5001"
  by (simp_all add: translate_def example_user_index example_user_entries pte_addr_def)

lemma example_user_range: "user_range_valid 0x100 0x400000 2 example_user"
proof -
  have "page_steps (page_base 0x400000) (page_base (0x400000 + 2 - 1) + 0x1000) = [0x400000]" by code_simp
  then show ?thesis
    by (simp add: user_range_valid_def Let_def vmm_virt_to_phys_def example_user_index example_user_entries
      example_user_fields pte_addr_def)
qed

definition example_space :: proc where
  "example_space = example_sched\<lparr>mem := mem example_vm, bitmap := 0x2000, bitmap_size := 2, total_pages := 16,
     free_pages := 13, kernel_address_space := 0x100, cr3 := 0x1000\<rparr>"

lemma example_space_inv: "vm_inv example_space {0x100}" "free_set example_space = {3..<16}"
proof -
  have f: "mem example_space = mem example_vm" "total_pages example_space = total_pages example_vm"
    "bitmap example_space = bitmap example_vm" "bitmap_size example_space = bitmap_size example_vm"
    "free_pages example_space = free_pages example_vm"
    by (simp_all add: example_space_def example_vm_def)
  have u: "page_used example_space = page_used example_vm" "bitmap_region example_space = bitmap_region example_vm"
    by (simp_all add: page_used_def [abs_def] bitmap_region_def f)
  then have fs: "free_set example_space = free_set example_vm" by (simp add: free_set_def f)
  have r: "roots example_space {0x100} = roots example_vm {0x100}" by (simp add: roots_def pml4_of_def f)
  show "free_set example_space = {3..<16}" using fs example_vm_free by simp
  show "vm_inv example_space {0x100}"
    using example_vm_inv unfolding vm_inv_def r kframe_def space_ok_def pmm_inv_def fs u f by simp
qed

lemma small_page_gap:
  assumes "translate m r w = None" and "pml4_i w = pml4_i v" "pdpt_i w = pdpt_i v" "pd_i w = pd_i v"
    and "\<And>pd. walk m r [pml4_i v, pdpt_i v] = Some pd \<Longrightarrow> huge (entry m pd (pd_i v)) \<Longrightarrow> present (entry m pd (pd_i v))"
  shows "small_page m r v"
  using assms by (auto simp: small_page_def translate_def walk_step_def Let_def split: if_splits option.splits)

lemma example_space_mapped:
  obtains s' where "vmm_map 0x100 0x400000 0x5000 7 example_space = Ok () s'" "vm_inv s' {0x100}"
    "small_page (mem s') (pml4_of s' 0x100) 0x400000" "translate (mem s') (pml4_of s' 0x100) 0x400000 = Some 0x5000"
proof -
  have r0: "pml4_of example_space 0x100 = 0x1000" using example_vm_root(1) by (simp add: pml4_of_def example_space_def)
  have un: "translate (mem example_space) 0x1000 v = None" for v
    using example_vm_unmapped by (simp add: example_space_def)
  obtain pt s1 where ok: "vmm_map 0x100 0x400000 0x5000 7 example_space = Ok () (set_entry pt (pt_i 0x400000) (page_base 0x5000 OR 7 OR VMM_FLAG_PRESENT) s1)"
    by (cases rule: vmm_map_cases [OF example_space_inv(1), of "0x100" "0x400000" "0x5000" 7])
      (auto simp: r0 un example_space_inv(2))
  then obtain s' where m: "vmm_map 0x100 0x400000 0x5000 7 example_space = Ok () s'" by blast
  note k = vmm_map_ok [OF example_space_inv(1) _ _ _ _ _ _ m]
  have inv: "vm_inv s' {0x100}" by (rule k(3)) simp_all
  have root: "pml4_of s' 0x100 = 0x1000" using k(4) [of "0x100"] r0 by simp
  have ne: "pt_i 0x401000 \<noteq> pt_i 0x400000" by code_simp
  have gap: "translate (mem s') 0x1000 0x401000 = None"
    using k(7) [of "0x1000" "0x401000"] un ne by (simp add: roots_def r0 same_page_def)
  have pg: "translate (mem s') 0x1000 0x400000 = Some 0x5000" using k(6) [of "0x400000"] by (simp add: r0 same_page_def)
  have "present (entry (mem s') pd 2)" if "walk (mem s') 0x1000 [0, 0] = Some pd" "huge (entry (mem s') pd 2)" for pd
  proof -
    have "table_at (mem s') 0x1000 [0, 0] pd" using that(1) by (simp add: table_at_def)
    moreover have "0x1000 \<in> roots s' {0x100}" by (simp add: roots_def root)
    ultimately have "table_ok (mem s') [0, 0] pd" using inv by (auto simp: vm_inv_def)
    then show ?thesis using that(2) by (auto simp: table_ok_def Let_def)
  qed
  moreover have "pml4_i 0x400000 = 0" "pdpt_i 0x400000 = 0" "pd_i 0x400000 = 2" "pml4_i 0x401000 = 0" "pdpt_i 0x401000 = 0" "pd_i 0x401000 = 2"
    by code_simp+
  ultimately have "small_page (mem s') 0x1000 0x400000"
    using gap by (intro small_page_gap [of _ _ "0x401000"]) simp_all
  then show thesis using that [OF m inv] pg by (simp add: root)
qed

section \<open>Properties\<close>

text \<open>
  C30: a range that \<^verbatim>\<open>user_range_valid\<close> accepts lies below the user limit, and the processor
  translates every one of its addresses, unless one is in a large page.
\<close>

theorem user_range_valid_sound:
  fixes s :: "'a proc_scheme"
  assumes "vm_inv s S" and "as \<in> S" and "user_range_valid as start len s" and "i < len"
    and "small_page (mem s) (pml4_of s as) (start + i)"
  shows "start + i < USER_TOP \<and> translate (mem s) (pml4_of s as) (start + i) \<noteq> None"
  using user_range_validD [OF assms(3,4)] vmm_virt_to_phys_translate [OF assms(1,2,5)]
  by (auto simp: word_less_nat_alt split: option.splits)

theorem user_range_valid_sound_witness:
  "\<exists>s'. vmm_map 0x100 0x400000 0x5000 7 example_space = Ok () s' \<and> user_range_valid 0x100 0x400000 1 s' \<and>
     translate (mem s') (pml4_of s' 0x100) 0x400000 \<noteq> None"
proof (rule example_space_mapped)
  fix s'
  assume s': "vmm_map 0x100 0x400000 0x5000 7 example_space = Ok () s'" "vm_inv s' {0x100}"
    "small_page (mem s') (pml4_of s' 0x100) 0x400000" "translate (mem s') (pml4_of s' 0x100) 0x400000 = Some 0x5000"
  have "page_steps (page_base 0x400000) (page_base (0x400000 + 1 - 1) + 0x1000) = [0x400000]" by code_simp
  then have v: "user_range_valid 0x100 0x400000 1 s'"
    using vmm_virt_to_phys_translate [OF s'(2) _ s'(3)] s'(4) by (simp add: user_range_valid_def Let_def)
  then show ?thesis
    using user_range_valid_sound [OF s'(2) _ v, of 0] s'(1,3) by (intro exI [of _ s']) simp
qed





text \<open>
  A system call with an unknown number returns the error 38 to the caller and changes nothing but
  the \<^verbatim>\<open>rax\<close> of its frame; the caller goes on running.
\<close>

theorem syscall_unknown:
  fixes s :: "'a proc_scheme"
  assumes "frame \<noteq> 0" and "frame_get (mem s) frame 14 > 4"
  shows "syscall_dispatch hello burn frame s = Ok 0 (s\<lparr>mem := frame_set frame 14 (- 38) (mem s)\<rparr>)"
proof -
  let ?r = "frame_get (mem s) frame 14"
  have r: "?r \<noteq> 0" "?r \<noteq> 1" "?r \<noteq> 2" "?r \<noteq> 3" "?r \<noteq> 4" using assms(2) by auto
  then have "sys_call hello burn frame s = Ok (- 38) s" by (simp add: sys_call_def Let_def ret_err_def)
  moreover have "frame_get (frame_set frame 14 (- 38) (mem s)) frame 14 = - 38"
    by (simp add: frame_get_def frame_set_def)
  ultimately show ?thesis using assms(1) by (simp add: syscall_dispatch_def Let_def ret_err_def)
qed

theorem syscall_unknown_witness:
  "\<exists>m. syscall_dispatch (0, 0) (0, 0) 0x6800 example_user = Ok 0 (example_user\<lparr>mem := m\<rparr>)"
  using syscall_unknown [of "0x6800" example_user "(0, 0)" "(0, 0)"] by (simp add: example_user_fields example_user_frame) blast

section \<open>Exit\<close>

lemma process_task_exited_frame [simp]:
  "tasks (process_task_exited q code s) = tasks s" "current_tid (process_task_exited q code s) = current_tid s"
  "mem (process_task_exited q code s) = mem s"
  by (auto simp: process_task_exited_def Let_def set_proc_def print_def print_dec_def split: option.splits)

definition exited_task :: "int \<Rightarrow> Task \<Rightarrow> Task" where
  "exited_task code t = t\<lparr>exit_code := code, state := TASK_ZOMBIE\<rparr>"

text \<open>The state in which the scheduler is called after an exit.\<close>

lemma syscall_exit_eq:
  fixes s :: "'a proc_scheme"
  assumes "frame \<noteq> 0" and "frame_get (mem s) frame 14 = 1" and "current_tid s = int c" and "c < length (tasks s)"
  obtains s1 where "syscall_dispatch hello burn frame s = context_switch_from frame s1" "current_tid s1 = int c"
    "tasks s1 = (tasks s)[c := exited_task (int_of_u64 (frame_get (mem s) frame 13)) (tasks s ! c)]"
proof -
  let ?code = "int_of_u64 (frame_get (mem s) frame 13)"
  define s0 where "s0 = process_task_exited (task_current_pid s) ?code s"
  define s1 where "s1 = (set_current (exited_task ?code) s0)\<lparr>mem := frame_set frame 14 (- 11) (mem s0)\<rparr>"
  have f: "tasks s0 = tasks s" "current_tid s0 = int c" "mem s0 = mem s" using assms(3) by (simp_all add: s0_def)
  have t: "tasks s1 = (tasks s)[c := exited_task ?code (tasks s ! c)]" "current_tid s1 = int c"
    by (simp_all add: s1_def set_current_def set_task_def f)
  have "sys_exit frame s = Ok (- 11) (set_current (exited_task ?code) s0)"
    using f(2) by (simp add: sys_exit_def Let_def s0_def [symmetric] task_current_def [of s0] ret_err_def exited_task_def [abs_def])
  moreover have "frame_get (frame_set frame 14 (- 11) (mem s0)) frame 14 = - 11"
    by (simp add: frame_get_def frame_set_def)
  moreover have "task_current s1 = Some (exited_task ?code (tasks s ! c))"
    using assms(4) by (simp add: task_current_def t)
  moreover have "mem (set_current (exited_task ?code) s0) = mem s0" by (simp add: set_current_def set_task_def)
  ultimately have "syscall_dispatch hello burn frame s = context_switch_from frame s1"
    using assms(1,2)
    by (simp add: syscall_dispatch_def sys_call_def Let_def ret_err_def s1_def [symmetric] exited_task_def
      task_schedule_from_interrupt_def)
  then show thesis using that t by blast
qed


text \<open>The trap frame at 0x7000 of the example asks for an exit with code 5.\<close>

definition example_exit :: proc where
  "example_exit = example_user\<lparr>mem := (\<lambda>_. 0)(0x7068 := 5, 0x7070 := 1)\<rparr>"


end
