(* ===== verification/Trap.thy ===== *)
theory Trap
  imports Desc Syscall
begin

text \<open>
  Interrupt entry: the stubs of \<^verbatim>\<open>kernel/isr.S\<close> and \<^verbatim>\<open>interrupt_handler\<close> of \<^verbatim>\<open>kernel/idt.c\<close>.
  A stub pushes the registers below what the processor pushed, calls the handler with the stack pointer,
  and pops the registers from the stack it is told to continue on. An exception halts the machine, which
  is the outcome \<open>Panic\<close> with the name of the exception.
\<close>

unbundle bit_operations_syntax

section \<open>The handler\<close>

definition exception_names :: "string list" where
  "exception_names =
     [''Divide By Zero'', ''Debug'', ''NMI'', ''Breakpoint'', ''Overflow'', ''Bound Range'', ''Invalid Opcode'',
      ''Device Not Available'', ''Double Fault'', ''Coprocessor Overrun'', ''Invalid TSS'', ''Segment Not Present'',
      ''Stack Fault'', ''General Protection Fault'', ''Page Fault'', ''Reserved'', ''x87 FPU'', ''Alignment Check'',
      ''Machine Check'', ''SIMD FPU'', ''Virtualization Fault'']"

text \<open>What is printed for an exception; \<open>cr2\<close> is the register with the faulting address.\<close>

definition print_exception :: "u64 \<Rightarrow> u64 \<Rightarrow> 'a desc_scheme \<Rightarrow> 'a desc_scheme" where
  "print_exception cr2 frame s =
     (let get = frame_get (mem s) frame; vector = get 15;
          s1 = print ([NL] @ ''--- EXCEPTION ---'' @ [NL]) s;
          s2 = (if vector \<le> 20 then print (exception_names ! unat vector) s1 else s1);
          s3 = print_dec vector (print ([NL] @ ''Vector: '') s2);
          s4 = print_hex (get 16) (print ([NL] @ ''Error:  '') s3);
          s5 = print_hex (get 17) (print ([NL] @ ''RIP:    '') s4);
          s6 = print_hex (get 20) (print ([NL] @ ''RSP:    '') s5);
          s7 = print_hex (get 19) (print ([NL] @ ''RFLAGS: '') s6);
          s8 = (case task_current s7 of
                  None \<Rightarrow> s7
                | Some t \<Rightarrow>
                    let u1 = print_dec (u64_of_int (tid t)) (print ([NL] @ ''TID:    '') s7);
                        u2 = print_dec (u64_of_int (pid t)) (print ([NL] @ ''PID:    '') u1)
                    in print_hex (tcr3 t) (print ([NL] @ ''CR3:    '') u2));
          s9 = (if vector = 14 then print_hex cr2 (print ([NL] @ ''CR2:    '') s8) else s8)
      in print ([NL] @ ''--- HALTED ---'' @ [NL]) s9)"

definition interrupt_handler ::
  "u64 \<times> u64 \<Rightarrow> u64 \<times> u64 \<Rightarrow> u64 \<Rightarrow> u64 \<Rightarrow> 'a desc_scheme \<Rightarrow> (u64, 'a desc_scheme) outcome" where
  "interrupt_handler hello burn cr2 frame s =
     kbind (kassert (frame \<noteq> 0) ''interrupt_handler: null frame'' s) (\<lambda>_ s.
     kbind (kassert (frame_get (mem s) frame 15 < 256) ''interrupt_handler: invalid vector'' s) (\<lambda>_ s.
     let vector = frame_get (mem s) frame 15
     in if vector < 32
        then Panic (if vector \<le> 20 then exception_names ! unat vector else '''') (print_exception cr2 frame s)
        else if vector = 128 then syscall_dispatch hello burn frame s
        else let irq = ucast (vector - 32) :: u8;
                 (spurious, s1) = irq_is_spurious irq s
             in if spurious then Ok 0 s1
                else let s2 = (if irq = 1 then keyboard_handler s1 else s1)
                     in Ok 0 (if irq \<noteq> 0 then irq_send_eoi irq s2 else s2)))"

section \<open>The stubs\<close>

text \<open>
  What the processor and a stub push, from the lowest address: the registers r15 to rax as they are in
  \<^verbatim>\<open>InterruptFrame\<close>, the vector and the error code, and rip, cs, rflags, rsp and ss.
\<close>

definition push_frame :: "u64 \<Rightarrow> u64 list \<Rightarrow> pmem \<Rightarrow> pmem" where
  "push_frame rsp vals m = fold (\<lambda>(i, v) m. store64 m (rsp + 8 * of_nat i) v) (enumerate 0 vals) m"

text \<open>
  A stub around a handler: the registers with which the interrupted code, or another task, goes on. The
  stack pointer is the one before the processor pushes.
\<close>

definition isr_stub ::
  "(u64 \<Rightarrow> 'a desc_scheme \<Rightarrow> (u64, 'a desc_scheme) outcome) \<Rightarrow> u64 \<Rightarrow> u64 \<Rightarrow> u64 list \<Rightarrow> u64 list \<Rightarrow> u64
     \<Rightarrow> 'a desc_scheme \<Rightarrow> (u64 list, 'a desc_scheme) outcome" where
  "isr_stub handler vector err regs iret stack s =
     (let frame = stack - 22 * 8;
          s1 = s\<lparr>mem := push_frame frame (regs @ [vector, err] @ iret) (mem s)\<rparr>
      in kbind (handler frame s1) (\<lambda>rax s2.
           Ok (resumed_registers (mem s2) (if rax = 0 then frame else rax)) s2))"

definition isr_common ::
  "u64 \<times> u64 \<Rightarrow> u64 \<times> u64 \<Rightarrow> u64 \<Rightarrow> u64 \<Rightarrow> u64 \<Rightarrow> u64 list \<Rightarrow> u64 list \<Rightarrow> u64
     \<Rightarrow> 'a desc_scheme \<Rightarrow> (u64 list, 'a desc_scheme) outcome" where
  "isr_common hello burn cr2 = isr_stub (interrupt_handler hello burn cr2)"

definition isr32 :: "u64 list \<Rightarrow> u64 list \<Rightarrow> u64 \<Rightarrow> 'a desc_scheme \<Rightarrow> (u64 list, 'a desc_scheme) outcome" where
  "isr32 = isr_stub timer_tick 32 0"

section \<open>Interrupts are transparent\<close>

lemma push_frame_get:
  assumes "unat rsp + 8 * (n + length vals) \<le> 2 ^ 64" and "k < n + length vals"
  shows "load64 (fold (\<lambda>(i, v) m. store64 m (rsp + 8 * of_nat i) v) (enumerate n vals) m) (rsp + 8 * of_nat k) =
    (if n \<le> k then vals ! (k - n) else load64 m (rsp + 8 * of_nat k))"
  using assms
proof (induction vals rule: rev_induct)
  case (snoc v vals)
  let ?l = "n + length vals"
  have u: "unat (rsp + 8 * of_nat j) = unat rsp + 8 * j" if "j \<le> ?l" for j
  proof -
    have o: "unat (of_nat (8 * j) :: u64) = 8 * j" using that snoc.prems(1) by (intro unat_of_nat_u64) simp
    have e: "8 * of_nat j = (of_nat (8 * j) :: u64)" by simp
    have "unat rsp + unat (of_nat (8 * j) :: u64) < 2 ^ LENGTH(64)" unfolding o using that snoc.prems(1) by simp
    then have "unat (rsp + of_nat (8 * j)) = unat rsp + unat (of_nat (8 * j) :: u64)" by (rule unat_add_lem [THEN iffD1])
    then show ?thesis unfolding e o .
  qed
  show ?case
  proof (cases "k = ?l")
    case True
    then show ?thesis by (simp add: enumerate_append_eq)
  next
    case False
    then have k: "k < ?l" using snoc.prems(2) by simp
    have "region (rsp + 8 * of_nat ?l) 8 \<inter> region (rsp + 8 * of_nat k) 8 = {}"
      using u [of ?l] u [of k] k snoc.prems(1) by (intro region_disjoint) auto
    then have "load64 (store64 m' (rsp + 8 * of_nat ?l) v) (rsp + 8 * of_nat k) = load64 m' (rsp + 8 * of_nat k)" for m'
      by (rule load64_store64_disjoint)
    then show ?thesis using snoc.IH snoc.prems(1) k by (auto simp: enumerate_append_eq nth_append)
  qed
qed simp

lemma resumed_pushed:
  assumes "length regs = 15" and "length iret = 5" and "unat f + 176 \<le> 2 ^ 64"
  shows "resumed_registers (push_frame f (regs @ [v, e] @ iret) m) f = regs @ iret"
    and "frame_get (push_frame f (regs @ [v, e] @ iret) m) f 15 = v"
proof -
  have get: "frame_get (push_frame f (regs @ [v, e] @ iret) m) f k = (regs @ [v, e] @ iret) ! k" if "k < 22" for k
    using push_frame_get [of f 0 "regs @ [v, e] @ iret" k m] assms that
    by (simp add: frame_get_def push_frame_def)
  show "frame_get (push_frame f (regs @ [v, e] @ iret) m) f 15 = v" using get [of 15] assms by (simp add: nth_append)
  show "resumed_registers (push_frame f (regs @ [v, e] @ iret) m) f = regs @ iret"
  proof (rule nth_equalityI)
    fix i assume "i < length (resumed_registers (push_frame f (regs @ [v, e] @ iret) m) f)"
    then have i: "i < 20" by (simp add: resumed_registers_def)
    show "resumed_registers (push_frame f (regs @ [v, e] @ iret) m) f ! i = (regs @ iret) ! i"
    proof (cases "i < 15")
      case True
      then show ?thesis using get [of i] assms(1) i by (simp add: resumed_registers_def nth_append)
    next
      case False
      then have "i \<in> {15, 16, 17, 18, 19}" using i by auto
      then have "([0..<15] @ [17..<22]) ! i = i + 2" by (elim insertE) (simp_all add: nth_append)
      then have "resumed_registers m' f ! i = frame_get m' f (i + 2)" for m'
        using i by (simp add: resumed_registers_def nth_map del: upt_rec_numeral map_append)
      then show ?thesis using get [of "i + 2"] assms i False by (simp add: nth_append)
    qed
  qed (use assms in \<open>simp add: resumed_registers_def\<close>)
qed

lemma keyboard_handler_mem: "mem (keyboard_handler s) = mem s"
  by (simp add: keyboard_handler_def inb_def Let_def handle_scancode_def kb_push_def task_wake_def set_task_def
      set_shift_def irq_note_keyboard_irq_def)

lemma irq_ops_mem: "mem (irq_send_eoi i s) = mem s" "mem (snd (irq_is_spurious i s)) = mem s"
  by (simp_all add: irq_send_eoi_def Let_def apic_send_eoi_def lapic_write_def mmio_write32_def pic_send_eoi_def outb_def
      irq_is_spurious_def pic_is_spurious_irq7_def inb_def)

text \<open>
  C21: An interrupt of a device line other than the timer is transparent: whatever the handler does, the
  interrupted code goes on with exactly the registers, instruction pointer, flags and stack it had, and
  the only memory that changes is the frame below its stack pointer.
\<close>

theorem device_interrupt_transparent:
  assumes "33 \<le> vector" and "vector < 48" and "176 < unat stack" and "length regs = 15" and "length iret = 5"
  shows "\<exists>s'. isr_common hello burn fault vector err regs iret stack s = Ok (regs @ iret) s' \<and>
    mem s' = push_frame (stack - 176) (regs @ [vector, err] @ iret) (mem s)"
proof -
  let ?f = "stack - 176" and ?m = "push_frame (stack - 176) (regs @ [vector, err] @ iret) (mem s)"
  let ?s = "s\<lparr>mem := ?m\<rparr>"
  have uf: "unat ?f = unat stack - 176" using assms(3) by (simp add: unat_sub word_le_nat_alt)
  then have b: "unat ?f + 176 \<le> 2 ^ 64" "?f \<noteq> 0" using assms(3) unat_u64_less [of stack] by (auto simp: word_unat_eq_iff)
  note r = resumed_pushed [OF assms(4,5) b(1)]
  have v: "\<not> vector < 32" "vector \<noteq> 128" "vector < 256" using assms(1,2) by (auto simp: word_less_nat_alt word_le_nat_alt word_unat_eq_iff)
  have i0: "(ucast (vector - 32) :: u8) \<noteq> 0"
  proof -
    have "unat (vector - 32) = unat vector - 32" using assms(1) by (simp add: unat_sub word_le_nat_alt)
    then have "unat (ucast (vector - 32) :: u8) = unat vector - 32"
      using assms(2) by (simp add: unsigned_ucast_eq take_bit_nat_eq_self word_less_nat_alt)
    then show ?thesis using assms(1) by (auto simp: word_unat_eq_iff word_le_nat_alt)
  qed
  obtain s' where h: "interrupt_handler hello burn fault ?f ?s = Ok 0 s'" "mem s' = ?m"
  proof (cases "irq_is_spurious (ucast (vector - 32)) ?s")
    case (Pair spurious s1)
    have m1: "mem s1 = ?m" using irq_ops_mem(2) [of "ucast (vector - 32)" ?s] Pair by simp
    show thesis
      using that b(2) r(2) v i0 m1 Pair
      by (cases spurious; cases "(ucast (vector - 32) :: u8) = 1")
        (auto simp: interrupt_handler_def Let_def irq_ops_mem keyboard_handler_mem)
  qed
  show ?thesis using h r(1) by (simp add: isr_common_def isr_stub_def Let_def)
qed

theorem device_interrupt_transparent_witness:
  "\<forall>s :: desc. \<exists>s'. isr_common (0, 0) (0, 0) 0 33 0 (replicate 15 7) [0x1000, 8, 0x202, 0x9000, 0x10] 0x9000 s =
     Ok (replicate 15 7 @ [0x1000, 8, 0x202, 0x9000, 0x10]) s'"
  using device_interrupt_transparent [where hello = "(0, 0)" and burn = "(0, 0)" and fault = 0 and err = 0 and vector = 33 and stack = "0x9000" and regs = "replicate 15 7"
      and iret = "[0x1000, 8, 0x202, 0x9000, 0x10]"]
  by (simp add: word_le_nat_alt word_less_nat_alt) blast

end
