(* ===== verification/Panic.thy ===== *)
theory Panic
  imports Trap
begin

text \<open>
  \<^verbatim>\<open>kernel/panic.c\<close>. A routine that panics has the outcome \<open>Panic\<close>; \<open>panic\<close> is what happens to the
  state from there until the machine halts.
\<close>

record pan = desc +
  g_last_panic :: string

definition panic_store_last :: "string option \<Rightarrow> 'a pan_scheme \<Rightarrow> 'a pan_scheme" where
  "panic_store_last message s =
     (let message = (case message of None \<Rightarrow> ''(null)'' | Some m \<Rightarrow> m);
          (out, i) = copy_bounded 127 message (g_last_panic s, 0)
      in s\<lparr>g_last_panic := out[i := NUL]\<rparr>)"

definition panic :: "string \<Rightarrow> 'a pan_scheme \<Rightarrow> 'a pan_scheme" where
  "panic message s =
     (let s1 = panic_store_last (Some message) (cli s);
          s2 = serial_write [NL] (serial_write message (serial_write ([NL] @ ''[PANIC] '') s1));
          s3 = print [NL] (print message (print ([NL] @ ''*** KERNEL PANIC ***'' @ [NL]) s2))
      in case task_current s3 of
           None \<Rightarrow> s3
         | Some t \<Rightarrow>
             let s4 = print_dec (u64_of_int (tid t)) (print ''tid='' s3);
                 s5 = print_dec (u64_of_int (pid t)) (print '' pid='' s4);
                 s6 = print [NL] (print_hex (tcr3 t) (print '' cr3='' s5));
                 s7 = serial_write_dec (u64_of_int (tid t)) (serial_write ''tid='' s6);
                 s8 = serial_write_dec (u64_of_int (pid t)) (serial_write '' pid='' s7)
             in serial_write [NL] (serial_write_hex (tcr3 t) (serial_write '' cr3='' s8)))"

definition panic_get_last :: "'a pan_scheme \<Rightarrow> string" where
  "panic_get_last s = g_last_panic s"

end
