(* ===== verification/Rtc.thy ===== *)
theory Rtc
  imports Console
begin

text \<open>
  The wall clock, \<^verbatim>\<open>kernel/rtc.c\<close>: the CMOS registers are read until two readings agree, decoded
  from BCD and the 12-hour format, and printed as \<^verbatim>\<open>YYYY-MM-DD hh:mm:ss\<close>.
\<close>

unbundle bit_operations_syntax

record RtcDateTime =
  year :: u16
  month :: u8
  day :: u8
  hour :: u8
  minute :: u8
  second :: u8

definition cmos_read :: "u8 \<Rightarrow> 'a io_scheme \<Rightarrow> u8 \<times> 'a io_scheme" where
  "cmos_read reg s = inb 0x71 (outb 0x70 (reg OR 0x80) s)"

definition bcd_to_bin :: "u8 \<Rightarrow> u8" where
  "bcd_to_bin v = (v AND 0x0F) + drop_bit 4 v * 10"

definition decode_hour :: "u8 \<Rightarrow> bool \<Rightarrow> bool \<Rightarrow> u8" where
  "decode_hour raw is_bcd is_24h =
     (let pm = (raw AND 0x80 \<noteq> 0);
          hour = raw AND 0x7F;
          hour = (if is_bcd then bcd_to_bin hour else hour)
      in if \<not> is_24h
         then let hour = (if pm \<and> hour < 12 then hour + 12 else hour)
              in if \<not> pm \<and> hour = 12 then 0 else hour
         else hour)"

definition rtc_is_updating :: "'a io_scheme \<Rightarrow> bool \<times> 'a io_scheme" where
  "rtc_is_updating s = (let (v, s1) = cmos_read 0x0A s in (v AND 0x80 \<noteq> 0, s1))"

definition dt_equal :: "RtcDateTime \<Rightarrow> RtcDateTime \<Rightarrow> bool" where
  "dt_equal a b \<longleftrightarrow> year a = year b \<and> month a = month b \<and> day a = day b \<and>
     hour a = hour b \<and> minute a = minute b \<and> second a = second b"

definition copy_dt :: "RtcDateTime \<Rightarrow> RtcDateTime \<Rightarrow> RtcDateTime" where
  "copy_dt dst src = dst\<lparr>year := year src, month := month src, day := day src,
     hour := hour src, minute := minute src, second := second src\<rparr>"

definition rtc_read_raw :: "'a io_scheme \<Rightarrow> (RtcDateTime \<times> u8) \<times> 'a io_scheme" where
  "rtc_read_raw s =
     (let (se, s1) = cmos_read 0x00 s; (mi, s2) = cmos_read 0x02 s1; (ho, s3) = cmos_read 0x04 s2;
          (da, s4) = cmos_read 0x07 s3; (mo, s5) = cmos_read 0x08 s4; (ye, s6) = cmos_read 0x09 s5;
          (reg_b, s7) = cmos_read 0x0B s6
      in ((\<lparr>year = ucast ye, month = mo, day = da, hour = ho, minute = mi, second = se\<rparr>, reg_b), s7))"

definition rtc_init :: "'a con_scheme \<Rightarrow> 'a con_scheme" where
  "rtc_init s = klog_info ''RTC: CMOS wall clock ready'' s"

text \<open>\<^verbatim>\<open>while (rtc_is_updating()) {}\<close>, and the loop that reads until two readings agree.\<close>

partial_function (option) rtc_settle :: "'a io_scheme \<Rightarrow> 'a io_scheme option" where
  "rtc_settle s = (let (u, s1) = rtc_is_updating s in if u then rtc_settle s1 else Some s1)"

partial_function (option) rtc_agree ::
  "RtcDateTime \<Rightarrow> 'a io_scheme \<Rightarrow> ((RtcDateTime \<times> u8) \<times> 'a io_scheme) option" where
  "rtc_agree prev s =
     Option.bind (rtc_settle s) (\<lambda>s1.
       let ((cur, reg_b), s2) = rtc_read_raw s1
       in if dt_equal prev cur then Some ((cur, reg_b), s2) else rtc_agree (copy_dt prev cur) s2)"

definition rtc_decode :: "RtcDateTime \<Rightarrow> u8 \<Rightarrow> RtcDateTime" where
  "rtc_decode cur reg_b =
     (let is_bcd = (reg_b AND 0x04 = 0);
          is_24h = (reg_b AND 0x02 \<noteq> 0);
          cur = (if is_bcd
                 then cur\<lparr>second := bcd_to_bin (second cur), minute := bcd_to_bin (minute cur),
                          day := bcd_to_bin (day cur), month := bcd_to_bin (month cur),
                          year := ucast (bcd_to_bin (ucast (year cur)))\<rparr>
                 else cur);
          cur = cur\<lparr>hour := decode_hour (hour cur) is_bcd is_24h\<rparr>
      in cur\<lparr>year := 2000 + year cur mod 100\<rparr>)"

definition rtc_read_datetime :: "'a io_scheme \<Rightarrow> (RtcDateTime, 'a io_scheme) outcome" where
  "rtc_read_datetime s =
     (case rtc_settle s of None \<Rightarrow> Hang | Some s1 \<Rightarrow>
      let ((prev, _), s2) = rtc_read_raw s1
      in case rtc_agree prev s2 of None \<Rightarrow> Hang | Some ((cur, reg_b), s3) \<Rightarrow> Ok (rtc_decode cur reg_b) s3)"

section \<open>Formatting\<close>

text \<open>\<^verbatim>\<open>(char)('0' + v)\<close> and \<^verbatim>\<open>out[p++] = c\<close> on a buffer and a position.\<close>

definition digit_char :: "u32 \<Rightarrow> char" where "digit_char v = char_of (48 + unat v)"

definition emit :: "char \<Rightarrow> string \<times> u32 \<Rightarrow> string \<times> u32" where
  "emit c st = (case st of (out, p) \<Rightarrow> (out[unat p := c], p + 1))"

definition append_2 :: "u32 \<Rightarrow> u32 \<Rightarrow> string \<times> u32 \<Rightarrow> string \<times> u32" where
  "append_2 lim value st =
     (if snd st + 2 \<ge> lim then st
      else emit (digit_char (value mod 10)) (emit (digit_char (value div 10 mod 10)) st))"

definition append_4 :: "u32 \<Rightarrow> u32 \<Rightarrow> string \<times> u32 \<Rightarrow> string \<times> u32" where
  "append_4 lim value st =
     (if snd st + 4 \<ge> lim then st
      else emit (digit_char (value mod 10)) (emit (digit_char (value div 10 mod 10))
        (emit (digit_char (value div 100 mod 10)) (emit (digit_char (value div 1000 mod 10)) st))))"

definition append_sep :: "u32 \<Rightarrow> char \<Rightarrow> string \<times> u32 \<Rightarrow> string \<times> u32" where
  "append_sep lim c st = (if snd st + 1 < lim then emit c st else st)"

definition rtc_format :: "RtcDateTime option \<Rightarrow> string \<Rightarrow> u32 \<Rightarrow> string" where
  "rtc_format dt out out_len =
     (if out_len = 0 then out
      else case dt of
        None \<Rightarrow> out[0 := NUL]
      | Some dt \<Rightarrow>
          let st = append_4 out_len (ucast (year dt)) (out, 0);
              st = append_2 out_len (ucast (month dt)) (append_sep out_len (CHR ''-'') st);
              st = append_2 out_len (ucast (day dt)) (append_sep out_len (CHR ''-'') st);
              st = append_2 out_len (ucast (hour dt)) (append_sep out_len (CHR '' '') st);
              st = append_2 out_len (ucast (minute dt)) (append_sep out_len (CHR '':'') st);
              (out, p) = append_2 out_len (ucast (second dt)) (append_sep out_len (CHR '':'') st);
              p = (if p \<ge> out_len then out_len - 1 else p)
          in out[unat p := NUL])"

section \<open>Formatting stays in the buffer and gives the date\<close>

text \<open>
  What holds of the buffer and the position at every step: the text so far is at the start of the
  buffer, and nothing behind \<open>lim\<close> has been touched.
\<close>

definition fmt_ok :: "string \<Rightarrow> nat \<Rightarrow> string \<times> u32 \<Rightarrow> bool" where
  "fmt_ok out lim st \<longleftrightarrow> length (fst st) = length out \<and> drop lim (fst st) = drop lim out \<and>
     unat (snd st) < lim \<and> lim \<le> length out"

definition fmt_text :: "string \<Rightarrow> string \<times> u32 \<Rightarrow> bool" where
  "fmt_text xs st \<longleftrightarrow> unat (snd st) = length xs \<and> take (length xs) (fst st) = xs"

lemma unat_add_small: "unat (p :: u32) \<le> 1000 \<Longrightarrow> n \<le> 1000 \<Longrightarrow> unat (p + of_nat n) = unat p + n"
  by (subst unat_add_lem [THEN iffD1]) (simp_all add: unat_of_nat)

lemma emit_ok:
  assumes "fmt_ok out lim st" and "unat (snd st) + 1 < lim" and "unat (snd st) \<le> 1000"
  shows "fmt_ok out lim (emit c st)" and "unat (snd (emit c st)) = unat (snd st) + 1"
  using assms unat_add_small [of "snd st" 1] by (auto simp: fmt_ok_def emit_def split: prod.splits)

lemma emit_text:
  assumes "fmt_ok out lim st" and "fmt_text xs st" and "length xs \<le> 1000"
  shows "fmt_text (xs @ [c]) (emit c st)"
  using assms unat_add_small [of "snd st" 1]
  by (auto simp: fmt_ok_def fmt_text_def emit_def take_Suc_conv_app_nth split: prod.splits)

definition two :: "u32 \<Rightarrow> string" where
  "two v = [digit_char (v div 10 mod 10), digit_char (v mod 10)]"

definition four :: "u32 \<Rightarrow> string" where
  "four v = [digit_char (v div 1000 mod 10), digit_char (v div 100 mod 10)] @ two v"

lemma length_two [simp]: "length (two v) = 2" and length_four [simp]: "length (four v) = 4"
  by (simp_all add: two_def four_def)

lemma append_2_ok:
  assumes "fmt_ok out (unat lim) st" and "unat (snd st) \<le> 900"
  shows "fmt_ok out (unat lim) (append_2 lim v st)" and "unat (snd (append_2 lim v st)) \<le> unat (snd st) + 2"
    and "fmt_text xs st \<Longrightarrow> length xs + 2 < unat lim \<Longrightarrow> fmt_text (xs @ two v) (append_2 lim v st)"
proof -
  have c: "snd st + 2 \<ge> lim \<longleftrightarrow> unat (snd st) + 2 \<ge> unat lim"
    using unat_add_small [of "snd st" 2] assms(2) by (simp add: word_le_nat_alt)
  let ?e = "emit (digit_char (v div 10 mod 10)) st"
  have e: "fmt_ok out (unat lim) ?e" "unat (snd ?e) = unat (snd st) + 1" if "unat (snd st) + 2 < unat lim"
    using emit_ok [OF assms(1)] assms(2) that by simp_all
  show "fmt_ok out (unat lim) (append_2 lim v st)"
    using e emit_ok [OF e(1)] assms by (auto simp: append_2_def c not_le)
  show "unat (snd (append_2 lim v st)) \<le> unat (snd st) + 2"
    using e emit_ok(2) [OF e(1)] assms by (auto simp: append_2_def c not_le)
  assume t: "fmt_text xs st" and l: "length xs + 2 < unat lim"
  have p: "unat (snd st) = length xs" using t by (simp add: fmt_text_def)
  have "fmt_text (xs @ [digit_char (v div 10 mod 10)]) ?e"
    using emit_text [OF assms(1) t] assms(2) p by simp
  from emit_text [OF e(1) this] show "fmt_text (xs @ two v) (append_2 lim v st)"
    using p l assms(2) by (simp add: append_2_def c two_def)
qed

lemma append_4_ok:
  assumes "fmt_ok out (unat lim) st" and "unat (snd st) = 0"
  shows "fmt_ok out (unat lim) (append_4 lim v st)" and "unat (snd (append_4 lim v st)) \<le> 4"
    and "4 < unat lim \<Longrightarrow> fmt_text (four v) (append_4 lim v st)"
proof -
  have z: "snd st = 0" using assms(2) by (simp add: unat_eq_0)
  have c: "snd st + 4 \<ge> lim \<longleftrightarrow> 4 \<ge> unat lim" using z by (simp add: word_le_nat_alt)
  let ?a = "emit (digit_char (v div 1000 mod 10)) st"
  let ?b = "emit (digit_char (v div 100 mod 10)) ?a"
  let ?c = "emit (digit_char (v div 10 mod 10)) ?b"
  let ?d = "emit (digit_char (v mod 10)) ?c"
  have a: "fmt_ok out (unat lim) ?a" "unat (snd ?a) = 1" if "4 < unat lim"
    using emit_ok [OF assms(1)] assms(2) that by simp_all
  have b: "fmt_ok out (unat lim) ?b" "unat (snd ?b) = 2" if "4 < unat lim"
    using emit_ok [OF a(1)] a(2) that by simp_all
  have cc: "fmt_ok out (unat lim) ?c" "unat (snd ?c) = 3" if "4 < unat lim"
    using emit_ok [OF b(1)] b(2) that by simp_all
  have d: "fmt_ok out (unat lim) ?d" "unat (snd ?d) = 4" if "4 < unat lim"
    using emit_ok [OF cc(1)] cc(2) that by simp_all
  show "fmt_ok out (unat lim) (append_4 lim v st)" "unat (snd (append_4 lim v st)) \<le> 4"
    using d assms by (auto simp: append_4_def c not_le)
  assume l: "4 < unat lim"
  have "fmt_text [] st" using assms(2) by (simp add: fmt_text_def)
  from emit_text [OF assms(1) this] have "fmt_text [digit_char (v div 1000 mod 10)] ?a" by simp
  from emit_text [OF a(1) [OF l] this] have "fmt_text [digit_char (v div 1000 mod 10), digit_char (v div 100 mod 10)] ?b" by simp
  from emit_text [OF b(1) [OF l] this]
  have "fmt_text [digit_char (v div 1000 mod 10), digit_char (v div 100 mod 10), digit_char (v div 10 mod 10)] ?c" by simp
  from emit_text [OF cc(1) [OF l] this] show "fmt_text (four v) (append_4 lim v st)"
    using l by (simp add: append_4_def c four_def two_def)
qed

lemma append_sep_ok:
  assumes "fmt_ok out (unat lim) st" and "unat (snd st) \<le> 900"
  shows "fmt_ok out (unat lim) (append_sep lim ch st)" and "unat (snd (append_sep lim ch st)) \<le> unat (snd st) + 1"
    and "fmt_text xs st \<Longrightarrow> length xs + 1 < unat lim \<Longrightarrow> fmt_text (xs @ [ch]) (append_sep lim ch st)"
proof -
  have c: "snd st + 1 < lim \<longleftrightarrow> unat (snd st) + 1 < unat lim"
    using unat_add_small [of "snd st" 1] assms(2) by (simp add: word_less_nat_alt)
  show "fmt_ok out (unat lim) (append_sep lim ch st)"
    using emit_ok [OF assms(1)] assms by (auto simp: append_sep_def c)
  show "unat (snd (append_sep lim ch st)) \<le> unat (snd st) + 1"
    using emit_ok(2) [OF assms(1)] assms(2) by (auto simp: append_sep_def c)
  assume t: "fmt_text xs st" and l: "length xs + 1 < unat lim"
  have p: "unat (snd st) = length xs" using t by (simp add: fmt_text_def)
  show "fmt_text (xs @ [ch]) (append_sep lim ch st)"
    using emit_text [OF assms(1) t] p l assms(2) by (simp add: append_sep_def c)
qed

text \<open>A separator and two digits.\<close>

definition fmt_field :: "u32 \<Rightarrow> char \<Rightarrow> u32 \<Rightarrow> string \<times> u32 \<Rightarrow> string \<times> u32" where
  "fmt_field lim ch v st = append_2 lim v (append_sep lim ch st)"

lemma fmt_field_ok:
  assumes "fmt_ok out (unat lim) st" and "unat (snd st) \<le> 800"
  shows "fmt_ok out (unat lim) (fmt_field lim ch v st)"
    and "unat (snd (fmt_field lim ch v st)) \<le> unat (snd st) + 3"
    and "fmt_text xs st \<Longrightarrow> length xs + 3 < unat lim \<Longrightarrow> fmt_text (xs @ ch # two v) (fmt_field lim ch v st)"
proof -
  note s = append_sep_ok [OF assms(1), where ch = ch]
  have b: "unat (snd (append_sep lim ch st)) \<le> 801" using s(2) assms(2) by simp
  have b': "unat (snd (append_sep lim ch st)) \<le> 900" using b by simp
  note a = append_2_ok [OF s(1) b', where v = v]
  show "fmt_ok out (unat lim) (fmt_field lim ch v st)" using a(1) assms by (simp add: fmt_field_def)
  show "unat (snd (fmt_field lim ch v st)) \<le> unat (snd st) + 3"
    using a(2) s(2) assms(2) by (simp add: fmt_field_def)
  show "fmt_text (xs @ ch # two v) (fmt_field lim ch v st)" if "fmt_text xs st" "length xs + 3 < unat lim"
    using a(3) [OF _ s(3) [OF _ that(1)]] assms(2) that(2) by (simp add: fmt_field_def)
qed

definition fmt_all :: "RtcDateTime \<Rightarrow> string \<Rightarrow> u32 \<Rightarrow> string \<times> u32" where
  "fmt_all dt out lim =
     fmt_field lim (CHR '':'') (ucast (second dt)) (fmt_field lim (CHR '':'') (ucast (minute dt))
       (fmt_field lim (CHR '' '') (ucast (hour dt)) (fmt_field lim (CHR ''-'') (ucast (day dt))
         (fmt_field lim (CHR ''-'') (ucast (month dt)) (append_4 lim (ucast (year dt)) (out, 0))))))"

lemma rtc_format_Some:
  "rtc_format (Some dt) out lim = (if lim = 0 then out
     else let st = fmt_all dt out lim
          in (fst st)[unat (if snd st \<ge> lim then lim - 1 else snd st) := NUL])"
  by (simp add: rtc_format_def fmt_all_def fmt_field_def Let_def split: prod.splits)

definition date_text :: "RtcDateTime \<Rightarrow> string" where
  "date_text dt = four (ucast (year dt)) @ CHR ''-'' # two (ucast (month dt)) @ CHR ''-'' # two (ucast (day dt))
     @ CHR '' '' # two (ucast (hour dt)) @ CHR '':'' # two (ucast (minute dt)) @ CHR '':'' # two (ucast (second dt))"

definition fmt_step :: "string \<Rightarrow> u32 \<Rightarrow> string \<Rightarrow> string \<times> u32 \<Rightarrow> bool" where
  "fmt_step out lim xs st \<longleftrightarrow> fmt_ok out (unat lim) st \<and> unat (snd st) \<le> length xs \<and>
     (19 < unat lim \<longrightarrow> fmt_text xs st)"

lemma fmt_step_field:
  assumes "fmt_step out lim xs st" and "length xs \<le> 16"
  shows "fmt_step out lim (xs @ ch # two v) (fmt_field lim ch v st)"
proof -
  have k: "fmt_ok out (unat lim) st" "unat (snd st) \<le> 800" using assms by (auto simp: fmt_step_def)
  note f = fmt_field_ok [OF k, where ch = ch and v = v]
  show ?thesis using f(1,2) f(3) [of xs] assms by (auto simp: fmt_step_def)
qed

lemma fmt_step_all:
  assumes "0 < unat lim" and "unat lim \<le> length out"
  shows "fmt_step out lim (date_text dt) (fmt_all dt out lim)"
proof -
  have s: "fmt_ok out (unat lim) (out, 0)" using assms by (simp add: fmt_ok_def)
  have "fmt_step out lim (four (ucast (year dt))) (append_4 lim (ucast (year dt)) (out, 0))"
    using append_4_ok [OF s, where v = "ucast (year dt)"] by (auto simp: fmt_step_def)
  then have "fmt_step out lim (((((four (ucast (year dt)) @ CHR ''-'' # two (ucast (month dt)))
      @ CHR ''-'' # two (ucast (day dt))) @ CHR '' '' # two (ucast (hour dt)))
      @ CHR '':'' # two (ucast (minute dt))) @ CHR '':'' # two (ucast (second dt))) (fmt_all dt out lim)"
    unfolding fmt_all_def by (intro fmt_step_field) simp_all
  then show ?thesis by (simp add: date_text_def)
qed

lemma digit_char_not_NUL: "v < 10 \<Longrightarrow> digit_char v \<noteq> NUL"
proof -
  assume "v < 10"
  then have "unat v < 10" by (simp add: word_less_nat_alt)
  then have "(of_char (digit_char v) :: nat) = 48 + unat v" by (simp add: digit_char_def)
  then show ?thesis by auto
qed

lemma date_text_no_NUL: "NUL \<notin> set (date_text dt)"
proof -
  have "NUL \<noteq> digit_char (v mod 10)" for v :: u32
    using digit_char_not_NUL [of "v mod 10"] by (simp add: word_mod_less_divisor)
  then show ?thesis by (auto simp: date_text_def four_def two_def)
qed

section \<open>Decoding\<close>

text \<open>How the chip presents a number and an hour in its two formats.\<close>

definition encode_num :: "bool \<Rightarrow> nat \<Rightarrow> u8" where
  "encode_num bcd n = of_nat (if bcd then 16 * (n div 10) + n mod 10 else n)"

definition encode_hour :: "bool \<Rightarrow> bool \<Rightarrow> nat \<Rightarrow> u8" where
  "encode_hour bcd h24 n =
     (if h24 then encode_num bcd n
      else encode_num bcd (if n mod 12 = 0 then 12 else n mod 12) OR (if n \<ge> 12 then 0x80 else 0))"

lemma all_less_list: "(\<forall>n < k. P n) \<longleftrightarrow> list_all P [0..<k]"
  by (auto simp: list_all_iff)

lemma bcd_to_bin_encode: "n < 100 \<Longrightarrow> bcd_to_bin (encode_num True n) = of_nat n"
proof -
  have "\<forall>n < 100. bcd_to_bin (encode_num True n) = of_nat n"
    unfolding all_less_list by code_simp
  then show "n < 100 \<Longrightarrow> ?thesis" by blast
qed

lemma decode_hour_encode: "n < 24 \<Longrightarrow> decode_hour (encode_hour bcd h24 n) bcd h24 = of_nat n"
proof -
  have "\<forall>n < 24. decode_hour (encode_hour True True n) True True = of_nat n"
    "\<forall>n < 24. decode_hour (encode_hour True False n) True False = of_nat n"
    "\<forall>n < 24. decode_hour (encode_hour False True n) False True = of_nat n"
    "\<forall>n < 24. decode_hour (encode_hour False False n) False False = of_nat n"
    unfolding all_less_list by code_simp+
  then show "n < 24 \<Longrightarrow> ?thesis" by (cases bcd; cases h24) auto
qed

text \<open>The registers of a clock that shows a date of this century.\<close>

definition encode_dt :: "bool \<Rightarrow> bool \<Rightarrow> nat \<Rightarrow> nat \<Rightarrow> nat \<Rightarrow> nat \<Rightarrow> nat \<Rightarrow> nat \<Rightarrow> RtcDateTime" where
  "encode_dt bcd h24 ye mo da ho mi se = \<lparr>year = ucast (encode_num bcd ye), month = encode_num bcd mo,
     day = encode_num bcd da, hour = encode_hour bcd h24 ho, minute = encode_num bcd mi,
     second = encode_num bcd se\<rparr>"

definition reg_b_of :: "bool \<Rightarrow> bool \<Rightarrow> u8" where
  "reg_b_of bcd h24 = (if bcd then 0 else 4) OR (if h24 then 2 else 0)"

lemma rtc_format_cases:
  assumes "unat n \<le> length out" and "0 < n"
  shows "length (rtc_format dt out n) = length out \<and> drop (unat n) (rtc_format dt out n) = drop (unat n) out
    \<and> NUL \<in> set (take (unat n) (rtc_format dt out n))"
proof (cases dt)
  case None
  have z: "n \<noteq> 0" "0 < unat n" using assms(2) by (auto simp: word_less_nat_alt)
  have l: "0 < length out" using assms(1) z(2) by linarith
  have "out[0 := NUL] ! 0 = NUL" using l by simp
  then have "NUL \<in> set (take (unat n) (out[0 := NUL]))"
    using l z by (auto simp: in_set_conv_nth intro!: exI [of _ 0])
  then show ?thesis using None z by (simp add: rtc_format_def)
next
  case (Some d)
  have z: "n \<noteq> 0" "0 < unat n" using assms(2) by (auto simp: word_less_nat_alt)
  define st where "st = fmt_all d out n"
  have k: "fmt_ok out (unat n) st" using fmt_step_all [OF z(2) assms(1)] by (simp add: st_def fmt_step_def)
  then have p: "unat (snd st) < unat n" "unat (snd st) < length (fst st)" by (auto simp: fmt_ok_def)
  have r: "rtc_format dt out n = (fst st)[unat (snd st) := NUL]"
    using Some z p(1) by (simp add: rtc_format_Some st_def [symmetric] Let_def word_le_nat_alt)
  have "take (unat n) ((fst st)[unat (snd st) := NUL]) ! unat (snd st) = NUL" using p by simp
  then have "NUL \<in> set (take (unat n) ((fst st)[unat (snd st) := NUL]))"
    using p k by (metis length_take length_list_update min_less_iff_conj nth_mem)
  then show ?thesis using r k p by (simp add: fmt_ok_def)
qed

text \<open>
  A clock chip: a read of the data port gives the register that was selected by the write before it.
\<close>

definition clock_device :: "machine \<Rightarrow> (u8 \<Rightarrow> u8) \<Rightarrow> bool" where
  "clock_device d regs \<longleftrightarrow> (\<forall>l r. in_b d (l @ [OutB 0x70 r]) 0x71 = regs (r AND 0x7F))"

lemma cmos_read_dev:
  assumes "clock_device (device s) regs"
  shows "cmos_read r s = (regs ((r OR 0x80) AND 0x7F), s\<lparr>io_log := (io_log s @ [OutB 0x70 (r OR 0x80)])
    @ [InB 0x71 (regs ((r OR 0x80) AND 0x7F))]\<rparr>)"
  using assms by (simp add: cmos_read_def inb_def outb_def clock_device_def Let_def del: append_assoc)

definition clock_reading :: "(u8 \<Rightarrow> u8) \<Rightarrow> RtcDateTime" where
  "clock_reading regs = \<lparr>year = ucast (regs 9), month = regs 8, day = regs 7, hour = regs 4,
     minute = regs 2, second = regs 0\<rparr>"

lemma rtc_read_raw_dev:
  assumes "clock_device (device s) regs"
  shows "\<exists>l. rtc_read_raw s = ((clock_reading regs, regs 0x0B), s\<lparr>io_log := l\<rparr>)"
  using assms by (simp add: rtc_read_raw_def cmos_read_dev Let_def clock_reading_def del: append_assoc) blast

lemma rtc_settle_dev:
  assumes "clock_device (device s) regs" and "regs 0x0A AND 0x80 = 0"
  shows "\<exists>l. rtc_settle s = Some (s\<lparr>io_log := l\<rparr>)"
  using assms by (subst rtc_settle.simps) (simp add: rtc_is_updating_def cmos_read_dev Let_def, blast)

lemma rtc_read_dev:
  assumes c: "clock_device (device s) regs" and u: "regs 0x0A AND 0x80 = 0"
  shows "\<exists>l. rtc_read_datetime s = Ok (rtc_decode (clock_reading regs) (regs 0x0B)) (s\<lparr>io_log := l\<rparr>)"
proof -
  obtain l1 where l1: "rtc_settle s = Some (s\<lparr>io_log := l1\<rparr>)" using rtc_settle_dev [OF c u] by blast
  obtain l2 where l2: "rtc_read_raw (s\<lparr>io_log := l1\<rparr>) = ((clock_reading regs, regs 0x0B), s\<lparr>io_log := l2\<rparr>)"
    using rtc_read_raw_dev [of "s\<lparr>io_log := l1\<rparr>" regs] c by auto
  obtain l3 where l3: "rtc_settle (s\<lparr>io_log := l2\<rparr>) = Some (s\<lparr>io_log := l3\<rparr>)"
    using rtc_settle_dev [of "s\<lparr>io_log := l2\<rparr>" regs] c u by auto
  obtain l4 where l4: "rtc_read_raw (s\<lparr>io_log := l3\<rparr>) = ((clock_reading regs, regs 0x0B), s\<lparr>io_log := l4\<rparr>)"
    using rtc_read_raw_dev [of "s\<lparr>io_log := l3\<rparr>" regs] c by auto
  have "rtc_agree (clock_reading regs) (s\<lparr>io_log := l2\<rparr>) = Some ((clock_reading regs, regs 0x0B), s\<lparr>io_log := l4\<rparr>)"
    by (subst rtc_agree.simps) (simp add: l3 l4 dt_equal_def)
  then show ?thesis by (auto simp: rtc_read_datetime_def l1 l2)
qed

lemma rtc_decode_encode:
  assumes "ye < 100" "mo < 100" "da < 100" "ho < 24" "mi < 100" "se < 100"
  shows "rtc_decode (encode_dt bcd h24 ye mo da ho mi se) (reg_b_of bcd h24) =
    \<lparr>year = of_nat (2000 + ye), month = of_nat mo, day = of_nat da, hour = of_nat ho,
     minute = of_nat mi, second = of_nat se\<rparr>"
proof -
  have b: "(reg_b_of bcd h24 AND 4 = 0) = bcd" "(reg_b_of bcd h24 AND 2 \<noteq> 0) = h24" for bcd h24
    by (cases bcd; cases h24; simp add: reg_b_of_def)+
  have y: "ucast (of_nat ye :: u8) = (of_nat ye :: u16)" using assms(1)
    by (simp add: word_unat_eq_iff unsigned_ucast_eq unat_of_nat take_bit_eq_mod)
  have m: "(of_nat ye :: u16) mod 100 = of_nat ye" using assms(1)
    by (simp add: word_unat_eq_iff unat_mod unat_of_nat)
  have n: "encode_num False n = of_nat n" for n by (simp add: encode_num_def)
  have i: "ucast (ucast (v :: u8) :: u16) = v" for v by (rule bit_word_eqI) (simp add: bit_simps)
  show ?thesis
    using assms by (cases bcd)
      (simp_all add: rtc_decode_def Let_def b encode_dt_def bcd_to_bin_encode decode_hour_encode y m n i)
qed

section \<open>Properties\<close>

text \<open>
  whatever the date and the length passed, \<^verbatim>\<open>rtc_format\<close> leaves everything behind the first
  \<^verbatim>\<open>out_len\<close> characters of the buffer untouched and, unless the length is zero, terminates the
  string within them.
\<close>

theorem rtc_format_bounds:
  assumes "unat n \<le> length out"
  shows "length (rtc_format dt out n) = length out \<and> drop (unat n) (rtc_format dt out n) = drop (unat n) out
    \<and> (0 < n \<longrightarrow> NUL \<in> set (take (unat n) (rtc_format dt out n)))"
  using rtc_format_cases [OF assms, of dt] by (cases "n = 0") (auto simp: rtc_format_def word_neq_0_conv)

definition example_dt :: RtcDateTime where
  "example_dt = \<lparr>year = 2025, month = 1, day = 31, hour = 9, minute = 5, second = 0\<rparr>"

theorem rtc_format_bounds_witness:
  "drop 8 (rtc_format (Some example_dt) (replicate 24 (CHR ''x'')) 8) = replicate 16 (CHR ''x'')"
  using rtc_format_bounds [of 8 "replicate 24 (CHR ''x'')" "Some example_dt"] by simp

text \<open>
  Given room for twenty characters, \<^verbatim>\<open>rtc_format\<close> writes the date as
  \<^verbatim>\<open>YYYY-MM-DD hh:mm:ss\<close>.
\<close>

theorem rtc_format_correct:
  assumes "19 < unat n" and "unat n \<le> length out"
  shows "cstr (rtc_format (Some dt) out n) = date_text dt"
proof -
  define st where "st = fmt_all dt out n"
  have "0 < unat n" and z: "n \<noteq> 0" using assms(1) by auto
  then have "fmt_step out n (date_text dt) st" using fmt_step_all assms(2) by (simp add: st_def)
  then have t: "fmt_text (date_text dt) st" and k: "fmt_ok out (unat n) st"
    using assms(1) by (auto simp: fmt_step_def)
  then have "rtc_format (Some dt) out n = (fst st)[length (date_text dt) := NUL]"
    using z by (simp add: rtc_format_Some st_def [symmetric] Let_def word_le_nat_alt fmt_ok_def fmt_text_def)
  also have "\<dots> = date_text dt @ NUL # drop (Suc (length (date_text dt))) (fst st)"
    using t k by (simp add: fmt_text_def fmt_ok_def upd_conv_take_nth_drop)
  finally show ?thesis using cstr_append_NUL [OF date_text_no_NUL] by simp
qed

theorem rtc_format_correct_witness:
  "cstr (rtc_format (Some example_dt) (replicate 24 NUL) 24) = ''2025-01-31 09:05:00''"
proof -
  have "cstr (rtc_format (Some example_dt) (replicate 24 NUL) 24) = date_text example_dt"
    using rtc_format_correct [of 24 "replicate 24 NUL" example_dt] by simp
  also have "\<dots> = ''2025-01-31 09:05:00''" by code_simp
  finally show ?thesis .
qed

text \<open>
  C37: decoding the registers of a clock that shows a date of this century gives that date, in each
  of the four formats the chip has: BCD or binary, with 24 hours or with 12 and a PM bit.
\<close>

theorem rtc_decode_roundtrip:
  assumes "ye < 100" "mo < 100" "da < 100" "ho < 24" "mi < 100" "se < 100"
  shows "rtc_decode (encode_dt bcd h24 ye mo da ho mi se) (reg_b_of bcd h24) =
    \<lparr>year = of_nat (2000 + ye), month = of_nat mo, day = of_nat da, hour = of_nat ho,
     minute = of_nat mi, second = of_nat se\<rparr>"
  using rtc_decode_encode [OF assms] .

theorem rtc_decode_roundtrip_witness:
  "rtc_decode (encode_dt True False 25 12 31 0 59 7) 0 =
     \<lparr>year = 2025, month = 12, day = 31, hour = 0, minute = 59, second = 7\<rparr>"
  using rtc_decode_roundtrip [of 25 12 31 0 59 7 True False] by (simp add: reg_b_of_def)

text \<open>
  On a clock chip that is not in an update cycle, \<^verbatim>\<open>rtc_read_datetime\<close> returns, and what it
  returns is the decoding of the chip's registers.
\<close>

theorem rtc_read_datetime_returns:
  assumes "clock_device (device s) regs" and "regs 0x0A AND 0x80 = 0"
  shows "\<exists>l. rtc_read_datetime s = Ok (rtc_decode (clock_reading regs) (regs 0x0B)) (s\<lparr>io_log := l\<rparr>)"
  using rtc_read_dev [OF assms] .

definition example_clock :: machine where
  "example_clock = null_machine\<lparr>in_b := \<lambda>l p. case rev l of OutB q r # _ \<Rightarrow>
     if r AND 0x7F = 0x0A then 0x26 else 0x11 | _ \<Rightarrow> 0\<rparr>"

theorem rtc_read_datetime_returns_witness:
  "\<exists>l. rtc_read_datetime \<lparr>io_log = [], device = example_clock, if_flag = True\<rparr> =
     Ok \<lparr>year = 2011, month = 11, day = 11, hour = 11, minute = 11, second = 11\<rparr>
       \<lparr>io_log = l, device = example_clock, if_flag = True\<rparr>"
proof -
  let ?regs = "\<lambda>r :: u8. if r = 0x0A then 0x26 else (0x11 :: u8)"
  have "clock_device example_clock ?regs" by (simp add: clock_device_def example_clock_def)
  moreover have "rtc_decode (clock_reading ?regs) (?regs 0x0B) =
      \<lparr>year = 2011, month = 11, day = 11, hour = 11, minute = 11, second = 11\<rparr>"
    by (simp add: rtc_decode_def clock_reading_def bcd_to_bin_def decode_hour_def)
  ultimately show ?thesis
    using rtc_read_datetime_returns [of "\<lparr>io_log = [], device = example_clock, if_flag = True\<rparr>" ?regs]
    by simp
qed

end
