(* ===== verification/Shell.thy ===== *)
theory Shell
  imports Panic Rtc
begin

text \<open>
  The shell, \<^verbatim>\<open>kernel/shell.c\<close>: a line editor over the keyboard buffer, a ring of the last commands
  and the commands themselves. The trap \<^verbatim>\<open>int 0x20\<close> and the linked-in images are parameters of the
  operations that use them. Clearing and flushing the screen have no effect on the sequence of printed
  characters, which is what the state records of the display.
\<close>

unbundle bit_operations_syntax

section \<open>State\<close>

record shell = pan +
  input_buf :: string
  input_len :: nat
  input_overflow :: bool
  history :: "string list"
  history_count :: nat
  history_cursor :: int
  watch_irq :: bool
  watch_sched :: bool

abbreviation (input) INPUT_MAX :: nat where "INPUT_MAX \<equiv> 256"
abbreviation (input) HISTORY_MAX :: nat where "HISTORY_MAX \<equiv> 16"
abbreviation (input) BS :: char where "BS \<equiv> CHR 0x08"

section \<open>Parsing\<close>

text \<open>A \<^verbatim>\<open>const char*\<close> into a buffer is the rest of the buffer from there.\<close>

fun str_prefix :: "string \<Rightarrow> string \<Rightarrow> bool" where
  "str_prefix s [] = True"
| "str_prefix [] (p # ps) = False"
| "str_prefix (c # cs) (p # ps) = (if c \<noteq> p then False else str_prefix cs ps)"

fun skip_spaces :: "string \<Rightarrow> string" where
  "skip_spaces [] = []"
| "skip_spaces (c # cs) = (if c = CHR '' '' then skip_spaces cs else c # cs)"

fun parse_digits :: "string \<Rightarrow> u64 \<Rightarrow> bool \<Rightarrow> u64 \<times> bool" where
  "parse_digits [] v some = (v, some)"
| "parse_digits (c # cs) v some =
     (if 48 \<le> (of_char c :: nat) \<and> (of_char c :: nat) \<le> 57
      then parse_digits cs (v * 10 + of_nat (of_char c - 48)) True else (v, some))"

definition parse_u64 :: "string \<Rightarrow> u64 option" where
  "parse_u64 s =
     (let s = skip_spaces s
      in if cstr s = [] then None
         else let (v, some) = parse_digits s 0 False in if some then Some v else None)"

section \<open>Line and history\<close>

definition time_string :: "RtcDateTime \<Rightarrow> string" where
  "time_string dt = rtc_format (Some dt) (replicate 24 NUL) 24"

definition print_prompt :: "'a shell_scheme \<Rightarrow> (unit, 'a shell_scheme) outcome" where
  "print_prompt s = kbind (rtc_read_datetime s) (\<lambda>dt s.
     Ok () (print ''sam> '' (print ''] '' (print (time_string dt) (print ''['' s)))))"

fun erase_chars :: "nat \<Rightarrow> 'a shell_scheme \<Rightarrow> 'a shell_scheme" where
  "erase_chars 0 s = s"
| "erase_chars (Suc n) s = erase_chars n ((print [BS, CHR '' '', BS] s)\<lparr>input_len := n\<rparr>)"

definition clear_typed_line :: "'a shell_scheme \<Rightarrow> 'a shell_scheme" where
  "clear_typed_line s =
     (let s1 = erase_chars (input_len s) s in s1\<lparr>input_buf := (input_buf s1)[0 := NUL]\<rparr>)"

definition history_push :: "string \<Rightarrow> 'a shell_scheme \<Rightarrow> 'a shell_scheme" where
  "history_push cmd s =
     (if cstr cmd = [] then s
      else if history_count s > 0 \<and> kstrcmp (history s ! ((history_count s - 1) mod HISTORY_MAX)) cmd = 0 then s
      else let idx = history_count s mod HISTORY_MAX;
               (line, i) = copy_bounded (INPUT_MAX - 1) cmd (history s ! idx, 0)
           in s\<lparr>history := (history s)[idx := line[i := NUL]], history_count := history_count s + 1\<rparr>)"

fun apply_chars :: "string \<Rightarrow> 'a shell_scheme \<Rightarrow> 'a shell_scheme" where
  "apply_chars [] s = s"
| "apply_chars (c # cs) s =
     (if c \<noteq> NUL \<and> input_len s < INPUT_MAX - 1
      then apply_chars cs (print [c, NUL]
             (s\<lparr>input_buf := (input_buf s)[input_len s := c], input_len := input_len s + 1\<rparr>))
      else s)"

definition history_apply :: "int \<Rightarrow> 'a shell_scheme \<Rightarrow> 'a shell_scheme" where
  "history_apply absolute_index s =
     (let oldest = (if history_count s > HISTORY_MAX then history_count s - HISTORY_MAX else 0)
      in if absolute_index < int oldest \<or> absolute_index \<ge> int (history_count s) then s
         else let idx = nat absolute_index mod HISTORY_MAX;
                  s1 = apply_chars (history s ! idx) (clear_typed_line s)
              in s1\<lparr>input_buf := (input_buf s1)[input_len s1 := NUL]\<rparr>)"

definition handle_history_up :: "'a shell_scheme \<Rightarrow> 'a shell_scheme" where
  "handle_history_up s =
     (if history_count s = 0 then s
      else let s1 = (if history_cursor s < 0 then s\<lparr>history_cursor := int (history_count s) - 1\<rparr>
                     else if history_cursor s > 0 then s\<lparr>history_cursor := history_cursor s - 1\<rparr> else s)
           in history_apply (history_cursor s1) s1)"

definition handle_history_down :: "'a shell_scheme \<Rightarrow> 'a shell_scheme" where
  "handle_history_down s =
     (if history_count s = 0 \<or> history_cursor s < 0 then s
      else let s1 = s\<lparr>history_cursor := history_cursor s + 1\<rparr>
           in if history_cursor s1 \<ge> int (history_count s1)
              then clear_typed_line (s1\<lparr>history_cursor := - 1\<rparr>)
              else history_apply (history_cursor s1) s1)"

section \<open>Commands\<close>

definition print_irq_stats :: "'a shell_scheme \<Rightarrow> 'a shell_scheme" where
  "print_irq_stats s =
     (let st = irq_get_stats s;
          s1 = print (irq_controller_name s) (print ''irqstat: backend='' s);
          s2 = print_dec (timer_irq_count st) (print '' timer='' s1);
          s3 = print_dec (keyboard_irq_count st) (print '' keyboard='' s2);
          s4 = print_dec (spurious_irq_count st) (print '' spurious='' s3);
          s5 = print_dec (eoi_count st) (print '' eoi='' s4);
          s6 = print_dec (apic_route_failures st) (print '' route_fail='' s5);
          s7 = print_dec (health_faults st) (print '' health_fault='' s6)
      in print [NL] s7)"

definition uptime_seconds :: "u64 \<Rightarrow> u32 \<Rightarrow> u64" where
  "uptime_seconds t hz = (if hz \<noteq> 0 then t div ucast hz else 0)"

definition print_status :: "'a shell_scheme \<Rightarrow> 'a shell_scheme" where
  "print_status s =
     (let (t, s1) = timer_get_ticks s;
          up_s = uptime_seconds t (timer_get_frequency s1);
          s2 = print (irq_controller_name s1) (print ''status: irq='' s1);
          s3 = print_dec t (print '' ticks='' s2);
          s4 = print_dec up_s (print '' up_s='' s3);
          s5 = print_dec (pmm_get_free_pages s4) (print '' free_pages='' s4);
          s6 = print_dec (process_count_active s5) (print '' procs='' s5);
          s7 = print_dec (task_get_switch_count s6) (print '' switches='' s6)
      in print [NL] s7)"

definition run_watch_if_enabled :: "'a shell_scheme \<Rightarrow> 'a shell_scheme" where
  "run_watch_if_enabled s =
     (let s1 = (if watch_irq s then print_irq_stats s else s)
      in if watch_sched s1 then task_print_stats s1 else s1)"

definition cmd_spawn :: "u64 \<times> u64 \<Rightarrow> u64 \<times> u64 \<Rightarrow> int \<Rightarrow> string \<Rightarrow> 'a shell_scheme
    \<Rightarrow> (unit, 'a shell_scheme) outcome" where
  "cmd_spawn hello burn img label s =
     kbind (process_spawn_builtin hello burn img s) (\<lambda>q s.
       let s1 = print label s
       in Ok () (if q < 0 then print (''err'' @ [NL]) s1 else print [NL] (print_dec (u64_of_int q) s1)))"

text \<open>The arguments of \<^verbatim>\<open>kill\<close>: the process and the exit code, 137 if none is given.\<close>

definition kill_args :: "string \<Rightarrow> (u64 \<times> u64) option" where
  "kill_args buf =
     (let rest = skip_spaces (drop 4 buf)
      in case parse_u64 rest of
           None \<Rightarrow> None
         | Some q \<Rightarrow>
             let rest = dropWhile (\<lambda>c. c \<noteq> NUL \<and> c \<noteq> CHR '' '') rest;
                 code = (case rest of
                           [] \<Rightarrow> 137
                         | c # _ \<Rightarrow> if c = CHR '' '' then (case parse_u64 rest of None \<Rightarrow> 137 | Some v \<Rightarrow> v)
                                    else 137)
             in Some (q, code))"

definition cmd_kill :: "('a shell_scheme \<Rightarrow> (unit, 'a shell_scheme) outcome) \<Rightarrow> 'a shell_scheme
    \<Rightarrow> (unit, 'a shell_scheme) outcome" where
  "cmd_kill int20 s =
     (case kill_args (input_buf s) of
        None \<Rightarrow> Ok () (print (''kill: usage kill <pid> [code]'' @ [NL]) s)
      | Some (q, code) \<Rightarrow>
          kbind (process_kill int20 (int_of_u64 q) (int_of_u64 code) s) (\<lambda>rc s.
            Ok () (if rc < 0 then print (''kill: no such pid'' @ [NL]) s
                   else if rc > 0 then print (''kill: already exited'' @ [NL]) s
                   else print [NL] (print_dec q (print ''kill: sent to pid '' s)))))"

fun ok_state :: "('b, 's) outcome \<Rightarrow> 's option" where
  "ok_state (Ok a s) = Some s"
| "ok_state r = None"

partial_function (option) wait_loop ::
  "('a shell_scheme \<Rightarrow> (unit, 'a shell_scheme) outcome) \<Rightarrow> u64 \<Rightarrow> 'a shell_scheme
     \<Rightarrow> (unit, 'a shell_scheme) outcome option" where
  "wait_loop int20 q s =
     (let s1 = process_reap_deferred s;
          ((rc, code), s2) = process_wait_poll (int_of_u64 q) s1
      in if rc < 0 then Some (Ok () (print (''wait: no such pid'' @ [NL]) s2))
         else if rc > 0
         then Some (Ok () (print [NL] (print_dec (u64_of_int (the code))
                (print '' exit='' (print_dec q (print ''wait: pid '' s2))))))
         else case ok_state (task_yield int20 s2) of
                None \<Rightarrow> Some (task_yield int20 s2)
              | Some s3 \<Rightarrow> wait_loop int20 q s3)"

definition cmd_wait :: "('a shell_scheme \<Rightarrow> (unit, 'a shell_scheme) outcome) \<Rightarrow> 'a shell_scheme
    \<Rightarrow> (unit, 'a shell_scheme) outcome" where
  "cmd_wait int20 s =
     (case parse_u64 (skip_spaces (drop 4 (input_buf s))) of
        None \<Rightarrow> Ok () (print (''wait: usage wait <pid>'' @ [NL]) s)
      | Some q \<Rightarrow> (case wait_loop int20 q s of None \<Rightarrow> Hang | Some r \<Rightarrow> r))"

definition cmd_time :: "'a shell_scheme \<Rightarrow> (unit, 'a shell_scheme) outcome" where
  "cmd_time s = kbind (rtc_read_datetime s) (\<lambda>dt s.
     Ok () (print [NL] (print (time_string dt) (print ''time: '' s))))"

definition cmd_dmesg :: "'a shell_scheme \<Rightarrow> 'a shell_scheme" where
  "cmd_dmesg s =
     (let n = (case parse_u64 (skip_spaces (drop 10 (input_buf s))) of None \<Rightarrow> 32 | Some v \<Rightarrow> v)
      in klog_dump_recent (ucast n) s)"

definition cmd_watch :: "'a shell_scheme \<Rightarrow> 'a shell_scheme" where
  "cmd_watch s =
     (let rest = skip_spaces (drop 5 (input_buf s)); word = (\<lambda>b. if b then ''on'' @ [NL] else ''off'' @ [NL])
      in if kstrcmp rest ''irq'' = 0
         then let s1 = s\<lparr>watch_irq := \<not> watch_irq s\<rparr> in print (word (watch_irq s1)) (print ''watch irq: '' s1)
         else if kstrcmp rest ''sched'' = 0
         then let s1 = s\<lparr>watch_sched := \<not> watch_sched s\<rparr> in print (word (watch_sched s1)) (print ''watch sched: '' s1)
         else print (''watch: usage watch irq|sched'' @ [NL]) s)"

definition cmd_hw :: "'a shell_scheme \<Rightarrow> 'a shell_scheme" where
  "cmd_hw s =
     (let madt = acpi_get_madt_info s
      in if \<not> madt_present madt then print (''hw: ACPI MADT unavailable'' @ [NL]) s
         else let s1 = print_hex (ucast (madt_lapic_addr madt)) (print ''hw: LAPIC='' s);
                  s2 = print_hex (ucast (madt_ioapic_addr madt)) (print '' IOAPIC='' s1);
                  s3 = print_dec (ucast (madt_gsi_base madt)) (print '' GSI_BASE='' s2);
                  s4 = print_dec (ucast (cpu_lapic_count madt)) (print '' CPUs='' s3)
              in print [NL] s4)"

text \<open>The chain of comparisons in \<^verbatim>\<open>process_command\<close>, in its order. The machine that has been shut down
  halts, which is the outcome \<open>Panic\<close> with this reason.\<close>

definition help_text :: string where
  "help_text = ''commands: help clear ticks sched schedcheck about shutdown spawnh spawnb time irq irqstat clocksrc hw ps kill wait memstat uptime status dmesg-lite watch''"

definition run_command ::
  "u64 \<times> u64 \<Rightarrow> u64 \<times> u64 \<Rightarrow> ('a shell_scheme \<Rightarrow> (unit, 'a shell_scheme) outcome) \<Rightarrow> 'a shell_scheme
     \<Rightarrow> (unit, 'a shell_scheme) outcome" where
  "run_command hello burn int20 s =
     (let is = (\<lambda>cmd. kstrcmp (input_buf s) cmd = 0); pre = (\<lambda>cmd. str_prefix (input_buf s) cmd)
      in if is ''help'' then Ok () (print (help_text @ [NL]) s)
         else if is ''clear'' then Ok () s
         else if is ''ticks''
         then let (t, s1) = timer_get_ticks s in Ok () (print [NL] (print_dec t (print ''ticks: '' s1)))
         else if is ''about'' then Ok () (print (''SamOS built from scratch'' @ [NL]) s)
         else if is ''sched'' then Ok () (task_print_stats s)
         else if is ''schedcheck''
         then Ok () (print [NL] (print (if task_self_check s then ''ok'' else ''fail'') (print ''schedcheck: '' s)))
         else if is ''spawnh'' then cmd_spawn hello burn 0 ''spawn hello pid='' s
         else if is ''spawnb'' then cmd_spawn hello burn 1 ''spawn burn pid='' s
         else if is ''ps'' then Ok () (process_dump_table s)
         else if pre ''kill'' then cmd_kill int20 s
         else if pre ''wait'' then cmd_wait int20 s
         else if is ''time'' then cmd_time s
         else if is ''irq'' then Ok () (irq_dump_routes s)
         else if is ''irqstat'' then Ok () (print_irq_stats s)
         else if is ''clocksrc''
         then Ok () (print (''Hz) + CMOS RTC'' @ [NL])
                (print_dec (ucast (timer_get_frequency s)) (print ''clock source: PIT('' s)))
         else if is ''memstat''
         then Ok () (print [NL] (print_dec (pmm_get_total_pages s) (print '' total_pages=''
                (print_dec (pmm_get_free_pages s) (print ''mem: free_pages='' s)))))
         else if is ''uptime''
         then let (t, s1) = timer_get_ticks s
              in Ok () (print ('' s'' @ [NL]) (print_dec (uptime_seconds t (timer_get_frequency s1)) (print ''uptime: '' s1)))
         else if is ''status'' then Ok () (print_status s)
         else if pre ''dmesg-lite'' then Ok () (cmd_dmesg s)
         else if pre ''watch'' then Ok () (cmd_watch s)
         else if is ''hw'' then Ok () (cmd_hw s)
         else if is ''shutdown''
         then Panic ''shutdown'' (shutdown (print (''SamOS shutting down'' @ [NL]) s))
         else if is ''paniclast''
         then Ok () (print [NL] (print (panic_get_last s) (print ''paniclast: '' s)))
         else if input_len s > 0 then Ok () (print [NL] (print (input_buf s) (print ''unknown: '' s)))
         else Ok () s)"

definition process_command ::
  "u64 \<times> u64 \<Rightarrow> u64 \<times> u64 \<Rightarrow> ('a shell_scheme \<Rightarrow> (unit, 'a shell_scheme) outcome) \<Rightarrow> 'a shell_scheme
     \<Rightarrow> (unit, 'a shell_scheme) outcome" where
  "process_command hello burn int20 s =
     (let s1 = s\<lparr>input_buf := (input_buf s)[input_len s := NUL]\<rparr>;
          s2 = (if input_len s1 > 0 then history_push (input_buf s1) s1 else s1)
      in kbind (run_command hello burn int20 (s2\<lparr>history_cursor := - 1\<rparr>)) (\<lambda>_ s.
           print_prompt ((run_watch_if_enabled (process_reap_deferred s))\<lparr>input_len := 0, input_overflow := False\<rparr>)))"

section \<open>The task\<close>

definition type_char :: "char \<Rightarrow> 'a shell_scheme \<Rightarrow> (unit, 'a shell_scheme) outcome" where
  "type_char c s =
     (if input_len s < INPUT_MAX - 1
      then Ok () (print [c, NUL] (s\<lparr>input_buf := ((input_buf s)[input_len s := c])[input_len s + 1 := NUL],
                                    input_len := input_len s + 1\<rparr>))
      else if \<not> input_overflow s
      then kbind (print_prompt (print ([NL] @ ''[input buffer full]'' @ [NL]) (s\<lparr>input_overflow := True\<rparr>))) (\<lambda>_ s.
             Ok () (fold (\<lambda>i t. print [input_buf t ! i, NUL] t) [0..<input_len s] s))
      else Ok () s)"

definition shell_char ::
  "u64 \<times> u64 \<Rightarrow> u64 \<times> u64 \<Rightarrow> ('a shell_scheme \<Rightarrow> (unit, 'a shell_scheme) outcome) \<Rightarrow> char \<Rightarrow> 'a shell_scheme
     \<Rightarrow> (unit, 'a shell_scheme) outcome" where
  "shell_char hello burn int20 c s =
     (if c = NL \<or> c = CR then process_command hello burn int20 (print [NL] s)
      else if c = BS
      then Ok () (if input_len s > 0
                  then print [BS, CHR '' '', BS]
                         (s\<lparr>input_len := input_len s - 1, input_buf := (input_buf s)[input_len s - 1 := NUL]\<rparr>)
                  else s)
      else if c = KB_EVENT_UP then Ok () (handle_history_up s)
      else if c = KB_EVENT_DOWN then Ok () (handle_history_down s)
      else if 32 \<le> schar c \<and> schar c \<le> 126 then type_char c s
      else Ok () s)"

partial_function (option) shell_drain ::
  "u64 \<times> u64 \<Rightarrow> u64 \<times> u64 \<Rightarrow> ('a shell_scheme \<Rightarrow> (unit, 'a shell_scheme) outcome) \<Rightarrow> 'a shell_scheme
     \<Rightarrow> (unit, 'a shell_scheme) outcome option" where
  "shell_drain hello burn int20 s =
     (let (c, s1) = kb_getchar s
      in if c = NUL then Some (Ok () s1)
         else case ok_state (shell_char hello burn int20 c s1) of
                None \<Rightarrow> Some (shell_char hello burn int20 c s1)
              | Some s2 \<Rightarrow> shell_drain hello burn int20 s2)"

text \<open>One round of the endless loop of \<^verbatim>\<open>shell_task\<close>, and the task for a number of rounds.\<close>

definition shell_round ::
  "u64 \<times> u64 \<Rightarrow> u64 \<times> u64 \<Rightarrow> ('a shell_scheme \<Rightarrow> (unit, 'a shell_scheme) outcome) \<Rightarrow> 'a shell_scheme
     \<Rightarrow> (unit, 'a shell_scheme) outcome" where
  "shell_round hello burn int20 s =
     kbind (task_sleep int20 s) (\<lambda>_ s. case shell_drain hello burn int20 s of None \<Rightarrow> Hang | Some r \<Rightarrow> r)"

fun shell_rounds ::
  "nat \<Rightarrow> u64 \<times> u64 \<Rightarrow> u64 \<times> u64 \<Rightarrow> ('a shell_scheme \<Rightarrow> (unit, 'a shell_scheme) outcome) \<Rightarrow> 'a shell_scheme
     \<Rightarrow> (unit, 'a shell_scheme) outcome" where
  "shell_rounds 0 hello burn int20 s = Ok () s"
| "shell_rounds (Suc n) hello burn int20 s =
     kbind (shell_round hello burn int20 s) (\<lambda>_ s. shell_rounds n hello burn int20 s)"

definition shell_task ::
  "nat \<Rightarrow> u64 \<times> u64 \<Rightarrow> u64 \<times> u64 \<Rightarrow> ('a shell_scheme \<Rightarrow> (unit, 'a shell_scheme) outcome) \<Rightarrow> 'a shell_scheme
     \<Rightarrow> (unit, 'a shell_scheme) outcome" where
  "shell_task n hello burn int20 s = kbind (print_prompt s) (\<lambda>_ s. shell_rounds n hello burn int20 s)"

section \<open>The line editor\<close>

text \<open>
  The types of the statics and what the code keeps true of them: the buffers have their sizes, the typed
  characters are a terminated string in the input buffer, and the cursor is in the history or -1.
\<close>

abbreviation (input) typed_line :: "'a shell_scheme \<Rightarrow> string" where
  "typed_line s \<equiv> take (input_len s) (input_buf s)"

definition shell_wf :: "'a shell_scheme \<Rightarrow> bool" where
  "shell_wf s \<longleftrightarrow> length (input_buf s) = INPUT_MAX \<and> input_len s < INPUT_MAX \<and>
     NUL \<notin> set (typed_line s) \<and> input_buf s ! input_len s = NUL \<and>
     length (history s) = HISTORY_MAX \<and> (\<forall>h \<in> set (history s). length h = INPUT_MAX \<and> NUL \<in> set h) \<and>
     - 1 \<le> history_cursor s \<and> history_cursor s < int (history_count s)"

text \<open>Operations that leave the statics of the shell alone.\<close>

definition same_shell :: "'a shell_scheme \<Rightarrow> 'a shell_scheme \<Rightarrow> bool" where
  "same_shell s s' \<longleftrightarrow> input_buf s' = input_buf s \<and> input_len s' = input_len s \<and> history s' = history s \<and>
     history_count s' = history_count s \<and> history_cursor s' = history_cursor s"

lemma same_shell_print [simp]: "same_shell s (print t s')  = same_shell s s'"
  by (simp add: same_shell_def print_def)

lemma wf_same: "shell_wf s \<Longrightarrow> same_shell s s' \<Longrightarrow> shell_wf s' \<and> typed_line s' = typed_line s"
  by (simp add: shell_wf_def same_shell_def)

lemma cmos_read_log: "\<exists>l. snd (cmos_read r s) = s\<lparr>io_log := l\<rparr>"
  by (simp add: cmos_read_def inb_def outb_def Let_def del: append_assoc) blast

lemma rtc_is_updating_log: "\<exists>l. snd (rtc_is_updating s) = s\<lparr>io_log := l\<rparr>"
  using cmos_read_log [of "0x0A" s] by (simp add: rtc_is_updating_def Let_def case_prod_beta)

lemma rtc_read_raw_log: "\<exists>l. snd (rtc_read_raw s) = s\<lparr>io_log := l\<rparr>"
  by (simp add: rtc_read_raw_def cmos_read_def inb_def outb_def Let_def del: append_assoc) blast

lemma rtc_settle_log:
  assumes "rtc_settle s = Some s'"
  shows "\<exists>l. s' = s\<lparr>io_log := l\<rparr>"
proof (rule rtc_settle.raw_induct [where P = "\<lambda>s y. \<exists>l. y = s\<lparr>io_log := l\<rparr>", OF _ assms])
  fix f :: "'a io_scheme \<Rightarrow> 'a io_scheme option" and s y :: "'a io_scheme"
  assume IH: "\<And>s y. f s = Some y \<Longrightarrow> \<exists>l. y = s\<lparr>io_log := l\<rparr>"
    and r: "(let (u, s1) = rtc_is_updating s in if u then f s1 else Some s1) = Some y"
  obtain l where l: "snd (rtc_is_updating s) = s\<lparr>io_log := l\<rparr>" using rtc_is_updating_log by blast
  show "\<exists>l. y = s\<lparr>io_log := l\<rparr>"
    using r IH [of "s\<lparr>io_log := l\<rparr>" y] l by (cases "fst (rtc_is_updating s)") (auto simp: case_prod_beta)
qed

lemma rtc_agree_log:
  assumes "rtc_agree p s = Some r"
  shows "\<exists>l. snd r = s\<lparr>io_log := l\<rparr>"
proof (rule rtc_agree.raw_induct [where P = "\<lambda>p s y. \<exists>l. snd y = s\<lparr>io_log := l\<rparr>", OF _ assms])
  fix f :: "RtcDateTime \<Rightarrow> 'a io_scheme \<Rightarrow> ((RtcDateTime \<times> u8) \<times> 'a io_scheme) option"
    and p and s :: "'a io_scheme" and y
  assume IH: "\<And>p s y. f p s = Some y \<Longrightarrow> \<exists>l. snd y = s\<lparr>io_log := l\<rparr>"
    and r: "Option.bind (rtc_settle s) (\<lambda>s1. let ((cur, reg_b), s2) = rtc_read_raw s1
       in if dt_equal p cur then Some ((cur, reg_b), s2) else f (copy_dt p cur) s2) = Some y"
  obtain s1 where s1: "rtc_settle s = Some s1" using r by (auto simp: bind_eq_Some_conv)
  obtain l1 where l1: "s1 = s\<lparr>io_log := l1\<rparr>" using rtc_settle_log [OF s1] by blast
  obtain l2 where l2: "snd (rtc_read_raw s1) = s\<lparr>io_log := l2\<rparr>" using rtc_read_raw_log [of s1] l1 by auto
  show "\<exists>l. snd y = s\<lparr>io_log := l\<rparr>"
    using r s1 l2 IH [of _ "s\<lparr>io_log := l2\<rparr>" y] by (fastforce simp: case_prod_beta split: if_splits)
qed

lemma rtc_read_datetime_log:
  assumes "rtc_read_datetime s = Ok dt s'"
  shows "\<exists>l. s' = s\<lparr>io_log := l\<rparr>"
proof -
  obtain s1 where s1: "rtc_settle s = Some s1" using assms by (auto simp: rtc_read_datetime_def split: option.splits)
  obtain l1 where l1: "s1 = s\<lparr>io_log := l1\<rparr>" using rtc_settle_log [OF s1] by blast
  obtain l2 where l2: "snd (rtc_read_raw s1) = s\<lparr>io_log := l2\<rparr>" using rtc_read_raw_log [of s1] l1 by auto
  show ?thesis using assms s1 l2 rtc_agree_log
    by (fastforce simp: rtc_read_datetime_def Let_def case_prod_beta split: option.splits)
qed

lemma print_prompt_same:
  assumes "print_prompt s = Ok u s'"
  shows "same_shell s s'"
proof -
  obtain dt s1 where r: "rtc_read_datetime s = Ok dt s1"
    and s': "s' = print ''sam> '' (print ''] '' (print (time_string dt) (print ''['' s1)))"
    using assms by (cases "rtc_read_datetime s") (auto simp: print_prompt_def)
  obtain l where "s1 = s\<lparr>io_log := l\<rparr>" using rtc_read_datetime_log [OF r] by blast
  then have "same_shell s s1" by (simp add: same_shell_def)
  then show ?thesis unfolding s' by simp
qed

lemma erase_chars_shell:
  "input_buf (erase_chars n s) = input_buf s \<and> history (erase_chars n s) = history s \<and>
   history_count (erase_chars n s) = history_count s \<and> history_cursor (erase_chars n s) = history_cursor s \<and>
   input_len (erase_chars n s) = (if n = 0 then input_len s else 0)"
  by (induction n arbitrary: s) (auto simp: print_def)

lemma clear_typed_line_wf:
  assumes "shell_wf s"
  shows "shell_wf (clear_typed_line s) \<and> input_len (clear_typed_line s) = 0 \<and> history (clear_typed_line s) = history s \<and>
    history_count (clear_typed_line s) = history_count s \<and> history_cursor (clear_typed_line s) = history_cursor s"
  using assms erase_chars_shell [of "input_len s" s] by (auto simp: clear_typed_line_def Let_def shell_wf_def)

lemma apply_chars_line:
  assumes "length (input_buf s) = INPUT_MAX" and "input_len s + length (takeWhile (\<lambda>c. c \<noteq> NUL) cs) < INPUT_MAX"
  shows "length (input_buf (apply_chars cs s)) = INPUT_MAX \<and>
    input_len (apply_chars cs s) = input_len s + length (takeWhile (\<lambda>c. c \<noteq> NUL) cs) \<and>
    typed_line (apply_chars cs s) = typed_line s @ takeWhile (\<lambda>c. c \<noteq> NUL) cs \<and>
    history (apply_chars cs s) = history s \<and> history_count (apply_chars cs s) = history_count s \<and>
    history_cursor (apply_chars cs s) = history_cursor s"
  using assms
proof (induction cs arbitrary: s)
  case (Cons c cs)
  show ?case
  proof (cases "c = NUL")
    case False
    let ?s = "print [c, NUL] (s\<lparr>input_buf := (input_buf s)[input_len s := c], input_len := input_len s + 1\<rparr>)"
    have "typed_line ?s = typed_line s @ [c]"
      using Cons.prems False by (simp add: print_def take_Suc_conv_app_nth)
    then show ?thesis using Cons.IH [of ?s] Cons.prems False by (auto simp: print_def)
  qed (simp add: Cons.prems)
qed simp

text \<open>The line that an index of the history recalls.\<close>

definition recall :: "int \<Rightarrow> 'a shell_scheme \<Rightarrow> string" where
  "recall k s =
     (if int (history_count s) - int HISTORY_MAX \<le> k \<and> 0 \<le> k \<and> k < int (history_count s)
      then cstr (history s ! (nat k mod HISTORY_MAX)) else typed_line s)"

lemma history_apply_wf:
  assumes "shell_wf s"
  shows "shell_wf (history_apply k s) \<and> typed_line (history_apply k s) = recall k s"
proof (cases "int (history_count s) - int HISTORY_MAX \<le> k \<and> 0 \<le> k \<and> k < int (history_count s)")
  case True
  let ?h = "history s ! (nat k mod HISTORY_MAX)" and ?c = "clear_typed_line s"
  let ?s = "apply_chars ?h ?c"
  have "?h \<in> set (history s)" using assms by (intro nth_mem) (simp add: shell_wf_def)
  then have h: "length ?h = INPUT_MAX" "NUL \<in> set ?h" using assms by (auto simp: shell_wf_def)
  then have "takeWhile (\<lambda>c. c \<noteq> NUL) ?h \<noteq> ?h" using takeWhile_eq_all_conv [of "\<lambda>c. c \<noteq> NUL" ?h] by auto
  then have tw: "length (takeWhile (\<lambda>c. c \<noteq> NUL) ?h) < INPUT_MAX"
    using h(1) takeWhile_eq_take [of "\<lambda>c. c \<noteq> NUL" ?h] by (metis not_less take_all)
  note c = clear_typed_line_wf [OF assms]
  have b: "length (input_buf ?c) = INPUT_MAX" using c by (simp add: shell_wf_def)
  let ?t = "takeWhile (\<lambda>c. c \<noteq> NUL) ?h"
  have len0: "input_len ?c = 0" using c by blast
  have "input_len ?c + length ?t < INPUT_MAX" using tw len0 by simp
  note a = apply_chars_line [OF b this]
  have a1: "length (input_buf ?s) = INPUT_MAX" "input_len ?s = length ?t" "take (length ?t) (input_buf ?s) = ?t"
    "history ?s = history s" "history_count ?s = history_count s" "history_cursor ?s = history_cursor s"
    using a c len0 by auto
  have hist: "history_apply k s = ?s\<lparr>input_buf := (input_buf ?s)[length ?t := NUL]\<rparr>"
    using True a1(2) by (auto simp: history_apply_def Let_def)
  have line: "typed_line (history_apply k s) = ?t" unfolding hist using a1 by simp
  have "NUL \<notin> set ?t" by (auto dest: set_takeWhileD)
  then have "shell_wf (history_apply k s)"
    using line a1 tw assms unfolding hist shell_wf_def by simp
  moreover have "typed_line (history_apply k s) = cstr ?h" using line by (simp add: cstr_def)
  ultimately show ?thesis using True by (simp add: recall_def)
next
  case False
  then have "history_apply k s = s" by (auto simp: history_apply_def Let_def split: if_splits)
  then show ?thesis using assms False by (auto simp: recall_def)
qed

lemma recall_cursor [simp]: "recall k (s\<lparr>history_cursor := c\<rparr>) = recall k s"
  by (simp add: recall_def)

lemma history_up_wf:
  assumes "shell_wf s"
  shows "shell_wf (handle_history_up s) \<and> typed_line (handle_history_up s) =
    (if history_count s = 0 then typed_line s
     else recall (if history_cursor s < 0 then int (history_count s) - 1 else max 0 (history_cursor s - 1)) s)"
proof (cases "history_count s = 0")
  case False
  define k where "k = (if history_cursor s < 0 then int (history_count s) - 1 else max 0 (history_cursor s - 1))"
  have w: "shell_wf (s\<lparr>history_cursor := k\<rparr>)" using assms False by (simp add: shell_wf_def k_def max_def)
  have id: "s\<lparr>history_cursor := history_cursor s\<rparr> = s" by simp
  consider "history_cursor s < 0" | "history_cursor s = 0" | "0 < history_cursor s" by linarith
  then have "handle_history_up s = history_apply k (s\<lparr>history_cursor := k\<rparr>)"
  proof cases
    case 2
    have "history_apply 0 (s\<lparr>history_cursor := 0\<rparr>) = history_apply 0 s" using id 2 by metis
    then show ?thesis using False 2 by (simp add: handle_history_up_def Let_def k_def)
  qed (use False in \<open>simp_all add: handle_history_up_def Let_def k_def\<close>)
  then show ?thesis using history_apply_wf [OF w, of k] False unfolding k_def [symmetric] by (simp only: recall_cursor if_False)
qed (simp add: assms handle_history_up_def)

lemma history_down_wf:
  assumes "shell_wf s"
  shows "shell_wf (handle_history_down s) \<and> typed_line (handle_history_down s) =
    (if history_cursor s < 0 then typed_line s
     else if history_cursor s + 1 = int (history_count s) then [] else recall (history_cursor s + 1) s)"
proof (cases "history_cursor s < 0")
  case False
  then have n: "history_count s \<noteq> 0" "history_cursor s < int (history_count s)" using assms by (auto simp: shell_wf_def)
  show ?thesis
  proof (cases "history_cursor s + 1 = int (history_count s)")
    case True
    have "shell_wf (s\<lparr>history_cursor := - 1\<rparr>)" using assms by (simp add: shell_wf_def)
    note clear_typed_line_wf [OF this]
    then show ?thesis using True False n by (simp add: handle_history_down_def Let_def)
  next
    case eq: False
    have "shell_wf (s\<lparr>history_cursor := history_cursor s + 1\<rparr>)" using assms n eq False by (simp add: shell_wf_def)
    moreover have "handle_history_down s = history_apply (history_cursor s + 1) (s\<lparr>history_cursor := history_cursor s + 1\<rparr>)"
      using eq False n by (simp add: handle_history_down_def Let_def)
    ultimately show ?thesis
      using history_apply_wf [of "s\<lparr>history_cursor := history_cursor s + 1\<rparr>" "history_cursor s + 1"] eq False
      by (simp only: recall_cursor if_False)
  qed
qed (simp add: assms handle_history_down_def)

lemma fold_print_same: "same_shell s (fold (\<lambda>i t. print (f i t) t) xs s') = same_shell s s'"
  by (induction xs arbitrary: s') simp_all

lemma type_char_wf:
  assumes "shell_wf s" and "c \<noteq> NUL" and "type_char c s = Ok u s'"
  shows "shell_wf s' \<and> typed_line s' = (if input_len s < INPUT_MAX - 1 then typed_line s @ [c] else typed_line s)"
proof (cases "input_len s < INPUT_MAX - 1")
  case True
  let ?b = "((input_buf s)[input_len s := c])[input_len s + 1 := NUL]"
  have s': "s' = print [c, NUL] (s\<lparr>input_buf := ?b, input_len := input_len s + 1\<rparr>)"
    using True assms(3) by (simp add: type_char_def)
  have "length (input_buf s) = INPUT_MAX" using assms(1) by (simp add: shell_wf_def)
  then have t: "take (input_len s + 1) ?b = typed_line s @ [c]" using True by (simp add: take_Suc_conv_app_nth)
  have "typed_line s' = typed_line s @ [c]" using t unfolding s' by (simp add: print_def)
  moreover have "shell_wf s'" using assms(1,2) True t unfolding s' by (simp add: shell_wf_def print_def)
  ultimately show ?thesis using True by simp
next
  case False
  have "same_shell s s'"
  proof (cases "input_overflow s")
    case False
    let ?s = "print ([NL] @ ''[input buffer full]'' @ [NL]) (s\<lparr>input_overflow := True\<rparr>)"
    obtain v s1 where p: "print_prompt ?s = Ok v s1"
      and s': "s' = fold (\<lambda>i t. print [input_buf t ! i, NUL] t) [0..<input_len s1] s1"
      using assms(3) \<open>\<not> input_len s < INPUT_MAX - 1\<close> False
      by (cases "print_prompt ?s") (auto simp: type_char_def)
    have "same_shell s ?s" by (simp add: same_shell_def print_def)
    then have "same_shell s s1" using print_prompt_same [OF p] by (simp add: same_shell_def)
    then show ?thesis unfolding s' fold_print_same .
  qed (use assms(3) \<open>\<not> input_len s < INPUT_MAX - 1\<close> in \<open>simp add: type_char_def same_shell_def\<close>)
  then show ?thesis using wf_same [OF assms(1)] False by simp
qed

lemma backspace_wf:
  assumes "shell_wf s"
  shows "shell_wf (s\<lparr>input_len := input_len s - 1, input_buf := (input_buf s)[input_len s - 1 := NUL]\<rparr>)"
    and "take (input_len s - 1) ((input_buf s)[input_len s - 1 := NUL]) = butlast (typed_line s)"
proof -
  have l: "length (input_buf s) = INPUT_MAX" "input_len s < INPUT_MAX" using assms by (simp_all add: shell_wf_def)
  have t: "take (input_len s - 1) ((input_buf s)[input_len s - 1 := NUL]) = take (input_len s - 1) (input_buf s)" by simp
  then show b: "take (input_len s - 1) ((input_buf s)[input_len s - 1 := NUL]) = butlast (typed_line s)"
    using l by (simp add: butlast_take)
  have "NUL \<notin> set (take (input_len s - 1) (input_buf s))"
    using assms set_take_subset_set_take [of "input_len s - 1" "input_len s" "input_buf s"] by (auto simp: shell_wf_def)
  then show "shell_wf (s\<lparr>input_len := input_len s - 1, input_buf := (input_buf s)[input_len s - 1 := NUL]\<rparr>)"
    using assms t l by (simp add: shell_wf_def)
qed

text \<open>
  C23: Every key but the return key keeps the types of the statics of the shell: both buffers keep their
  size, the typed line stays a terminated string shorter than its buffer and the history cursor stays in
  range. The line is edited as a list: a printable character is appended while there is room, backspace
  removes the last one, and the arrow keys replace the line by the recalled command.
\<close>

theorem shell_char_edits:
  assumes "shell_wf s" and "c \<noteq> NL" and "c \<noteq> CR" and "shell_char hello burn int20 c s = Ok u s'"
  shows "shell_wf s' \<and> typed_line s' =
    (if c = BS then butlast (typed_line s)
     else if c = KB_EVENT_UP
     then if history_count s = 0 then typed_line s
          else recall (if history_cursor s < 0 then int (history_count s) - 1 else max 0 (history_cursor s - 1)) s
     else if c = KB_EVENT_DOWN
     then if history_cursor s < 0 then typed_line s
          else if history_cursor s + 1 = int (history_count s) then [] else recall (history_cursor s + 1) s
     else if 32 \<le> schar c \<and> schar c \<le> 126 \<and> input_len s < INPUT_MAX - 1 then typed_line s @ [c]
     else typed_line s)"
proof -
  consider (bs) "c = BS" | (up) "c = KB_EVENT_UP" | (down) "c = KB_EVENT_DOWN"
    | (other) "c \<noteq> BS" "c \<noteq> KB_EVENT_UP" "c \<noteq> KB_EVENT_DOWN" by blast
  then show ?thesis
  proof cases
    case bs
    let ?t = "s\<lparr>input_len := input_len s - 1, input_buf := (input_buf s)[input_len s - 1 := NUL]\<rparr>"
    have s': "s' = (if input_len s > 0 then print [BS, CHR '' '', BS] ?t else s)"
      using assms(4) bs by (simp add: shell_char_def)
    have "same_shell ?t (print [BS, CHR '' '', BS] ?t)" unfolding same_shell_print by (simp add: same_shell_def)
    then show ?thesis using wf_same [OF backspace_wf(1) [OF assms(1)]] backspace_wf(2) [OF assms(1)] assms(1) bs
      unfolding s' by (cases "input_len s > 0") simp_all
  next
    case up
    then have "s' = handle_history_up s" using assms(4) by (simp add: shell_char_def)
    then show ?thesis using history_up_wf [OF assms(1)] up by simp
  next
    case down
    then have "s' = handle_history_down s" using assms(4) by (simp add: shell_char_def)
    then show ?thesis using history_down_wf [OF assms(1)] down by simp
  next
    case other
    show ?thesis
    proof (cases "32 \<le> schar c \<and> schar c \<le> 126")
      case True
      then have "c \<noteq> NUL" by (auto simp: schar_def)
      moreover have "type_char c s = Ok u s'" using assms(2-4) other True by (simp add: shell_char_def)
      ultimately show ?thesis using type_char_wf [OF assms(1)] other True by simp
    next
      case False
      then have "s' = s" using assms(2-4) other by (auto simp: shell_char_def split: if_splits)
      then show ?thesis using assms(1) other False by auto
    qed
  qed
qed

text \<open>The statics of the shell as the loader finds them.\<close>

definition fresh_shell :: "'a shell_scheme \<Rightarrow> 'a shell_scheme" where
  "fresh_shell s = s\<lparr>input_buf := replicate 256 NUL, input_len := 0, input_overflow := False,
     history := replicate 16 (replicate 256 NUL), history_count := 0, history_cursor := - 1\<rparr>"

theorem shell_char_edits_witness:
  "\<forall>s :: shell. \<exists>s'. shell_char (0, 0) (0, 0) (\<lambda>_. Hang) (CHR ''a'') (fresh_shell s) = Ok () s' \<and>
     shell_wf s' \<and> typed_line s' = ''a''"
proof
  fix s :: shell
  have w: "shell_wf (fresh_shell s)" by (simp add: shell_wf_def fresh_shell_def)
  have "schar (CHR ''a'') = 97" by (simp add: schar_def)
  then have "\<exists>s'. shell_char (0, 0) (0, 0) (\<lambda>_. Hang) (CHR ''a'') (fresh_shell s) = Ok () s'"
    by (simp add: shell_char_def type_char_def fresh_shell_def)
  then show "\<exists>s'. shell_char (0, 0) (0, 0) (\<lambda>_. Hang) (CHR ''a'') (fresh_shell s) = Ok () s' \<and>
     shell_wf s' \<and> typed_line s' = ''a''"
    using shell_char_edits [OF w, of "CHR ''a''"] \<open>schar (CHR ''a'') = 97\<close> by (fastforce simp: fresh_shell_def)
qed

end
