(* ===== verification/Display.thy ===== *)
theory Display
  imports Console Physmem
begin

text \<open>
  The framebuffer console, \<^verbatim>\<open>kernel/display.c\<close> with the glyphs of \<^verbatim>\<open>kernel/font8x8_basic.c\<close>: characters are
  drawn into a shadow buffer whose changed rows are marked and copied to the framebuffer by a flush. The
  operations work on the statics of the file, a record, and the memory both buffers lie in. What
  \<^verbatim>\<open>print\<close> of the theory Console records is the sequence of characters that \<open>draw_string\<close> draws.
\<close>

unbundle bit_operations_syntax

section \<open>Glyphs\<close>

definition font8x8_basic :: "u8 list list" where
  "font8x8_basic =
     [[0x00, 0x00, 0x00, 0x00, 0x00, 0x00, 0x00, 0x00],
      [0x00, 0x00, 0x00, 0x00, 0x00, 0x00, 0x00, 0x00],
      [0x00, 0x00, 0x00, 0x00, 0x00, 0x00, 0x00, 0x00],
      [0x00, 0x00, 0x00, 0x00, 0x00, 0x00, 0x00, 0x00],
      [0x00, 0x00, 0x00, 0x00, 0x00, 0x00, 0x00, 0x00],
      [0x00, 0x00, 0x00, 0x00, 0x00, 0x00, 0x00, 0x00],
      [0x00, 0x00, 0x00, 0x00, 0x00, 0x00, 0x00, 0x00],
      [0x00, 0x00, 0x00, 0x00, 0x00, 0x00, 0x00, 0x00],
      [0x00, 0x00, 0x00, 0x00, 0x00, 0x00, 0x00, 0x00],
      [0x00, 0x00, 0x00, 0x00, 0x00, 0x00, 0x00, 0x00],
      [0x00, 0x00, 0x00, 0x00, 0x00, 0x00, 0x00, 0x00],
      [0x00, 0x00, 0x00, 0x00, 0x00, 0x00, 0x00, 0x00],
      [0x00, 0x00, 0x00, 0x00, 0x00, 0x00, 0x00, 0x00],
      [0x00, 0x00, 0x00, 0x00, 0x00, 0x00, 0x00, 0x00],
      [0x00, 0x00, 0x00, 0x00, 0x00, 0x00, 0x00, 0x00],
      [0x00, 0x00, 0x00, 0x00, 0x00, 0x00, 0x00, 0x00],
      [0x00, 0x00, 0x00, 0x00, 0x00, 0x00, 0x00, 0x00],
      [0x00, 0x00, 0x00, 0x00, 0x00, 0x00, 0x00, 0x00],
      [0x00, 0x00, 0x00, 0x00, 0x00, 0x00, 0x00, 0x00],
      [0x00, 0x00, 0x00, 0x00, 0x00, 0x00, 0x00, 0x00],
      [0x00, 0x00, 0x00, 0x00, 0x00, 0x00, 0x00, 0x00],
      [0x00, 0x00, 0x00, 0x00, 0x00, 0x00, 0x00, 0x00],
      [0x00, 0x00, 0x00, 0x00, 0x00, 0x00, 0x00, 0x00],
      [0x00, 0x00, 0x00, 0x00, 0x00, 0x00, 0x00, 0x00],
      [0x00, 0x00, 0x00, 0x00, 0x00, 0x00, 0x00, 0x00],
      [0x00, 0x00, 0x00, 0x00, 0x00, 0x00, 0x00, 0x00],
      [0x00, 0x00, 0x00, 0x00, 0x00, 0x00, 0x00, 0x00],
      [0x00, 0x00, 0x00, 0x00, 0x00, 0x00, 0x00, 0x00],
      [0x00, 0x00, 0x00, 0x00, 0x00, 0x00, 0x00, 0x00],
      [0x00, 0x00, 0x00, 0x00, 0x00, 0x00, 0x00, 0x00],
      [0x00, 0x00, 0x00, 0x00, 0x00, 0x00, 0x00, 0x00],
      [0x00, 0x00, 0x00, 0x00, 0x00, 0x00, 0x00, 0x00],
      [0x00, 0x00, 0x00, 0x00, 0x00, 0x00, 0x00, 0x00],
      [0x18, 0x3C, 0x3C, 0x18, 0x18, 0x00, 0x18, 0x00],
      [0x36, 0x36, 0x00, 0x00, 0x00, 0x00, 0x00, 0x00],
      [0x36, 0x36, 0x7F, 0x36, 0x7F, 0x36, 0x36, 0x00],
      [0x0C, 0x3E, 0x03, 0x1E, 0x30, 0x1F, 0x0C, 0x00],
      [0x00, 0x63, 0x33, 0x18, 0x0C, 0x66, 0x63, 0x00],
      [0x1C, 0x36, 0x1C, 0x6E, 0x3B, 0x33, 0x6E, 0x00],
      [0x06, 0x06, 0x03, 0x00, 0x00, 0x00, 0x00, 0x00],
      [0x18, 0x0C, 0x06, 0x06, 0x06, 0x0C, 0x18, 0x00],
      [0x06, 0x0C, 0x18, 0x18, 0x18, 0x0C, 0x06, 0x00],
      [0x00, 0x66, 0x3C, 0xFF, 0x3C, 0x66, 0x00, 0x00],
      [0x00, 0x0C, 0x0C, 0x3F, 0x0C, 0x0C, 0x00, 0x00],
      [0x00, 0x00, 0x00, 0x00, 0x00, 0x0C, 0x0C, 0x06],
      [0x00, 0x00, 0x00, 0x3F, 0x00, 0x00, 0x00, 0x00],
      [0x00, 0x00, 0x00, 0x00, 0x00, 0x0C, 0x0C, 0x00],
      [0x60, 0x30, 0x18, 0x0C, 0x06, 0x03, 0x01, 0x00],
      [0x3E, 0x63, 0x73, 0x7B, 0x6F, 0x67, 0x3E, 0x00],
      [0x0C, 0x0E, 0x0C, 0x0C, 0x0C, 0x0C, 0x3F, 0x00],
      [0x1E, 0x33, 0x30, 0x1C, 0x06, 0x33, 0x3F, 0x00],
      [0x1E, 0x33, 0x30, 0x1C, 0x30, 0x33, 0x1E, 0x00],
      [0x38, 0x3C, 0x36, 0x33, 0x7F, 0x30, 0x78, 0x00],
      [0x3F, 0x03, 0x1F, 0x30, 0x30, 0x33, 0x1E, 0x00],
      [0x1C, 0x06, 0x03, 0x1F, 0x33, 0x33, 0x1E, 0x00],
      [0x3F, 0x33, 0x30, 0x18, 0x0C, 0x0C, 0x0C, 0x00],
      [0x1E, 0x33, 0x33, 0x1E, 0x33, 0x33, 0x1E, 0x00],
      [0x1E, 0x33, 0x33, 0x3E, 0x30, 0x18, 0x0E, 0x00],
      [0x00, 0x0C, 0x0C, 0x00, 0x00, 0x0C, 0x0C, 0x00],
      [0x00, 0x0C, 0x0C, 0x00, 0x00, 0x0C, 0x0C, 0x06],
      [0x18, 0x0C, 0x06, 0x03, 0x06, 0x0C, 0x18, 0x00],
      [0x00, 0x00, 0x3F, 0x00, 0x00, 0x3F, 0x00, 0x00],
      [0x06, 0x0C, 0x18, 0x30, 0x18, 0x0C, 0x06, 0x00],
      [0x1E, 0x33, 0x30, 0x18, 0x0C, 0x00, 0x0C, 0x00],
      [0x3E, 0x63, 0x7B, 0x7B, 0x7B, 0x03, 0x1E, 0x00],
      [0x0C, 0x1E, 0x33, 0x33, 0x3F, 0x33, 0x33, 0x00],
      [0x3F, 0x66, 0x66, 0x3E, 0x66, 0x66, 0x3F, 0x00],
      [0x3C, 0x66, 0x03, 0x03, 0x03, 0x66, 0x3C, 0x00],
      [0x1F, 0x36, 0x66, 0x66, 0x66, 0x36, 0x1F, 0x00],
      [0x7F, 0x46, 0x16, 0x1E, 0x16, 0x46, 0x7F, 0x00],
      [0x7F, 0x46, 0x16, 0x1E, 0x16, 0x06, 0x0F, 0x00],
      [0x3C, 0x66, 0x03, 0x03, 0x73, 0x66, 0x7C, 0x00],
      [0x33, 0x33, 0x33, 0x3F, 0x33, 0x33, 0x33, 0x00],
      [0x1E, 0x0C, 0x0C, 0x0C, 0x0C, 0x0C, 0x1E, 0x00],
      [0x78, 0x30, 0x30, 0x30, 0x33, 0x33, 0x1E, 0x00],
      [0x67, 0x66, 0x36, 0x1E, 0x36, 0x66, 0x67, 0x00],
      [0x0F, 0x06, 0x06, 0x06, 0x46, 0x66, 0x7F, 0x00],
      [0x63, 0x77, 0x7F, 0x7F, 0x6B, 0x63, 0x63, 0x00],
      [0x63, 0x67, 0x6F, 0x7B, 0x73, 0x63, 0x63, 0x00],
      [0x1C, 0x36, 0x63, 0x63, 0x63, 0x36, 0x1C, 0x00],
      [0x3F, 0x66, 0x66, 0x3E, 0x06, 0x06, 0x0F, 0x00],
      [0x1E, 0x33, 0x33, 0x33, 0x3B, 0x1E, 0x38, 0x00],
      [0x3F, 0x66, 0x66, 0x3E, 0x36, 0x66, 0x67, 0x00],
      [0x1E, 0x33, 0x07, 0x0E, 0x38, 0x33, 0x1E, 0x00],
      [0x3F, 0x2D, 0x0C, 0x0C, 0x0C, 0x0C, 0x1E, 0x00],
      [0x33, 0x33, 0x33, 0x33, 0x33, 0x33, 0x3F, 0x00],
      [0x33, 0x33, 0x33, 0x33, 0x33, 0x1E, 0x0C, 0x00],
      [0x63, 0x63, 0x63, 0x6B, 0x7F, 0x77, 0x63, 0x00],
      [0x63, 0x63, 0x36, 0x1C, 0x1C, 0x36, 0x63, 0x00],
      [0x33, 0x33, 0x33, 0x1E, 0x0C, 0x0C, 0x1E, 0x00],
      [0x7F, 0x63, 0x31, 0x18, 0x4C, 0x66, 0x7F, 0x00],
      [0x1E, 0x06, 0x06, 0x06, 0x06, 0x06, 0x1E, 0x00],
      [0x03, 0x06, 0x0C, 0x18, 0x30, 0x60, 0x40, 0x00],
      [0x1E, 0x18, 0x18, 0x18, 0x18, 0x18, 0x1E, 0x00],
      [0x08, 0x1C, 0x36, 0x63, 0x00, 0x00, 0x00, 0x00],
      [0x00, 0x00, 0x00, 0x00, 0x00, 0x00, 0x00, 0xFF],
      [0x0C, 0x0C, 0x18, 0x00, 0x00, 0x00, 0x00, 0x00],
      [0x00, 0x00, 0x1E, 0x30, 0x3E, 0x33, 0x6E, 0x00],
      [0x07, 0x06, 0x06, 0x3E, 0x66, 0x66, 0x3B, 0x00],
      [0x00, 0x00, 0x1E, 0x33, 0x03, 0x33, 0x1E, 0x00],
      [0x38, 0x30, 0x30, 0x3e, 0x33, 0x33, 0x6E, 0x00],
      [0x00, 0x00, 0x1E, 0x33, 0x3f, 0x03, 0x1E, 0x00],
      [0x1C, 0x36, 0x06, 0x0f, 0x06, 0x06, 0x0F, 0x00],
      [0x00, 0x00, 0x6E, 0x33, 0x33, 0x3E, 0x30, 0x1F],
      [0x07, 0x06, 0x36, 0x6E, 0x66, 0x66, 0x67, 0x00],
      [0x0C, 0x00, 0x0E, 0x0C, 0x0C, 0x0C, 0x1E, 0x00],
      [0x30, 0x00, 0x30, 0x30, 0x30, 0x33, 0x33, 0x1E],
      [0x07, 0x06, 0x66, 0x36, 0x1E, 0x36, 0x67, 0x00],
      [0x0E, 0x0C, 0x0C, 0x0C, 0x0C, 0x0C, 0x1E, 0x00],
      [0x00, 0x00, 0x33, 0x7F, 0x7F, 0x6B, 0x63, 0x00],
      [0x00, 0x00, 0x1F, 0x33, 0x33, 0x33, 0x33, 0x00],
      [0x00, 0x00, 0x1E, 0x33, 0x33, 0x33, 0x1E, 0x00],
      [0x00, 0x00, 0x3B, 0x66, 0x66, 0x3E, 0x06, 0x0F],
      [0x00, 0x00, 0x6E, 0x33, 0x33, 0x3E, 0x30, 0x78],
      [0x00, 0x00, 0x3B, 0x6E, 0x66, 0x06, 0x0F, 0x00],
      [0x00, 0x00, 0x3E, 0x03, 0x1E, 0x30, 0x1F, 0x00],
      [0x08, 0x0C, 0x3E, 0x0C, 0x0C, 0x2C, 0x18, 0x00],
      [0x00, 0x00, 0x33, 0x33, 0x33, 0x33, 0x6E, 0x00],
      [0x00, 0x00, 0x33, 0x33, 0x33, 0x1E, 0x0C, 0x00],
      [0x00, 0x00, 0x63, 0x6B, 0x7F, 0x7F, 0x36, 0x00],
      [0x00, 0x00, 0x63, 0x36, 0x1C, 0x36, 0x63, 0x00],
      [0x00, 0x00, 0x33, 0x33, 0x33, 0x3E, 0x30, 0x1F],
      [0x00, 0x00, 0x3F, 0x19, 0x0C, 0x26, 0x3F, 0x00],
      [0x38, 0x0C, 0x0C, 0x07, 0x0C, 0x0C, 0x38, 0x00],
      [0x18, 0x18, 0x18, 0x00, 0x18, 0x18, 0x18, 0x00],
      [0x07, 0x0C, 0x0C, 0x38, 0x0C, 0x0C, 0x07, 0x00],
      [0x6E, 0x3B, 0x00, 0x00, 0x00, 0x00, 0x00, 0x00],
      [0x00, 0x00, 0x00, 0x00, 0x00, 0x00, 0x00, 0x00]]"

text \<open>
  The table has 128 rows of eight bytes, the index is any byte: for the upper half the code reads what the
  linker puts behind the table, the parameter \<open>beyond\<close>.
\<close>

definition glyph_row :: "(nat \<Rightarrow> u8) \<Rightarrow> char \<Rightarrow> u32 \<Rightarrow> u8" where
  "glyph_row beyond c row =
     (let i = of_char c :: nat
      in if i < 128 then font8x8_basic ! i ! unat row else beyond (8 * (i - 128) + unat row))"

section \<open>State\<close>

record display =
  sb :: u64
  fb :: u64
  screen_w :: u32
  screen_h :: u32
  pitch :: u32
  cursor_x :: u32
  cursor_y :: u32
  fg_color :: u32
  bg_color :: u32
  dirty_rows :: "bool list"
  dirty :: bool

text \<open>The pixel \<^verbatim>\<open>p[y * pitch + x]\<close>; the index is computed in 32 bits.\<close>

definition pixel_addr :: "display \<Rightarrow> u64 \<Rightarrow> u32 \<Rightarrow> u32 \<Rightarrow> u64" where
  "pixel_addr d p x y = p + 4 * ucast (y * pitch d + x)"

section \<open>Operations\<close>

definition mark_dirty :: "u32 \<Rightarrow> display \<Rightarrow> display" where
  "mark_dirty y d = d\<lparr>dirty_rows := (dirty_rows d)[unat y := True], dirty := True\<rparr>"

definition display_set_shadow :: "u64 \<Rightarrow> display \<Rightarrow> display" where
  "display_set_shadow buffer d = d\<lparr>sb := buffer\<rparr>"

text \<open>A loop that copies 64-bit words upwards.\<close>

definition copy_words :: "u64 \<Rightarrow> u64 \<Rightarrow> u64 \<Rightarrow> pmem \<Rightarrow> pmem" where
  "copy_words dst src n m = for_range 0 n (\<lambda>i m. store64 m (dst + 8 * i) (load64 m (src + 8 * i))) m"

definition flush_row :: "u32 \<Rightarrow> display \<times> pmem \<Rightarrow> display \<times> pmem" where
  "flush_row y = (\<lambda>(d, m).
     if \<not> dirty_rows d ! unat y then (d, m)
     else (d\<lparr>dirty_rows := (dirty_rows d)[unat y := False]\<rparr>,
           copy_words (pixel_addr d (fb d) 0 y) (pixel_addr d (sb d) 0 y) (ucast (pitch d * 4) div 8) m))"

definition display_flush :: "display \<times> pmem \<Rightarrow> display \<times> pmem" where
  "display_flush = (\<lambda>(d, m).
     if sb d = 0 \<or> fb d = 0 \<or> \<not> dirty d then (d, m)
     else let (d1, m1) = for_range 0 (screen_h d) flush_row (d, m) in (d1\<lparr>dirty := False\<rparr>, m1))"

definition fill_row :: "u64 \<Rightarrow> display \<Rightarrow> u32 \<Rightarrow> pmem \<Rightarrow> pmem" where
  "fill_row p d y m = for_range 0 (pitch d) (\<lambda>x m. store32 m (pixel_addr d p x y) (bg_color d)) m"

definition all_dirty :: "display \<Rightarrow> display" where
  "all_dirty d = for_range 0 (screen_h d) (\<lambda>y d. d\<lparr>dirty_rows := (dirty_rows d)[unat y := True]\<rparr>) d"

definition scroll :: "display \<times> pmem \<Rightarrow> display \<times> pmem" where
  "scroll = (\<lambda>(d, m).
     let row_bytes = ucast (pitch d * 4) :: u64;
         copy_bytes = ucast (screen_h d - 10) * row_bytes;
         m1 = copy_words (sb d) (sb d + 10 * row_bytes) (copy_bytes div 8) m;
         m2 = for_range (screen_h d - 10) (screen_h d) (fill_row (sb d) d) m1;
         d1 = all_dirty (d\<lparr>cursor_y := cursor_y d - 10\<rparr>)
     in (d1\<lparr>dirty := True\<rparr>, m2))"

definition display_init :: "u64 \<Rightarrow> u32 \<Rightarrow> u32 \<Rightarrow> u32 \<Rightarrow> display \<Rightarrow> display" where
  "display_init framebuf w h pixels d =
     (let d1 = d\<lparr>fb := framebuf, screen_w := w, screen_h := h, pitch := pixels, cursor_x := 0, cursor_y := 0,
                 dirty := False\<rparr>
      in for_range 0 h (\<lambda>i d. d\<lparr>dirty_rows := (dirty_rows d)[unat i := False]\<rparr>) d1)"

definition display_get_height :: "display \<Rightarrow> u32" where "display_get_height d = screen_h d"
definition display_get_pitch :: "display \<Rightarrow> u32" where "display_get_pitch d = pitch d"

definition clear_screen :: "display \<times> pmem \<Rightarrow> display \<times> pmem" where
  "clear_screen = (\<lambda>(d, m). (d, for_range 0 (screen_h d) (fill_row (fb d) d) m))"

definition put_pixel :: "u32 \<Rightarrow> u32 \<Rightarrow> u32 \<Rightarrow> display \<times> pmem \<Rightarrow> display \<times> pmem" where
  "put_pixel x y color = (\<lambda>(d, m).
     if x \<ge> screen_w d \<or> y \<ge> screen_h d then (d, m)
     else if sb d \<noteq> 0 then (mark_dirty y d, store32 m (pixel_addr d (sb d) x y) color)
     else (d, store32 m (pixel_addr d (fb d) x y) color))"

definition draw_char :: "(nat \<Rightarrow> u8) \<Rightarrow> char \<Rightarrow> u32 \<Rightarrow> u32 \<Rightarrow> display \<times> pmem \<Rightarrow> display \<times> pmem" where
  "draw_char beyond c x y =
     for_range 0 8 (\<lambda>row. for_range 0 8 (\<lambda>col st.
       if bit (glyph_row beyond c row) (unat col) then put_pixel (x + col) (y + row) (fg_color (fst st)) st
       else put_pixel (x + col) (y + row) (bg_color (fst st)) st))"

definition new_line :: "display \<times> pmem \<Rightarrow> display \<times> pmem" where
  "new_line = (\<lambda>(d, m).
     let d1 = d\<lparr>cursor_x := 0, cursor_y := cursor_y d + 10\<rparr>
     in if cursor_y d1 + 10 \<ge> screen_h d1 then scroll (d1, m) else (d1, m))"

definition print_char :: "(nat \<Rightarrow> u8) \<Rightarrow> char \<Rightarrow> display \<times> pmem \<Rightarrow> display \<times> pmem" where
  "print_char beyond c = (\<lambda>(d, m).
     if c = NL then new_line (d, m)
     else if c = CHR 0x0D then (d\<lparr>cursor_x := 0\<rparr>, m)
     else if c = CHR 0x08
     then if cursor_x d \<ge> 8
          then let d1 = d\<lparr>cursor_x := cursor_x d - 8\<rparr>
               in draw_char beyond (CHR '' '') (cursor_x d1) (cursor_y d1) (d1, m)
          else if cursor_y d \<ge> 10
          then let d1 = d\<lparr>cursor_y := cursor_y d - 10,
                          cursor_x := (if screen_w d \<ge> 8 then screen_w d - 8 else 0)\<rparr>
               in draw_char beyond (CHR '' '') (cursor_x d1) (cursor_y d1) (d1, m)
          else (d, m)
     else let (d1, m1) = draw_char beyond c (cursor_x d) (cursor_y d) (d, m);
              d2 = d1\<lparr>cursor_x := cursor_x d1 + 8\<rparr>
          in if cursor_x d2 + 8 \<ge> screen_w d2 then new_line (d2, m1) else (d2, m1))"

definition draw_string :: "(nat \<Rightarrow> u8) \<Rightarrow> string \<Rightarrow> display \<times> pmem \<Rightarrow> display \<times> pmem" where
  "draw_string beyond str = fold (print_char beyond) (cstr str)"

definition display_clear :: "display \<times> pmem \<Rightarrow> display \<times> pmem" where
  "display_clear = (\<lambda>(d, m).
     if sb d = 0 then (d, m)
     else let (d1, m1) = for_range 0 (screen_h d) (\<lambda>y (d, m).
                 (d\<lparr>dirty_rows := (dirty_rows d)[unat y := True]\<rparr>, fill_row (sb d) d y m)) (d, m)
          in (d1\<lparr>dirty := True, cursor_x := 0, cursor_y := 0\<rparr>, m1))"

section \<open>Copying words\<close>

lemma byte_load64:
  assumes "j < 8"
  shows "ucast (drop_bit (8 * j) (load64 m a)) = m (a + of_nat j)"
proof (rule bit_eqI)
  fix n assume "possible_bit TYPE(8 word) n"
  then have n: "n < 8" by simp
  have "(8 * j + n) div 8 = j" "(8 * j + n) mod 8 = n" using n by simp_all
  then show "bit (ucast (drop_bit (8 * j) (load64 m a)) :: u8) n = bit (m (a + of_nat j)) n"
    using n assms by (simp add: bit_simps load64_def bit_loadb)
qed

lemma store64_apply_in: "unat (x - a) < 8 \<Longrightarrow> store64 m a v x = ucast (drop_bit (8 * unat (x - a)) v)"
  by (simp add: store64_def storeb_def)

lemma unat_sub_window:
  fixes x c :: u64
  assumes "unat c + 8 \<le> 2 ^ 64"
  shows "unat (x - c) < 8 \<longleftrightarrow> unat c \<le> unat x \<and> unat x < unat c + 8"
    and "unat c \<le> unat x \<Longrightarrow> unat (x - c) = unat x - unat c"
proof -
  show e: "unat (x - c) = unat x - unat c" if "unat c \<le> unat x"
    using that by (simp add: unat_sub word_le_nat_alt)
  show "unat (x - c) < 8 \<longleftrightarrow> unat c \<le> unat x \<and> unat x < unat c + 8"
  proof (cases "unat c \<le> unat x")
    case True
    then show ?thesis using e by auto
  next
    case False
    then have "unat (x - c) = 2 ^ 64 + unat x - unat c"
      by (simp add: unat_sub_if')
    then show ?thesis using assms False by simp
  qed
qed

lemma copy_words_apply:
  assumes "unat src + 8 * unat n \<le> 2 ^ 64" and "unat dst + 8 * unat n \<le> 2 ^ 64"
    and "unat dst \<le> unat src \<or> unat src + 8 * unat n \<le> unat dst"
  shows "copy_words dst src n m a = (if unat (a - dst) < 8 * unat n then m (src + (a - dst)) else m a)"
proof -
  define I where "I = (\<lambda>(i :: u64) t. \<forall>a. t a = (if unat (a - dst) < 8 * unat i then m (src + (a - dst)) else m a))"
  have "I n (copy_words dst src n m)"
    unfolding copy_words_def
  proof (rule for_range_invariant [where I = I])
    fix i :: u64 and t assume i: "0 \<le> i" "i < n" and I: "I i t"
    have lt: "unat i < unat n" using i(2) by (simp add: word_less_nat_alt)
    have u8: "unat (8 * i) = 8 * unat i" using lt assms(1) by (simp add: unat_word_ariths)
    have u1: "unat (i + 1) = unat i + 1" using unat_Suc_less [OF i(2)] by simp
    show "I (i + 1) (store64 t (dst + 8 * i) (load64 t (src + 8 * i)))"
      unfolding I_def
    proof
      fix a
      define x where "x = a - dst"
      have sub: "a - (dst + 8 * i) = x - 8 * i" by (simp add: x_def)
      have w: "unat (x - 8 * i) < 8 \<longleftrightarrow> 8 * unat i \<le> unat x \<and> unat x < 8 * unat i + 8"
        "8 * unat i \<le> unat x \<Longrightarrow> unat (x - 8 * i) = unat x - 8 * unat i"
        using unat_sub_window [of "8 * i" x] u8 lt assms(1) by simp_all
      show "store64 t (dst + 8 * i) (load64 t (src + 8 * i)) a =
          (if unat (a - dst) < 8 * unat (i + 1) then m (src + (a - dst)) else m a)"
      proof (cases "unat (x - 8 * i) < 8")
        case True
        then have x: "8 * unat i \<le> unat x" "unat x < 8 * unat i + 8" using w by simp_all
        have "src + 8 * i + of_nat (unat (x - 8 * i)) = src + x" by simp
        moreover have "t (src + x) = m (src + x)"
        proof -
          have us: "unat (src + x) = unat src + unat x"
            using x lt assms(1) by (subst unat_add_lem [THEN iffD1]) simp_all
          have "\<not> unat (src + x - dst) < 8 * unat i"
          proof (cases "unat dst \<le> unat (src + x)")
            case True
            then have "unat (src + x - dst) = unat src + unat x - unat dst"
              using us by (simp add: unat_sub word_le_nat_alt)
            then show ?thesis using assms(3) x lt us True by auto
          next
            case False
            then have "unat (src + x - dst) = 2 ^ 64 + unat (src + x) - unat dst" by (simp add: unat_sub_if')
            then show ?thesis using assms(2) lt by simp
          qed
          then show ?thesis using I by (simp add: I_def)
        qed
        ultimately show ?thesis
          using True x u1 by (simp add: store64_apply_in sub byte_load64 x_def)
      next
        case False
        then have out: "store64 t (dst + 8 * i) v a = t a" for v
          by (intro store64_apply_out) (simp add: region_def sub)
        show ?thesis using False w(1) I u1 unfolding out by (auto simp: I_def x_def)
      qed
    qed
  qed (simp_all add: I_def)
  then show ?thesis by (simp add: I_def)
qed
section \<open>Geometry\<close>

text \<open>
  What the boot information has to give: both buffers hold the whole screen, do not wrap around and do
  not overlap, a row has at least one cell of eight pixels and an even number of pixels in memory, and
  there is a flag for every row.
\<close>

abbreviation (input) buffer_size :: "display \<Rightarrow> nat" where
  "buffer_size d \<equiv> 4 * (unat (screen_h d) * unat (pitch d))"

definition geometry :: "display \<Rightarrow> bool" where
  "geometry d \<longleftrightarrow> 8 \<le> unat (screen_w d) \<and> unat (screen_w d) \<le> unat (pitch d) \<and> 10 < unat (screen_h d) \<and>
     unat (screen_h d) \<le> length (dirty_rows d) \<and> even (unat (pitch d)) \<and>
     unat (screen_h d) * unat (pitch d) < 2 ^ 30 \<and>
     sb d \<noteq> 0 \<and> fb d \<noteq> 0 \<and> unat (sb d) + buffer_size d \<le> 2 ^ 64 \<and> unat (fb d) + buffer_size d \<le> 2 ^ 64 \<and>
     (unat (sb d) + buffer_size d \<le> unat (fb d) \<or> unat (fb d) + buffer_size d \<le> unat (sb d))"

lemma cell_bound:
  assumes "y < h" and "x < (p :: nat)"
  shows "y * p + x < h * p"
proof -
  have "y * p + x < (y + 1) * p" using assms(2) by simp
  also have "\<dots> \<le> h * p" using assms(1) by (intro mult_le_mono1) simp
  finally show ?thesis .
qed

lemma unat_pixel_index:
  assumes "geometry d" and "y < screen_h d" and "x < pitch d"
  shows "unat (y * pitch d + x) = unat y * unat (pitch d) + unat x"
    and "unat y * unat (pitch d) + unat x < unat (screen_h d) * unat (pitch d)"
proof -
  show b: "unat y * unat (pitch d) + unat x < unat (screen_h d) * unat (pitch d)"
    using assms(2,3) by (intro cell_bound) (simp_all add: word_less_nat_alt)
  have "unat y * unat (pitch d) + unat x < 2 ^ 32" using b assms(1) by (simp add: geometry_def)
  then show "unat (y * pitch d + x) = unat y * unat (pitch d) + unat x"
    by (simp add: unat_word_ariths)
qed

lemma unat_pixel_addr:
  assumes "geometry d" and "y < screen_h d" and "x < pitch d" and "unat p + buffer_size d \<le> 2 ^ 64"
  shows "unat (pixel_addr d p x y) = unat p + 4 * (unat y * unat (pitch d) + unat x)"
proof -
  note i = unat_pixel_index [OF assms(1-3)]
  have "unat (4 * ucast (y * pitch d + x) :: u64) = 4 * (unat y * unat (pitch d) + unat x)"
    using i assms(1) by (simp add: unat_word_ariths unsigned_ucast_eq take_bit_nat_eq_self geometry_def)
  then show ?thesis unfolding pixel_addr_def using i assms(4)
    by (subst unat_add_lem [THEN iffD1]) (simp_all del: unat_add_lem)
qed

lemma store_pixel_out:
  assumes "geometry d" and "unat p + buffer_size d \<le> 2 ^ 64" and "x < pitch d" and "y < screen_h d"
    and "a \<notin> region p (buffer_size d)"
  shows "store32 m (pixel_addr d p x y) v a = m a"
proof (rule store32_apply_out)
  have "region (pixel_addr d p x y) 4 \<subseteq> region p (buffer_size d)"
    using unat_pixel_addr [OF assms(1,4,3,2)] unat_pixel_index(2) [OF assms(1,4,3)] assms(2)
    by (subst (1 2) region_interval) auto
  then show "a \<notin> region (pixel_addr d p x y) 4" using assms(5) by blast
qed

text \<open>The bytes of a buffer by offset.\<close>

definition byte_at :: "pmem \<Rightarrow> u64 \<Rightarrow> nat \<Rightarrow> u8" where
  "byte_at m p k = m (p + of_nat k)"

lemma store32_byte:
  assumes "unat a = unat p + o1" and "unat p + k < 2 ^ 64" and "\<not> (o1 \<le> k \<and> k < o1 + 4)" and "o1 + 4 + unat p \<le> 2 ^ 64"
  shows "byte_at (store32 m a v) p k = byte_at m p k"
proof -
  have "unat (p + of_nat k) = unat p + k"
    using assms(2) by (subst unat_add_lem [THEN iffD1]) (simp_all add: take_bit_nat_eq_self unat_of_nat)
  then have "p + of_nat k \<notin> region a 4" using assms by (subst region_interval) auto
  then show ?thesis by (simp add: byte_at_def store32_apply_out)
qed

section \<open>Drawing\<close>

text \<open>
  The effect every drawing operation has: it changes memory in the shadow buffer only, keeps the geometry,
  and a row it does not mark is as before.
\<close>

abbreviation (input) statics :: "display \<Rightarrow> _" where
  "statics d \<equiv> (sb d, fb d, screen_w d, screen_h d, pitch d, fg_color d, bg_color d, length (dirty_rows d))"

abbreviation (input) row_byte :: "display \<Rightarrow> pmem \<Rightarrow> u64 \<Rightarrow> nat \<Rightarrow> nat \<Rightarrow> u8" where
  "row_byte d m p y k \<equiv> byte_at m p (4 * (y * unat (pitch d)) + k)"

definition draws :: "display \<times> pmem \<Rightarrow> display \<times> pmem \<Rightarrow> bool" where
  "draws = (\<lambda>(d, m) (d', m'). statics d' = statics d \<and>
     (\<forall>a. a \<notin> region (sb d) (buffer_size d) \<longrightarrow> m' a = m a) \<and>
     (\<forall>y < unat (screen_h d). dirty_rows d ! y \<longrightarrow> dirty_rows d' ! y) \<and>
     (\<forall>y < unat (screen_h d). \<not> dirty_rows d' ! y \<longrightarrow>
        (\<forall>k < 4 * unat (pitch d). row_byte d m' (sb d) y k = row_byte d m (sb d) y k)) \<and>
     (\<not> dirty d' \<longrightarrow> \<not> dirty d \<and> dirty_rows d' = dirty_rows d))"

lemma draws_refl [simp]: "draws st st"
  by (auto simp: draws_def)

lemma draws_trans:
  assumes "draws st st'" and "draws st' st''"
  shows "draws st st''"
proof -
  obtain d m d' m' d'' m'' where "st = (d, m)" "st' = (d', m')" "st'' = (d'', m'')"
    by (cases st, cases st', cases st'')
  then show ?thesis using assms by (auto simp: draws_def)
qed

lemma draws_geometry: "draws (d, m) (d', m') \<Longrightarrow> geometry d \<Longrightarrow> geometry d'"
  by (simp add: draws_def geometry_def)

lemma put_pixel_draws:
  assumes "geometry d"
  shows "draws (d, m) (put_pixel x y color (d, m))"
proof (cases "x < screen_w d \<and> y < screen_h d")
  case True
  then have xy: "x < pitch d" "y < screen_h d" using assms by (simp_all add: geometry_def word_less_nat_alt)
  let ?o = "4 * (unat y * unat (pitch d) + unat x)"
  have bound: "unat (sb d) + buffer_size d \<le> 2 ^ 64" using assms by (simp add: geometry_def)
  note i = unat_pixel_index [OF assms xy(2,1)]
  have a: "unat (pixel_addr d (sb d) x y) = unat (sb d) + ?o" by (rule unat_pixel_addr [OF assms xy(2,1) bound])
  have inside: "?o + 4 \<le> buffer_size d" using i(2) by simp
  have ny: "unat y < unat (screen_h d)" using xy by (simp add: word_less_nat_alt)
  have row: "row_byte d (store32 m (pixel_addr d (sb d) x y) color) (sb d) y' k = row_byte d m (sb d) y' k"
    if y': "y' < unat (screen_h d)" "y' \<noteq> unat y" and k: "k < 4 * unat (pitch d)" for y' k
  proof (rule store32_byte [OF a])
    have x: "unat x < unat (pitch d)" using xy(1) by (simp add: word_less_nat_alt)
    show "\<not> (?o \<le> 4 * (y' * unat (pitch d)) + k \<and> 4 * (y' * unat (pitch d)) + k < ?o + 4)"
    proof (cases "y' < unat y")
      case True
      then have "(y' + 1) * unat (pitch d) \<le> unat y * unat (pitch d)" by (intro mult_le_mono1) simp
      then show ?thesis using k by simp
    next
      case False
      then have "(unat y + 1) * unat (pitch d) \<le> y' * unat (pitch d)" using y'(2) by (intro mult_le_mono1) simp
      then show ?thesis using x by simp
    qed
    have "(y' + 1) * unat (pitch d) \<le> unat (screen_h d) * unat (pitch d)" using y'(1) by (intro mult_le_mono1) simp
    then show "unat (sb d) + (4 * (y' * unat (pitch d)) + k) < 2 ^ 64" using k bound by simp
    show "?o + 4 + unat (sb d) \<le> 2 ^ 64" using inside bound by simp
  qed
  have len: "unat y < length (dirty_rows d)" using ny assms by (simp add: geometry_def)
  show ?thesis using True row len store_pixel_out [OF assms bound xy] assms
    by (auto simp: draws_def put_pixel_def mark_dirty_def nth_list_update geometry_def not_le)
next
  case False
  then show ?thesis by (auto simp: put_pixel_def not_le)
qed

lemma for_range_draws:
  assumes "geometry (fst st)" and "i \<le> n"
    and "\<And>k t. geometry (fst t) \<Longrightarrow> draws st t \<Longrightarrow> k < n \<Longrightarrow> draws t (f k t)"
  shows "draws st (for_range i n f st)"
proof (rule for_range_invariant [where I = "\<lambda>k t. draws st t"])
  fix k t assume "k < n" "draws st t"
  moreover from this have "geometry (fst t)" using assms(1) draws_geometry [of "fst st" "snd st" "fst t" "snd t"] by simp
  ultimately show "draws st (f k t)" using assms(3) draws_trans by blast
qed (simp_all add: assms(2))

lemma draw_char_draws:
  assumes "geometry d"
  shows "draws (d, m) (draw_char beyond c x y (d, m))"
  unfolding draw_char_def
proof (rule for_range_draws)
  fix row :: u32 and t :: "display \<times> pmem" assume t: "geometry (fst t)"
  show "draws t (for_range 0 8 (\<lambda>col st. if bit (glyph_row beyond c row) (unat col)
      then put_pixel (x + col) (y + row) (fg_color (fst st)) st
      else put_pixel (x + col) (y + row) (bg_color (fst st)) st) t)"
    using t by (rule for_range_draws) (auto intro!: put_pixel_draws)
qed (simp_all add: assms)
section \<open>Pixels\<close>

lemma less_next: "i < n \<Longrightarrow> x < i + 1 \<longleftrightarrow> x = i \<or> x < i" for i :: "'w::len word"
  using unat_Suc_less [of i n] by (auto simp: word_less_nat_alt word_unat_eq_iff)

definition pixel :: "display \<Rightarrow> pmem \<Rightarrow> u64 \<Rightarrow> u32 \<Rightarrow> u32 \<Rightarrow> u32" where
  "pixel d m p x y = load32 m (pixel_addr d p x y)"

lemma cell_inj:
  assumes "x < P" and "x' < (P :: nat)"
  shows "y * P + x = y' * P + x' \<longleftrightarrow> x = x' \<and> y = y'"
proof
  assume e: "y * P + x = y' * P + x'"
  have "(y * P + x) div P = y" "(y' * P + x') div P = y'" using assms by simp_all
  then show "x = x' \<and> y = y'" using e by simp
qed simp

lemma pixel_store:
  assumes "geometry d" and "unat p + buffer_size d \<le> 2 ^ 64"
    and "x < pitch d" and "y < screen_h d" and "x' < pitch d" and "y' < screen_h d"
  shows "pixel d (store32 m (pixel_addr d p x y) v) p x' y' = (if x' = x \<and> y' = y then v else pixel d m p x' y')"
proof (cases "x' = x \<and> y' = y")
  case True
  then show ?thesis by (simp add: pixel_def)
next
  case False
  let ?i = "unat y * unat (pitch d) + unat x" and ?j = "unat y' * unat (pitch d) + unat x'"
  have "?i \<noteq> ?j" using False assms(3,5) by (subst cell_inj) (auto simp: word_less_nat_alt word_unat_eq_iff)
  then have "region (pixel_addr d p x' y') 4 \<inter> region (pixel_addr d p x y) 4 = {}"
    using unat_pixel_addr [OF assms(1,4,3,2)] unat_pixel_addr [OF assms(1,6,5,2)] assms(2)
      unat_pixel_index(2) [OF assms(1,4,3)] unat_pixel_index(2) [OF assms(1,6,5)]
    by (subst (1 2) region_interval) auto
  then have "load32 (store32 m (pixel_addr d p x y) v) (pixel_addr d p x' y') = load32 m (pixel_addr d p x' y')"
    by (intro load32_cong) (auto intro!: store32_apply_out)
  then show ?thesis using False by (auto simp: pixel_def)
qed

lemma fill_row_pixels:
  assumes "geometry d" and "unat p + buffer_size d \<le> 2 ^ 64" and "y < screen_h d"
  shows "a \<notin> region p (buffer_size d) \<Longrightarrow> fill_row p d y m a = m a"
    and "x' < pitch d \<Longrightarrow> y' < screen_h d \<Longrightarrow>
      pixel d (fill_row p d y m) p x' y' = (if y' = y then bg_color d else pixel d m p x' y')"
proof -
  define I where "I = (\<lambda>i t. (\<forall>a. a \<notin> region p (buffer_size d) \<longrightarrow> t a = m a) \<and>
    (\<forall>x' y'. x' < pitch d \<longrightarrow> y' < screen_h d \<longrightarrow>
      pixel d t p x' y' = (if y' = y \<and> x' < i then bg_color d else pixel d m p x' y')))"
  have "I (pitch d) (fill_row p d y m)"
    unfolding fill_row_def
  proof (rule for_range_invariant [where I = I])
    fix i t assume i: "i < pitch d" and I: "I i t"
    note less_next [OF i]
    then show "I (i + 1) (store32 t (pixel_addr d p i y) (bg_color d))"
      using I store_pixel_out [OF assms(1,2) i assms(3)] pixel_store [OF assms(1,2) i assms(3)]
      unfolding I_def by auto
  qed (auto simp: I_def)
  then show "a \<notin> region p (buffer_size d) \<Longrightarrow> fill_row p d y m a = m a"
    "x' < pitch d \<Longrightarrow> y' < screen_h d \<Longrightarrow>
      pixel d (fill_row p d y m) p x' y' = (if y' = y then bg_color d else pixel d m p x' y')"
    by (auto simp: I_def)
qed

lemma fill_rows_pixels:
  assumes "geometry d" and "unat p + buffer_size d \<le> 2 ^ 64" and "j \<le> screen_h d"
  shows "a \<notin> region p (buffer_size d) \<Longrightarrow> for_range j (screen_h d) (fill_row p d) m a = m a"
    and "x' < pitch d \<Longrightarrow> y' < screen_h d \<Longrightarrow>
      pixel d (for_range j (screen_h d) (fill_row p d) m) p x' y' = (if j \<le> y' then bg_color d else pixel d m p x' y')"
proof -
  define I where "I = (\<lambda>i t. (\<forall>a. a \<notin> region p (buffer_size d) \<longrightarrow> t a = m a) \<and>
    (\<forall>x' y'. x' < pitch d \<longrightarrow> y' < screen_h d \<longrightarrow>
      pixel d t p x' y' = (if j \<le> y' \<and> y' < i then bg_color d else pixel d m p x' y')))"
  have "I (screen_h d) (for_range j (screen_h d) (fill_row p d) m)"
  proof (rule for_range_invariant [where I = I])
    fix i t assume ji: "j \<le> i" and i: "i < screen_h d" and I: "I i t"
    note less_next [OF i]
    then show "I (i + 1) (fill_row p d i t)"
      using I ji fill_row_pixels [OF assms(1,2) i] unfolding I_def by auto
  qed (auto simp: I_def assms(3))
  then show "a \<notin> region p (buffer_size d) \<Longrightarrow> for_range j (screen_h d) (fill_row p d) m a = m a"
    "x' < pitch d \<Longrightarrow> y' < screen_h d \<Longrightarrow>
      pixel d (for_range j (screen_h d) (fill_row p d) m) p x' y' = (if j \<le> y' then bg_color d else pixel d m p x' y')"
    by (auto simp: I_def)
qed

lemma set_rows:
  assumes "unat n \<le> length (dirty_rows d)"
  shows "for_range 0 n (\<lambda>y d. d\<lparr>dirty_rows := (dirty_rows d)[unat y := b]\<rparr>) d =
    d\<lparr>dirty_rows := replicate (unat n) b @ drop (unat n) (dirty_rows d)\<rparr>"
proof (rule for_range_invariant [where I = "\<lambda>i e. e = d\<lparr>dirty_rows := replicate (unat i) b @ drop (unat i) (dirty_rows d)\<rparr>"])
  fix i e assume i: "i < n" and e: "e = d\<lparr>dirty_rows := replicate (unat i) b @ drop (unat i) (dirty_rows d)\<rparr>"
  have u: "unat (i + 1) = Suc (unat i)" using unat_Suc_less [OF i] by simp
  have "unat i < length (dirty_rows d)" using i assms by (simp add: word_less_nat_alt)
  then have "(replicate (unat i) b @ drop (unat i) (dirty_rows d))[unat i := b] =
      replicate (Suc (unat i)) b @ drop (Suc (unat i)) (dirty_rows d)"
    by (simp add: list_update_append Cons_nth_drop_Suc [symmetric] replicate_append_same)
  then show "e\<lparr>dirty_rows := (dirty_rows e)[unat i := b]\<rparr> =
      d\<lparr>dirty_rows := replicate (unat (i + 1)) b @ drop (unat (i + 1)) (dirty_rows d)\<rparr>"
    by (simp add: e u)
qed simp_all

lemma load32_shift:
  assumes "\<And>j. j < 4 \<Longrightarrow> m' (a + of_nat j) = m (b + of_nat j)"
  shows "load32 m' a = load32 m b"
  using assms [of 0] assms [of 1] assms [of 2] assms [of 3] by (simp add: load32_bytes)

section \<open>Scrolling\<close>

lemma scroll_words:
  assumes "geometry d"
  shows "8 * unat (ucast (screen_h d - 10) * ucast (pitch d * 4) div 8 :: u64) = 4 * ((unat (screen_h d) - 10) * unat (pitch d))"
    and "unat (10 * ucast (pitch d * 4) :: u64) = 40 * unat (pitch d)"
    and "40 * unat (pitch d) + 4 * ((unat (screen_h d) - 10) * unat (pitch d)) = buffer_size d"
    and "unat (screen_h d - 10) = unat (screen_h d) - 10"
proof -
  let ?h = "unat (screen_h d)" and ?p = "unat (pitch d)"
  have g: "10 < ?h" "?h * ?p < 2 ^ 30" "even ?p" using assms by (simp_all add: geometry_def)
  have tp: "10 * ?p \<le> ?h * ?p" using g(1) by (intro mult_le_mono1) simp
  have p: "?p < 2 ^ 28" using le_less_trans [OF tp g(2)] by simp
  have up: "unat (pitch d * 4) = 4 * ?p" using p by (simp add: unat_word_ariths)
  have cp: "unat (ucast (pitch d * 4) :: u64) = 4 * ?p"
    using up p by (simp add: unsigned_ucast_eq take_bit_nat_eq_self)
  show uh: "unat (screen_h d - 10) = ?h - 10" using g(1) by (simp add: unat_sub word_le_nat_alt)
  then have ch: "unat (ucast (screen_h d - 10) :: u64) = ?h - 10"
    using g(1) unat_u32_less [of "screen_h d"] by (simp add: unsigned_ucast_eq take_bit_nat_eq_self)
  have sp: "40 * ?p + 4 * ((?h - 10) * ?p) = 4 * (?h * ?p)"
    using tp diff_mult_distrib [of ?h 10 ?p] by linarith
  then show "40 * ?p + 4 * ((?h - 10) * ?p) = 4 * (?h * ?p)" .
  have "4 * ((?h - 10) * ?p) \<le> 4 * (?h * ?p)" using sp by linarith
  also have "\<dots> < 2 ^ 32" using g(2) by (simp add: mult.commute)
  finally have le: "(?h - 10) * (4 * ?p) < 2 ^ 64" by simp
  have "unat (ucast (screen_h d - 10) * ucast (pitch d * 4) :: u64) = (?h - 10) * (4 * ?p)"
    using le ch cp by (simp add: unat_word_ariths)
  moreover have "8 dvd (?h - 10) * (4 * ?p)" using g(3) by (auto elim!: evenE)
  ultimately show "8 * unat (ucast (screen_h d - 10) * ucast (pitch d * 4) div 8 :: u64) = 4 * ((?h - 10) * ?p)"
    by (simp add: unat_div)
  show "unat (10 * ucast (pitch d * 4) :: u64) = 40 * ?p" using cp p by (simp add: unat_word_ariths)
qed

lemma scroll_copy:
  fixes m :: pmem
  assumes "geometry d"
  defines "m1 \<equiv> copy_words (sb d) (sb d + 10 * ucast (pitch d * 4)) (ucast (screen_h d - 10) * ucast (pitch d * 4) div 8) m"
  shows "a \<notin> region (sb d) (buffer_size d) \<Longrightarrow> m1 a = m a"
    and "x < pitch d \<Longrightarrow> y < screen_h d - 10 \<Longrightarrow> pixel d m1 (sb d) x y = pixel d m (sb d) x (y + 10)"
proof -
  note w = scroll_words [OF assms(1)]
  let ?src = "sb d + 10 * ucast (pitch d * 4)"
  have bound: "unat (sb d) + buffer_size d \<le> 2 ^ 64" using assms(1) by (simp add: geometry_def)
  have pos: "0 < (unat (screen_h d) - 10) * unat (pitch d)" using assms(1) by (simp add: geometry_def)
  have "unat (sb d) + 40 * unat (pitch d) < 2 ^ 64" using w(3) bound pos by linarith
  then have us: "unat ?src = unat (sb d) + 40 * unat (pitch d)"
    using w(2) by (subst unat_add_lem [THEN iffD1]) simp_all
  have ap: "m1 a = (if unat (a - sb d) < 4 * ((unat (screen_h d) - 10) * unat (pitch d)) then m (?src + (a - sb d)) else m a)" for a
  proof -
    let ?n = "ucast (screen_h d - 10) * ucast (pitch d * 4) div 8 :: u64"
    have "unat ?src + 8 * unat ?n \<le> 2 ^ 64" "unat (sb d) + 8 * unat ?n \<le> 2 ^ 64"
      using w(1,3) us bound by linarith+
    then have "m1 a = (if unat (a - sb d) < 8 * unat ?n then m (?src + (a - sb d)) else m a)"
      unfolding m1_def by (rule copy_words_apply) (simp add: us)
    then show ?thesis unfolding w(1) .
  qed
  show "m1 a = m a" if "a \<notin> region (sb d) (buffer_size d)"
    using that w(3) unfolding ap by (simp add: region_def)
  show "pixel d m1 (sb d) x y = pixel d m (sb d) x (y + 10)" if x: "x < pitch d" and y: "y < screen_h d - 10"
  proof -
    have yn: "unat y < unat (screen_h d) - 10" using y w(4) by (simp add: word_less_nat_alt)
    have y10: "unat (y + 10) = unat y + 10"
      using yn unat_u32_less [of "screen_h d"] by (subst unat_add_lem [THEN iffD1]) simp_all
    have ys: "y < screen_h d" "y + 10 < screen_h d" using yn y10 by (simp_all add: word_less_nat_alt)
    let ?i = "unat y * unat (pitch d) + unat x"
    note a1 = unat_pixel_addr [OF assms(1) ys(1) x bound] and a2 = unat_pixel_addr [OF assms(1) ys(2) x bound]
    have off: "pixel_addr d (sb d) x (y + 10) = ?src + (pixel_addr d (sb d) x y - sb d)"
    proof -
      have "unat (pixel_addr d (sb d) x y - sb d) = 4 * ?i" using a1 by (simp add: unat_sub word_le_nat_alt)
      moreover have "4 * ?i < 4 * ((unat (screen_h d) - 10) * unat (pitch d))"
        using cell_bound [OF yn, of "unat x" "unat (pitch d)"] x by (simp add: word_less_nat_alt)
      ultimately have "unat (?src + (pixel_addr d (sb d) x y - sb d)) = unat ?src + 4 * ?i"
        using us w(3) bound by (subst unat_add_lem [THEN iffD1]) simp_all
      moreover have "4 * ((unat y + 10) * unat (pitch d) + unat x) = 40 * unat (pitch d) + 4 * ?i"
        by (simp add: distrib_right)
      ultimately show ?thesis using a2 us unfolding word_unat_eq_iff y10 by linarith
    qed
    show ?thesis unfolding pixel_def
    proof (rule load32_shift)
      fix j :: nat assume j: "j < 4"
      have "?i < (unat (screen_h d) - 10) * unat (pitch d)"
        using cell_bound [OF yn, of "unat x" "unat (pitch d)"] x by (simp add: word_less_nat_alt)
      moreover have "unat (pixel_addr d (sb d) x y + of_nat j - sb d) = 4 * ?i + j"
      proof -
        have "of_nat (unat (pixel_addr d (sb d) x y)) = sb d + of_nat (4 * ?i)"
          unfolding a1 of_nat_add of_nat_unat ucast_id ..
        then have "pixel_addr d (sb d) x y = sb d + of_nat (4 * ?i)" by simp
        moreover have "4 * ?i + j < 2 ^ 64" using calculation \<open>?i < _\<close> w(3) bound j by simp
        ultimately show ?thesis by (simp add: unat_of_nat take_bit_nat_eq_self flip: of_nat_add of_nat_mult)
      qed
      ultimately show "m1 (pixel_addr d (sb d) x y + of_nat j) = m (pixel_addr d (sb d) x (y + 10) + of_nat j)"
        using j unfolding ap off by (simp add: add.commute add.left_commute add_diff_eq)
    qed
  qed
qed

lemma all_dirty_rows:
  assumes "unat (screen_h d) \<le> length (dirty_rows d)"
  shows "all_dirty d = d\<lparr>dirty_rows := replicate (unat (screen_h d)) True @ drop (unat (screen_h d)) (dirty_rows d)\<rparr>"
  unfolding all_dirty_def using assms by (rule set_rows)

lemma scroll_result:
  fixes m :: pmem
  assumes "geometry d"
  obtains d' m' where "scroll (d, m) = (d', m')"
    and "d' = d\<lparr>cursor_y := cursor_y d - 10, dirty := True,
      dirty_rows := replicate (unat (screen_h d)) True @ drop (unat (screen_h d)) (dirty_rows d)\<rparr>"
    and "\<forall>a. a \<notin> region (sb d) (buffer_size d) \<longrightarrow> m' a = m a"
    and "\<forall>x y. x < pitch d \<longrightarrow> y < screen_h d \<longrightarrow> pixel d m' (sb d) x y =
      (if y < screen_h d - 10 then pixel d m (sb d) x (y + 10) else bg_color d)"
proof -
  let ?m1 = "copy_words (sb d) (sb d + 10 * ucast (pitch d * 4)) (ucast (screen_h d - 10) * ucast (pitch d * 4) div 8) m"
  let ?m2 = "for_range (screen_h d - 10) (screen_h d) (fill_row (sb d) d) ?m1"
  have bound: "unat (sb d) + buffer_size d \<le> 2 ^ 64" and len: "unat (screen_h d) \<le> length (dirty_rows d)"
    using assms by (simp_all add: geometry_def)
  have j: "screen_h d - 10 \<le> screen_h d" using scroll_words(4) [OF assms] by (simp add: word_le_nat_alt)
  note c = scroll_copy [OF assms, where m = m] and f = fill_rows_pixels [OF assms bound j, where m = ?m1]
  show thesis
  proof (rule that)
    show "scroll (d, m) = (d\<lparr>cursor_y := cursor_y d - 10, dirty := True,
      dirty_rows := replicate (unat (screen_h d)) True @ drop (unat (screen_h d)) (dirty_rows d)\<rparr>, ?m2)"
      using len by (simp add: scroll_def Let_def all_dirty_rows)
    show "\<forall>a. a \<notin> region (sb d) (buffer_size d) \<longrightarrow> ?m2 a = m a" using c(1) f(1) by simp
    show "\<forall>x y. x < pitch d \<longrightarrow> y < screen_h d \<longrightarrow> pixel d ?m2 (sb d) x y =
      (if y < screen_h d - 10 then pixel d m (sb d) x (y + 10) else bg_color d)"
      using c(2) f(2) by (auto simp: not_less)
  qed simp
qed

lemma scroll_draws:
  assumes "geometry d"
  shows "draws (d, m) (scroll (d, m))"
proof -
  obtain d' m' where s: "scroll (d, m) = (d', m')" "d' = d\<lparr>cursor_y := cursor_y d - 10, dirty := True,
      dirty_rows := replicate (unat (screen_h d)) True @ drop (unat (screen_h d)) (dirty_rows d)\<rparr>"
    "\<forall>a. a \<notin> region (sb d) (buffer_size d) \<longrightarrow> m' a = m a"
    by (rule scroll_result [OF assms, where m = m]) blast
  have "unat (screen_h d) \<le> length (dirty_rows d)" using assms by (simp add: geometry_def)
  then show ?thesis unfolding s(1) using s(2,3) by (simp add: draws_def nth_append)
qed

lemma draws_cursor: "draws st (d, m) \<Longrightarrow> draws st (d\<lparr>cursor_x := x, cursor_y := y\<rparr>, m)"
  "draws st (d, m) \<Longrightarrow> draws st (d\<lparr>cursor_x := x\<rparr>, m)"
  by (cases st; simp add: draws_def)+

lemma draws_from_cursor: "draws (d\<lparr>cursor_x := x, cursor_y := y\<rparr>, m) st \<Longrightarrow> draws (d, m) st"
  "draws (d\<lparr>cursor_x := x\<rparr>, m) st \<Longrightarrow> draws (d, m) st"
  by (cases st; simp add: draws_def)+

lemma geometry_cursor [simp]: "geometry (d\<lparr>cursor_x := x\<rparr>) = geometry d" "geometry (d\<lparr>cursor_y := y\<rparr>) = geometry d"
  by (simp_all add: geometry_def)

definition cursor_ok :: "display \<Rightarrow> bool" where
  "cursor_ok d \<longleftrightarrow> unat (cursor_x d) + 8 \<le> unat (screen_w d) \<and> unat (cursor_y d) + 10 < unat (screen_h d)"

lemma new_line_ok:
  assumes "geometry d" and "unat (cursor_y d) + 10 < unat (screen_h d)"
  shows "draws (d, m) (new_line (d, m)) \<and> cursor_ok (fst (new_line (d, m)))"
proof -
  let ?e = "d\<lparr>cursor_x := 0, cursor_y := cursor_y d + 10\<rparr>"
  have g: "geometry ?e" using assms(1) by simp
  have h: "unat (screen_h d) < 2 ^ 30"
  proof -
    have "unat (screen_h d) * 1 \<le> unat (screen_h d) * unat (pitch d)"
      using assms(1) by (intro mult_le_mono2) (simp add: geometry_def)
    also have "\<dots> < 2 ^ 30" using assms(1) by (simp add: geometry_def)
    finally show ?thesis by simp
  qed
  have y: "unat (cursor_y d + 10) = unat (cursor_y d) + 10" "unat (cursor_y d + 20) = unat (cursor_y d) + 20"
    using assms(2) h by (subst unat_add_lem [THEN iffD1]; simp)+
  show ?thesis
  proof (cases "screen_h d \<le> cursor_y d + 20")
    case True
    then have n: "new_line (d, m) = scroll (?e, m)" by (simp add: new_line_def Let_def add.assoc)
    have "draws (d, m) (new_line (d, m))" unfolding n by (rule draws_from_cursor(1)) (rule scroll_draws [OF g])
    moreover have "cursor_ok (fst (new_line (d, m)))"
    proof -
      obtain d' m' where s: "scroll (?e, m) = (d', m')" "d' = ?e\<lparr>cursor_y := cursor_y ?e - 10, dirty := True,
        dirty_rows := replicate (unat (screen_h ?e)) True @ drop (unat (screen_h ?e)) (dirty_rows ?e)\<rparr>"
        by (rule scroll_result [OF g, where m = m]) blast
      show ?thesis unfolding n s(1) using s(2) assms by (simp add: cursor_ok_def geometry_def)
    qed
    ultimately show ?thesis ..
  next
    case False
    then have n: "new_line (d, m) = (?e, m)" by (simp add: new_line_def Let_def add.assoc)
    show ?thesis unfolding n using False y assms(1)
      by (simp add: draws_cursor cursor_ok_def word_le_nat_alt geometry_def)
  qed
qed

section \<open>Characters\<close>

lemma draw_char_cursor:
  "cursor_x (fst (draw_char beyond c x y st)) = cursor_x (fst st) \<and> cursor_y (fst (draw_char beyond c x y st)) = cursor_y (fst st)"
proof -
  let ?I = "\<lambda>e. cursor_x (fst e) = cursor_x (fst st) \<and> cursor_y (fst e) = cursor_y (fst st)"
  have pp: "?I (put_pixel x y v e)" if "?I e" for x y v and e :: "display \<times> pmem"
    using that by (cases e) (simp add: put_pixel_def mark_dirty_def)
  show ?thesis unfolding draw_char_def
    by (intro for_range_invariant [where I = "\<lambda>_. ?I"]) (simp_all add: pp)
qed

lemma print_char_ok:
  assumes "geometry d" and "cursor_ok d"
  shows "draws (d, m) (print_char beyond c (d, m)) \<and> cursor_ok (fst (print_char beyond c (d, m)))"
proof -
  have y: "unat (cursor_y d) + 10 < unat (screen_h d)" using assms(2) by (simp add: cursor_ok_def)
  have dc: "draws (d, m) (draw_char beyond c' x y (d\<lparr>cursor_x := x', cursor_y := y'\<rparr>, m)) \<and>
      cursor_ok (fst (draw_char beyond c' x y (d\<lparr>cursor_x := x', cursor_y := y'\<rparr>, m)))"
    if "cursor_ok (d\<lparr>cursor_x := x', cursor_y := y'\<rparr>)" for c' x y x' y'
  proof -
    let ?e = "d\<lparr>cursor_x := x', cursor_y := y'\<rparr>"
    obtain d' m' where e: "draw_char beyond c' x y (?e, m) = (d', m')" by fastforce
    have g: "geometry ?e" using assms(1) by simp
    have "draws (?e, m) (d', m')" using draw_char_draws [OF g, of m beyond c' x y] by (simp add: e)
    moreover have "cursor_x d' = x'" "cursor_y d' = y'" using draw_char_cursor [of beyond c' x y "(?e, m)"] by (simp_all add: e)
    ultimately show ?thesis using draws_from_cursor(1) [where d = d and x = x' and y = y' and m = m and st = "(d', m')"] unfolding e
      using that by (auto simp: cursor_ok_def draws_def)
  qed
  consider "c = NL" | "c = CHR 0x0D" | "c = CHR 0x08" | "c \<noteq> NL" "c \<noteq> CHR 0x0D" "c \<noteq> CHR 0x08" by blast
  then show ?thesis
  proof cases
    case 1
    then show ?thesis using new_line_ok [OF assms(1) y] by (simp add: print_char_def)
  next
    case 2
    then show ?thesis using assms by (simp add: print_char_def draws_cursor cursor_ok_def geometry_def)
  next
    case 3
    have w: "unat (screen_w d - 8) = unat (screen_w d) - 8" if "8 \<le> screen_w d" using that by (simp add: unat_sub)
    have x: "unat (cursor_x d - 8) = unat (cursor_x d) - 8" if "8 \<le> cursor_x d" using that by (simp add: unat_sub)
    have u: "unat (cursor_y d - 10) = unat (cursor_y d) - 10" if "10 \<le> cursor_y d" using that by (simp add: unat_sub)
    have g: "8 \<le> screen_w d" using assms(1) by (simp add: geometry_def word_le_nat_alt)
    have eq: "d\<lparr>cursor_x := v, cursor_y := cursor_y d\<rparr> = d\<lparr>cursor_x := v\<rparr>" for v by (cases d) simp
    have eq2: "d\<lparr>cursor_y := v, cursor_x := w\<rparr> = d\<lparr>cursor_x := w, cursor_y := v\<rparr>" for v w by simp
    show ?thesis
    proof (cases "8 \<le> cursor_x d")
      case True
      then have "cursor_ok (d\<lparr>cursor_x := cursor_x d - 8, cursor_y := cursor_y d\<rparr>)"
        using assms(2) x by (simp add: cursor_ok_def word_le_nat_alt)
      from dc [OF this, of "CHR '' ''" "cursor_x d - 8" "cursor_y d"] show ?thesis
        using 3 True by (simp add: print_char_def eq)
    next
      case False
      then have "cursor_ok (d\<lparr>cursor_x := screen_w d - 8, cursor_y := cursor_y d - 10\<rparr>)" if "10 \<le> cursor_y d"
        using that assms g w u by (simp add: cursor_ok_def geometry_def word_le_nat_alt)
      from dc [OF this, of "CHR '' ''" "screen_w d - 8" "cursor_y d - 10"] show ?thesis
        using 3 False g assms(2) by (simp add: print_char_def eq2)
    qed
  next
    case 4
    obtain d1 m1 where e: "draw_char beyond c (cursor_x d) (cursor_y d) (d, m) = (d1, m1)" by fastforce
    have dr: "draws (d, m) (d1, m1)" using draw_char_draws [OF assms(1), of m beyond c "cursor_x d" "cursor_y d"] by (simp add: e)
    have cu: "cursor_x d1 = cursor_x d" "cursor_y d1 = cursor_y d"
      using draw_char_cursor [of beyond c "cursor_x d" "cursor_y d" "(d, m)"] by (simp_all add: e)
    let ?d2 = "d1\<lparr>cursor_x := cursor_x d + 8\<rparr>"
    have dr2: "draws (d, m) (?d2, m1)" by (rule draws_cursor(2) [OF dr])
    have g2: "geometry ?d2" using draws_geometry [OF dr assms(1)] by simp
    have same: "screen_h d1 = screen_h d" "screen_w d1 = screen_w d" using dr by (simp_all add: draws_def)
    have pc: "print_char beyond c (d, m) = (if screen_w d \<le> cursor_x d + 16 then new_line (?d2, m1) else (?d2, m1))"
      using 4 e cu same by (simp add: print_char_def Let_def add.assoc)
    show ?thesis
    proof (cases "screen_w d \<le> cursor_x d + 16")
      case True
      have "unat (cursor_y ?d2) + 10 < unat (screen_h ?d2)" using y cu same by simp
      from new_line_ok [OF g2 this, of m1] show ?thesis using True pc draws_trans [OF dr2] by simp
    next
      case False
      then have "unat (cursor_x d + 16) < unat (screen_w d)" by (simp add: word_le_nat_alt)
      moreover have wb: "unat (screen_w d) < 2 ^ 30"
      proof -
        have "unat (screen_w d) \<le> 1 * unat (pitch d)" using assms(1) by (simp add: geometry_def)
        also have "\<dots> \<le> unat (screen_h d) * unat (pitch d)" using assms(1) by (intro mult_le_mono1) (simp add: geometry_def)
        also have "\<dots> < 2 ^ 30" using assms(1) by (simp add: geometry_def)
        finally show ?thesis .
      qed
      moreover have "unat (cursor_x d + 16) = unat (cursor_x d) + 16" "unat (cursor_x d + 8) = unat (cursor_x d) + 8"
        using wb assms(2) by (subst unat_add_lem [THEN iffD1]; simp add: cursor_ok_def)+
      ultimately show ?thesis using False pc dr2 cu same y by (simp add: cursor_ok_def)
    qed
  qed
qed

section \<open>Flushing\<close>

text \<open>
  The invariant of the console: the cursor is on the screen, a row that is not marked shows what the
  shadow buffer holds, and without the global mark no row is marked.
\<close>

definition synced :: "display \<Rightarrow> pmem \<Rightarrow> nat \<Rightarrow> bool" where
  "synced d m y \<longleftrightarrow> (\<forall>k < 4 * unat (pitch d). row_byte d m (fb d) y k = row_byte d m (sb d) y k)"

definition display_inv :: "display \<times> pmem \<Rightarrow> bool" where
  "display_inv = (\<lambda>(d, m). geometry d \<and> cursor_ok d \<and>
     (\<forall>y < unat (screen_h d). \<not> dirty_rows d ! y \<longrightarrow> synced d m y) \<and>
     (\<not> dirty d \<longrightarrow> (\<forall>y < unat (screen_h d). \<not> dirty_rows d ! y)))"

lemma row_offset:
  assumes "y < unat (screen_h d)" and "k < 4 * unat (pitch d)"
  shows "4 * (y * unat (pitch d)) + k < buffer_size d"
proof -
  have "(y + 1) * unat (pitch d) \<le> unat (screen_h d) * unat (pitch d)" using assms(1) by (intro mult_le_mono1) simp
  then show ?thesis using assms(2) by simp
qed

lemma unat_offset:
  assumes "unat p + n \<le> 2 ^ 64" and "k < n"
  shows "unat (p + of_nat k :: u64) = unat p + k"
  using assms by (subst unat_add_lem [THEN iffD1]) (simp_all add: unat_of_nat take_bit_nat_eq_self)

lemma fb_not_shadow:
  assumes "geometry d" and "k < buffer_size d"
  shows "fb d + of_nat k \<notin> region (sb d) (buffer_size d)" and "sb d + of_nat k \<notin> region (fb d) (buffer_size d)"
proof -
  have b: "unat (sb d) + buffer_size d \<le> 2 ^ 64" "unat (fb d) + buffer_size d \<le> 2 ^ 64"
    "unat (sb d) + buffer_size d \<le> unat (fb d) \<or> unat (fb d) + buffer_size d \<le> unat (sb d)"
    using assms(1) by (simp_all add: geometry_def)
  show "fb d + of_nat k \<notin> region (sb d) (buffer_size d)" "sb d + of_nat k \<notin> region (fb d) (buffer_size d)"
    using b(3) assms(2) unat_offset [OF b(1) assms(2)] unat_offset [OF b(2) assms(2)]
    by (auto simp: region_interval [OF b(1)] region_interval [OF b(2)])
qed

lemma draws_inv:
  assumes "display_inv (d, m)" and "draws (d, m) (d', m')" and "cursor_ok d'"
  shows "display_inv (d', m')"
proof -
  have g: "geometry d" and i: "\<forall>y < unat (screen_h d). \<not> dirty_rows d ! y \<longrightarrow> synced d m y"
    "\<not> dirty d \<Longrightarrow> \<forall>y < unat (screen_h d). \<not> dirty_rows d ! y"
    using assms(1) by (auto simp: display_inv_def)
  have st: "statics d' = statics d" and out: "\<And>a. a \<notin> region (sb d) (buffer_size d) \<Longrightarrow> m' a = m a"
    and dr: "\<forall>y < unat (screen_h d). dirty_rows d ! y \<longrightarrow> dirty_rows d' ! y"
    and row: "\<And>y k. y < unat (screen_h d) \<Longrightarrow> \<not> dirty_rows d' ! y \<Longrightarrow> k < 4 * unat (pitch d) \<Longrightarrow>
      row_byte d m' (sb d) y k = row_byte d m (sb d) y k"
    and cl: "\<not> dirty d' \<Longrightarrow> \<not> dirty d \<and> dirty_rows d' = dirty_rows d"
    using assms(2) by (auto simp: draws_def)
  have "synced d' m' y" if y: "y < unat (screen_h d)" "\<not> dirty_rows d' ! y" for y
  proof -
    have "\<not> dirty_rows d ! y" using dr y by blast
    then have s: "synced d m y" using i(1) y(1) by blast
    have "row_byte d m' (fb d) y k = row_byte d m (fb d) y k" if "k < 4 * unat (pitch d)" for k
      using fb_not_shadow(1) [OF g row_offset [OF y(1) that]] out by (simp add: byte_at_def)
    then show ?thesis using s row [OF y] st by (simp add: synced_def)
  qed
  then show ?thesis using draws_geometry [OF assms(2) g] assms(3) cl i(2) st by (auto simp: display_inv_def)
qed

lemma print_char_inv:
  assumes "display_inv st"
  shows "display_inv (print_char beyond c st) \<and> draws st (print_char beyond c st)"
proof -
  obtain d m d' m' where st: "st = (d, m)" and r: "print_char beyond c (d, m) = (d', m')" by (metis surj_pair)
  have "geometry d" "cursor_ok d" using assms st by (simp_all add: display_inv_def)
  from print_char_ok [OF this, of m beyond c] have "draws (d, m) (d', m')" "cursor_ok d'" by (simp_all add: r)
  then show ?thesis using draws_inv [of d m d' m'] assms by (simp add: st r)
qed

lemma flush_words:
  assumes "geometry d"
  shows "8 * unat (ucast (pitch d * 4) div 8 :: u64) = 4 * unat (pitch d)"
proof -
  have "unat (pitch d) < 2 ^ 28" and e: "even (unat (pitch d))"
  proof -
    have "10 * unat (pitch d) \<le> unat (screen_h d) * unat (pitch d)"
      using assms by (intro mult_le_mono1) (simp add: geometry_def)
    also have "\<dots> < 2 ^ 30" using assms by (simp add: geometry_def)
    finally show "unat (pitch d) < 2 ^ 28" by simp
  qed (use assms in \<open>simp add: geometry_def\<close>)
  then have "unat (ucast (pitch d * 4) :: u64) = 4 * unat (pitch d)"
    by (simp add: unsigned_ucast_eq unat_word_ariths take_bit_nat_eq_self)
  then show ?thesis using e by (auto simp: unat_div elim!: evenE)
qed

text \<open>The copy of one row: byte by byte it becomes the row of the shadow buffer.\<close>

lemma row_copy:
  fixes m :: pmem
  assumes "geometry d" and "y < screen_h d"
  defines "m' \<equiv> copy_words (pixel_addr d (fb d) 0 y) (pixel_addr d (sb d) 0 y) (ucast (pitch d * 4) div 8) m"
  shows "k < buffer_size d \<Longrightarrow> byte_at m' (fb d) k =
      (if 4 * (unat y * unat (pitch d)) \<le> k \<and> k < 4 * (unat y * unat (pitch d)) + 4 * unat (pitch d)
       then byte_at m (sb d) k else byte_at m (fb d) k)"
    and "a \<notin> region (fb d) (buffer_size d) \<Longrightarrow> m' a = m a"
proof -
  let ?o = "4 * (unat y * unat (pitch d))" and ?n = "ucast (pitch d * 4) div 8 :: u64"
  have b: "unat (sb d) + buffer_size d \<le> 2 ^ 64" "unat (fb d) + buffer_size d \<le> 2 ^ 64"
    "unat (sb d) + buffer_size d \<le> unat (fb d) \<or> unat (fb d) + buffer_size d \<le> unat (sb d)"
    and p0: "0 < pitch d" using assms(1) by (auto simp: geometry_def word_less_nat_alt)
  have y: "unat y < unat (screen_h d)" using assms(2) by (simp add: word_less_nat_alt)
  have end_row: "?o + 4 * unat (pitch d) \<le> buffer_size d"
  proof -
    have "(unat y + 1) * unat (pitch d) \<le> unat (screen_h d) * unat (pitch d)" using y by (intro mult_le_mono1) simp
    then show ?thesis by simp
  qed
  have us: "unat (pixel_addr d (sb d) 0 y) = unat (sb d) + ?o" "unat (pixel_addr d (fb d) 0 y) = unat (fb d) + ?o"
    using unat_pixel_addr [OF assms(1,2) p0 b(1)] unat_pixel_addr [OF assms(1,2) p0 b(2)] by simp_all
  have as: "pixel_addr d (sb d) 0 y = sb d + of_nat ?o" "pixel_addr d (fb d) 0 y = fb d + of_nat ?o"
    using us [THEN arg_cong, of "of_nat :: nat \<Rightarrow> u64"] by (simp_all only: of_nat_add of_nat_unat ucast_id)
  note w = flush_words [OF assms(1)]
  have ap: "m' a = (if unat (a - pixel_addr d (fb d) 0 y) < 4 * unat (pitch d)
      then m (pixel_addr d (sb d) 0 y + (a - pixel_addr d (fb d) 0 y)) else m a)" for a
  proof -
    have "unat (pixel_addr d (sb d) 0 y) + 8 * unat ?n \<le> 2 ^ 64" "unat (pixel_addr d (fb d) 0 y) + 8 * unat ?n \<le> 2 ^ 64"
      unfolding w us using b(1,2) end_row by linarith+
    moreover have "unat (pixel_addr d (fb d) 0 y) \<le> unat (pixel_addr d (sb d) 0 y) \<or>
        unat (pixel_addr d (sb d) 0 y) + 8 * unat ?n \<le> unat (pixel_addr d (fb d) 0 y)"
      unfolding w us using b(3) end_row by linarith
    ultimately show ?thesis unfolding m'_def w [symmetric] by (rule copy_words_apply)
  qed
  show "byte_at m' (fb d) k = (if ?o \<le> k \<and> k < ?o + 4 * unat (pitch d) then byte_at m (sb d) k else byte_at m (fb d) k)"
    if k: "k < buffer_size d"
  proof (cases "?o \<le> k")
    case True
    then obtain j where j: "k = ?o + j" using le_Suc_ex by blast
    have e: "fb d + of_nat k - pixel_addr d (fb d) 0 y = of_nat j" by (simp add: as j)
    have "unat (of_nat j :: u64) = j" using k b(1) j by (simp add: unat_of_nat take_bit_nat_eq_self)
    then show ?thesis using True unfolding byte_at_def ap e by (simp add: as(1) j add.assoc)
  next
    case False
    have "unat (fb d + of_nat k - pixel_addr d (fb d) 0 y) = 2 ^ 64 + (unat (fb d) + k) - (unat (fb d) + ?o)"
      using False unat_offset [OF b(2) k] us(2) by (simp add: unat_sub_if')
    then have "\<not> unat (fb d + of_nat k - pixel_addr d (fb d) 0 y) < 4 * unat (pitch d)" using b end_row False by linarith
    then show ?thesis using False unfolding byte_at_def ap by simp
  qed
  show "m' a = m a" if "a \<notin> region (fb d) (buffer_size d)"
  proof -
    have "a \<notin> region (pixel_addr d (fb d) 0 y) (4 * unat (pitch d))"
      using that us(2) end_row b(2) by (auto simp: region_interval)
    then show ?thesis unfolding ap by (simp add: region_def)
  qed
qed

lemma flush_row_step:
  assumes "geometry d" and "i < screen_h d" and "statics e = statics d"
    and rows: "\<forall>y < unat (screen_h d). dirty_rows e ! y \<longleftrightarrow> dirty_rows d ! y \<and> unat i \<le> y"
    and sh: "\<forall>k < buffer_size d. byte_at t (sb d) k = byte_at m (sb d) k"
    and sy: "\<forall>y < unat (screen_h d). y < unat i \<or> \<not> dirty_rows d ! y \<longrightarrow> synced d t y"
    and out: "\<forall>a. a \<notin> region (fb d) (buffer_size d) \<longrightarrow> t a = m a"
    and res: "flush_row i (e, t) = (e', t')"
  shows "\<forall>y < unat (screen_h d). dirty_rows e' ! y \<longleftrightarrow> dirty_rows d ! y \<and> unat i + 1 \<le> y"
    and "\<forall>k < buffer_size d. byte_at t' (sb d) k = byte_at m (sb d) k"
    and "\<forall>y < unat (screen_h d). y < unat i + 1 \<or> \<not> dirty_rows d ! y \<longrightarrow> synced d t' y"
    and "\<forall>a. a \<notin> region (fb d) (buffer_size d) \<longrightarrow> t' a = m a"
    and "e' = e\<lparr>dirty_rows := (dirty_rows e)[unat i := False]\<rparr>"
proof -
  have i: "unat i < unat (screen_h d)" using assms(2) by (simp add: word_less_nat_alt)
  have len: "unat i < length (dirty_rows e)" using i assms(1,3) by (simp add: geometry_def)
  let ?t = "copy_words (pixel_addr d (fb d) 0 i) (pixel_addr d (sb d) 0 i) (ucast (pitch d * 4) div 8) t"
  have pa: "pixel_addr e = pixel_addr d" using assms(3) by (intro ext) (simp add: pixel_addr_def)
  have both: "e' = e\<lparr>dirty_rows := (dirty_rows e)[unat i := False]\<rparr> \<and> t' = (if dirty_rows d ! unat i then ?t else t)"
  proof (cases "dirty_rows d ! unat i")
    case True
    then show ?thesis using res rows i assms(3) by (simp add: flush_row_def pa)
  next
    case False
    then have "\<not> dirty_rows e ! unat i" using rows i by simp
    then have "(dirty_rows e)[unat i := False] = dirty_rows e" by (metis list_update_id)
    then show ?thesis using res False \<open>\<not> dirty_rows e ! unat i\<close> by (simp add: flush_row_def)
  qed
  then show e': "e' = e\<lparr>dirty_rows := (dirty_rows e)[unat i := False]\<rparr>" by blast
  have t': "t' = (if dirty_rows d ! unat i then ?t else t)" using both by blast
  note c = row_copy [OF assms(1,2), of _ t]
  show "\<forall>y < unat (screen_h d). dirty_rows e' ! y \<longleftrightarrow> dirty_rows d ! y \<and> unat i + 1 \<le> y"
    unfolding e' using rows len by (auto simp: nth_list_update)
  show o: "\<forall>a. a \<notin> region (fb d) (buffer_size d) \<longrightarrow> t' a = m a" using c(2) out unfolding t' by simp
  have "byte_at t' (sb d) k = byte_at t (sb d) k" if "k < buffer_size d" for k
    using c(2) [OF fb_not_shadow(2) [OF assms(1) that]] unfolding t' by (simp add: byte_at_def)
  then show sb': "\<forall>k < buffer_size d. byte_at t' (sb d) k = byte_at m (sb d) k" using sh by simp
  show "\<forall>y < unat (screen_h d). y < unat i + 1 \<or> \<not> dirty_rows d ! y \<longrightarrow> synced d t' y"
  proof (intro allI impI)
    fix y assume y: "y < unat (screen_h d)" "y < unat i + 1 \<or> \<not> dirty_rows d ! y"
    show "synced d t' y"
      unfolding synced_def
    proof (intro allI impI)
      fix k assume k: "k < 4 * unat (pitch d)"
      note off = row_offset [OF y(1) k]
      have "row_byte d t' (fb d) y k = row_byte d t (sb d) y k"
      proof (cases "y = unat i \<and> dirty_rows d ! unat i")
        case True
        then show ?thesis using c(1) [OF off] k unfolding t' by simp
      next
        case False
        have s: "row_byte d t (fb d) y k = row_byte d t (sb d) y k"
          using sy y False k by (auto simp: synced_def less_Suc_eq)
        have "\<not> (4 * (unat i * unat (pitch d)) \<le> 4 * (y * unat (pitch d)) + k \<and>
            4 * (y * unat (pitch d)) + k < 4 * (unat i * unat (pitch d)) + 4 * unat (pitch d))" if "y \<noteq> unat i"
        proof (cases "y < unat i")
          case True
          then have "(y + 1) * unat (pitch d) \<le> unat i * unat (pitch d)" by (intro mult_le_mono1) simp
          then show ?thesis using k by simp
        next
          case False
          then have "(unat i + 1) * unat (pitch d) \<le> y * unat (pitch d)" using that by (intro mult_le_mono1) simp
          then show ?thesis by simp
        qed
        then show ?thesis using s c(1) [OF off] False unfolding t' by (cases "y = unat i") simp_all
      qed
      then show "row_byte d t' (fb d) y k = row_byte d t' (sb d) y k" using sb' sh off by simp
    qed
  qed
qed

lemma display_flush_result:
  assumes "display_inv (d, m)"
  obtains d' m' where "display_flush (d, m) = (d', m')" and "display_inv (d', m')" and "statics d' = statics d"
    and "\<not> dirty d'" and "\<forall>y < unat (screen_h d). synced d m' y"
    and "\<forall>k < buffer_size d. byte_at m' (sb d) k = byte_at m (sb d) k"
    and "\<forall>a. a \<notin> region (fb d) (buffer_size d) \<longrightarrow> m' a = m a"
proof (cases "dirty d")
  case False
  then have "display_flush (d, m) = (d, m)" by (simp add: display_flush_def)
  then show thesis using that assms False by (simp add: display_inv_def)
next
  case True
  have g: "geometry d" "sb d \<noteq> 0" "fb d \<noteq> 0" using assms by (auto simp: display_inv_def geometry_def)
  define I where "I = (\<lambda>(i :: u32) (e, t). statics e = statics d \<and> cursor_x e = cursor_x d \<and> cursor_y e = cursor_y d \<and>
    (\<forall>y < unat (screen_h d). dirty_rows e ! y \<longleftrightarrow> dirty_rows d ! y \<and> unat i \<le> y) \<and>
    (\<forall>k < buffer_size d. byte_at t (sb d) k = byte_at m (sb d) k) \<and>
    (\<forall>y < unat (screen_h d). y < unat i \<or> \<not> dirty_rows d ! y \<longrightarrow> synced d t y) \<and>
    (\<forall>a. a \<notin> region (fb d) (buffer_size d) \<longrightarrow> t a = m a))"
  have "I (screen_h d) (for_range 0 (screen_h d) flush_row (d, m))"
  proof (rule for_range_invariant [where I = I])
    show "I 0 (d, m)" using assms by (simp add: I_def display_inv_def)
    fix i and st :: "display \<times> pmem" assume i: "i < screen_h d" and I: "I i st"
    obtain e t e' t' where st: "st = (e, t)" and r: "flush_row i (e, t) = (e', t')" by (metis surj_pair)
    have h: "statics e = statics d" "cursor_x e = cursor_x d \<and> cursor_y e = cursor_y d"
      "\<forall>y < unat (screen_h d). dirty_rows e ! y \<longleftrightarrow> dirty_rows d ! y \<and> unat i \<le> y"
      "\<forall>k < buffer_size d. byte_at t (sb d) k = byte_at m (sb d) k"
      "\<forall>y < unat (screen_h d). y < unat i \<or> \<not> dirty_rows d ! y \<longrightarrow> synced d t y"
      "\<forall>a. a \<notin> region (fb d) (buffer_size d) \<longrightarrow> t a = m a"
      using I st by (simp_all add: I_def)
    note s = flush_row_step [OF g(1) i h(1,3-6) r]
    have u: "unat (i + 1) = unat i + 1" using unat_Suc_less [OF i] by simp
    show "I (i + 1) (flush_row i st)"
      unfolding I_def st r u prod.case using s(1-4) h(1,2) s(5) by simp
  qed simp
  moreover obtain e t where e: "for_range 0 (screen_h d) flush_row (d, m) = (e, t)" by fastforce
  ultimately have h: "statics e = statics d" "cursor_x e = cursor_x d" "cursor_y e = cursor_y d"
    "\<forall>y < unat (screen_h d). \<not> dirty_rows e ! y"
    "\<forall>k < buffer_size d. byte_at t (sb d) k = byte_at m (sb d) k"
    "\<forall>y < unat (screen_h d). synced d t y" "\<forall>a. a \<notin> region (fb d) (buffer_size d) \<longrightarrow> t a = m a"
    by (auto simp: I_def)
  have f: "display_flush (d, m) = (e\<lparr>dirty := False\<rparr>, t)" using True g e by (simp add: display_flush_def)
  have "display_inv (e\<lparr>dirty := False\<rparr>, t)"
    using h(1-4,6) assms by (simp add: display_inv_def cursor_ok_def geometry_def synced_def)
  then show thesis using that [OF f] h by simp
qed

lemma pixel_of_bytes:
  assumes "geometry d" and "x < pitch d" and "y < screen_h d"
    and "\<forall>k < 4 * unat (pitch d). row_byte d m' p (unat y) k = row_byte d m q (unat y) k"
  shows "pixel d m' p x y = pixel d m q x y"
  unfolding pixel_def
proof (rule load32_shift)
  fix j :: nat assume j: "j < 4"
  note i = unat_pixel_index [OF assms(1,3,2)]
  have e: "pixel_addr d r x y + of_nat j = r + of_nat (4 * (unat y * unat (pitch d)) + (4 * unat x + j))" for r
  proof -
    have "(ucast (y * pitch d + x) :: u64) = of_nat (unat (y * pitch d + x))" by (simp add: of_nat_unat)
    also have "\<dots> = of_nat (unat y * unat (pitch d) + unat x)" by (simp only: i(1))
    finally show ?thesis by (simp add: pixel_addr_def algebra_simps)
  qed
  have "4 * unat x + j < 4 * unat (pitch d)" using assms(2) j by (simp add: word_less_nat_alt)
  then show "m' (pixel_addr d p x y + of_nat j) = m (pixel_addr d q x y + of_nat j)"
    using assms(4) unfolding e byte_at_def by blast
qed

section \<open>What a character looks like\<close>

definition ink :: "(nat \<Rightarrow> u8) \<Rightarrow> display \<Rightarrow> char \<Rightarrow> u32 \<Rightarrow> nat \<Rightarrow> u32" where
  "ink beyond d c row col = (if bit (glyph_row beyond c row) col then fg_color d else bg_color d)"

lemma put_pixel_shadow:
  assumes "geometry d" and "x < screen_w d" and "y < screen_h d" and "statics e = statics d"
  shows "statics (fst (put_pixel x y v (e, t))) = statics d"
    and "snd (put_pixel x y v (e, t)) = store32 t (pixel_addr d (sb d) x y) v"
  using assms by (auto simp: put_pixel_def mark_dirty_def geometry_def pixel_addr_def not_le)

lemma draw_row_pixels:
  assumes "geometry d" and "unat x + 8 \<le> unat (screen_w d)" and "y < screen_h d" and "statics e = statics d"
    and "for_range 0 8 (\<lambda>col st. if bit (glyph_row beyond c row) (unat col)
      then put_pixel (x + col) y (fg_color (fst st)) st else put_pixel (x + col) y (bg_color (fst st)) st) (e, t) = (e', t')"
  shows "statics e' = statics d"
    and "x' < pitch d \<Longrightarrow> y' < screen_h d \<Longrightarrow> pixel d t' (sb d) x' y' =
      (if y' = y \<and> unat x \<le> unat x' \<and> unat x' < unat x + 8 then ink beyond d c row (unat x' - unat x)
       else pixel d t (sb d) x' y')"
proof -
  define J where "J = (\<lambda>(n :: u32) (e, u). statics e = statics d \<and> (\<forall>x' y'. x' < pitch d \<longrightarrow> y' < screen_h d \<longrightarrow>
    pixel d u (sb d) x' y' = (if y' = y \<and> unat x \<le> unat x' \<and> unat x' < unat x + unat n
      then ink beyond d c row (unat x' - unat x) else pixel d t (sb d) x' y')))"
  have bound: "unat (sb d) + buffer_size d \<le> 2 ^ 64" and wp: "unat (screen_w d) \<le> unat (pitch d)"
    using assms(1) by (simp_all add: geometry_def)
  have "J 8 (e', t')" unfolding assms(5) [symmetric]
  proof (rule for_range_invariant [where I = J])
    show "J 0 (e, t)" using assms(4) by (auto simp: J_def)
    fix n and st :: "display \<times> pmem" assume n: "n < 8" and J: "J n st"
    obtain f u where st: "st = (f, u)" by fastforce
    have f: "statics f = statics d" using J by (simp add: J_def st)
    have un: "unat n < 8" using n by (simp add: word_less_nat_alt)
    have ux: "unat (x + n) = unat x + unat n"
      using un assms(2) unat_u32_less [of "screen_w d"] by (subst unat_add_lem [THEN iffD1]) simp_all
    have xn: "x + n < screen_w d" "x + n < pitch d" using ux un assms(2) wp by (simp_all add: word_less_nat_alt)
    have u1: "unat (n + 1) = unat n + 1" using unat_Suc_less [OF n] by simp
    define st' where "st' = (if bit (glyph_row beyond c row) (unat n)
      then put_pixel (x + n) y (fg_color (fst st)) st else put_pixel (x + n) y (bg_color (fst st)) st)"
    have p: "statics (fst st') = statics d"
        "snd st' = store32 u (pixel_addr d (sb d) (x + n) y) (ink beyond d c row (unat n))"
      using put_pixel_shadow [OF assms(1) xn(1) assms(3) f] f unfolding st'_def st ink_def by (cases "bit (glyph_row beyond c row) (unat n)"; simp)+
    have eq: "x' = x + n \<longleftrightarrow> unat x' = unat x + unat n" for x' :: u32 by (simp add: word_unat_eq_iff ux)
    have "pixel d (snd st') (sb d) x' y' = (if y' = y \<and> unat x \<le> unat x' \<and> unat x' < unat x + (unat n + 1)
        then ink beyond d c row (unat x' - unat x) else pixel d t (sb d) x' y')"
      if "x' < pitch d" "y' < screen_h d" for x' y'
    proof -
      have "pixel d (snd st') (sb d) x' y' = (if x' = x + n \<and> y' = y then ink beyond d c row (unat n) else pixel d u (sb d) x' y')"
        unfolding p(2) by (rule pixel_store [OF assms(1) bound xn(2) assms(3) that])
      moreover have "pixel d u (sb d) x' y' = (if y' = y \<and> unat x \<le> unat x' \<and> unat x' < unat x + unat n
          then ink beyond d c row (unat x' - unat x) else pixel d t (sb d) x' y')"
        using J that by (simp add: J_def st)
      ultimately show ?thesis unfolding eq by auto
    qed
    then show "J (n + 1) (if bit (glyph_row beyond c row) (unat n)
        then put_pixel (x + n) y (fg_color (fst st)) st else put_pixel (x + n) y (bg_color (fst st)) st)"
      using p(1) unfolding st'_def [symmetric] by (simp add: J_def u1 case_prod_beta)
  qed simp
  then show "statics e' = statics d" "x' < pitch d \<Longrightarrow> y' < screen_h d \<Longrightarrow> pixel d t' (sb d) x' y' =
      (if y' = y \<and> unat x \<le> unat x' \<and> unat x' < unat x + 8 then ink beyond d c row (unat x' - unat x)
       else pixel d t (sb d) x' y')"
    by (simp_all add: J_def)
qed

lemma draw_char_pixels:
  assumes "geometry d" and "unat x + 8 \<le> unat (screen_w d)" and "unat y + 8 \<le> unat (screen_h d)"
    and "x' < pitch d" and "y' < screen_h d"
  shows "pixel d (snd (draw_char beyond c x y (d, m))) (sb d) x' y' =
    (if unat x \<le> unat x' \<and> unat x' < unat x + 8 \<and> unat y \<le> unat y' \<and> unat y' < unat y + 8
     then ink beyond d c (y' - y) (unat x' - unat x) else pixel d m (sb d) x' y')"
proof -
  define I where "I = (\<lambda>(r :: u32) (e, u). statics e = statics d \<and> (\<forall>x' y'. x' < pitch d \<longrightarrow> y' < screen_h d \<longrightarrow>
    pixel d u (sb d) x' y' = (if unat x \<le> unat x' \<and> unat x' < unat x + 8 \<and> unat y \<le> unat y' \<and> unat y' < unat y + unat r
      then ink beyond d c (y' - y) (unat x' - unat x) else pixel d m (sb d) x' y')))"
  have "I 8 (draw_char beyond c x y (d, m))" unfolding draw_char_def
  proof (rule for_range_invariant [where I = I])
    show "I 0 (d, m)" by (auto simp: I_def)
    fix r and st :: "display \<times> pmem" assume r: "r < 8" and I: "I r st"
    let ?f = "\<lambda>col st. if bit (glyph_row beyond c r) (unat col) then put_pixel (x + col) (y + r) (fg_color (fst st)) st
      else put_pixel (x + col) (y + r) (bg_color (fst st)) st"
    obtain e t where st: "st = (e, t)" by (rule prod.exhaust)
    obtain e' t' where res: "for_range 0 8 ?f (e, t) = (e', t')" by (rule prod.exhaust)
    have ur: "unat r < 8" using r by (simp add: word_less_nat_alt)
    have uy: "unat (y + r) = unat y + unat r"
      using ur assms(3) unat_u32_less [of "screen_h d"] by (subst unat_add_lem [THEN iffD1]) simp_all
    have yr: "y + r < screen_h d" using uy ur assms(3) by (simp add: word_less_nat_alt)
    have e: "statics e = statics d" using I by (simp add: I_def st)
    note row = draw_row_pixels [OF assms(1,2) yr e res]
    have u1: "unat (r + 1) = unat r + 1" using unat_Suc_less [OF r] by simp
    have eq: "y' = y + r \<longleftrightarrow> unat y' = unat y + unat r" for y' :: u32 by (simp add: word_unat_eq_iff uy)
    have "pixel d t' (sb d) x' y' = (if unat x \<le> unat x' \<and> unat x' < unat x + 8 \<and> unat y \<le> unat y' \<and> unat y' < unat y + (unat r + 1)
        then ink beyond d c (y' - y) (unat x' - unat x) else pixel d m (sb d) x' y')"
      if "x' < pitch d" "y' < screen_h d" for x' y'
    proof (cases "y' = y + r \<and> unat x \<le> unat x' \<and> unat x' < unat x + 8")
      case True
      then show ?thesis using row(2) [OF that] eq [of y'] by simp
    next
      case False
      then have "pixel d t' (sb d) x' y' = pixel d t (sb d) x' y'" using row(2) [OF that] by auto
      then show ?thesis using I that False unfolding eq by (auto simp: I_def st)
    qed
    then show "I (r + 1) (for_range 0 8 ?f st)" using row(1) unfolding st res I_def u1 by simp
  qed simp
  then show ?thesis using assms(4,5) by (auto simp: I_def case_prod_beta)
qed

section \<open>Properties\<close>

definition example_display :: display where
  "example_display = \<lparr>sb = 0x1000, fb = 0x10000, screen_w = 16, screen_h = 24, pitch = 16, cursor_x = 0, cursor_y = 0,
     fg_color = 0xFFFFFF, bg_color = 0x303030, dirty_rows = replicate 24 True, dirty = True\<rparr>"

lemma example_display_inv: "display_inv (example_display, \<lambda>_. 0)"
  by (simp add: display_inv_def geometry_def cursor_ok_def synced_def byte_at_def example_display_def)

lemma draw_string_inv:
  "display_inv st \<Longrightarrow> display_inv (fold (print_char beyond) cs st) \<and> draws st (fold (print_char beyond) cs st)"
proof (induction cs arbitrary: st)
  case (Cons c cs)
  note p = print_char_inv [OF Cons.prems, of beyond c]
  show ?case using Cons.IH [OF conjunct1 [OF p]] draws_trans [OF conjunct2 [OF p]] by simp
qed simp

text \<open>
  C19: Printing any string keeps the invariant of the console: the cursor stays on the screen and every
  row that is not marked shows the shadow buffer; and it writes no memory outside the shadow buffer.
\<close>

theorem draw_string_safe:
  assumes "display_inv (d, m)" and "draw_string beyond str (d, m) = (d', m')"
  shows "display_inv (d', m') \<and> (\<forall>a. a \<notin> region (sb d) (buffer_size d) \<longrightarrow> m' a = m a)"
proof -
  from draw_string_inv [OF assms(1), of beyond "cstr str"] assms(2)
  have "display_inv (d', m')" "draws (d, m) (d', m')" by (simp_all add: draw_string_def)
  then show ?thesis by (simp add: draws_def)
qed

theorem draw_string_safe_witness:
  "display_inv (draw_string (\<lambda>_. 0) ''Hello, world'' (example_display, \<lambda>_. 0))"
  by (cases "draw_string (\<lambda>_. 0) ''Hello, world'' (example_display, \<lambda>_. 0)")
    (simp only: draw_string_safe [OF example_display_inv])

text \<open>
  C20: After a flush every pixel of the framebuffer is the pixel of the shadow buffer, the shadow buffer
  and all memory outside the framebuffer are as before, and no row is marked.
\<close>

theorem display_flush_shows:
  assumes "display_inv (d, m)" and "display_flush (d, m) = (d', m')"
  shows "display_inv (d', m') \<and> \<not> dirty d' \<and> (\<forall>a. a \<notin> region (fb d) (buffer_size d) \<longrightarrow> m' a = m a) \<and>
    (\<forall>x y. x < pitch d \<longrightarrow> y < screen_h d \<longrightarrow> pixel d m' (fb d) x y = pixel d m (sb d) x y)"
proof -
  have g: "geometry d" using assms(1) by (simp add: display_inv_def)
  obtain e t where r: "display_flush (d, m) = (e, t)" "display_inv (e, t)" "\<not> dirty e"
    "\<forall>y < unat (screen_h d). synced d t y" "\<forall>k < buffer_size d. byte_at t (sb d) k = byte_at m (sb d) k"
    "\<forall>a. a \<notin> region (fb d) (buffer_size d) \<longrightarrow> t a = m a"
    by (rule display_flush_result [OF assms(1)]) blast
  have "pixel d t (fb d) x y = pixel d m (sb d) x y" if "x < pitch d" "y < screen_h d" for x y
  proof (rule pixel_of_bytes [OF g that])
    have "unat y < unat (screen_h d)" using that(2) by (simp add: word_less_nat_alt)
    then show "\<forall>k < 4 * unat (pitch d). row_byte d t (fb d) (unat y) k = row_byte d m (sb d) (unat y) k"
      using r(4,5) row_offset by (simp add: synced_def)
  qed
  then show ?thesis using r assms(2) by auto
qed

theorem display_flush_shows_witness:
  "\<exists>d' m'. display_flush (example_display, \<lambda>_. 0) = (d', m') \<and> display_inv (d', m') \<and> \<not> dirty d'"
  by (cases "display_flush (example_display, \<lambda>_. 0)")
    (auto dest: display_flush_shows [OF example_display_inv])

text \<open>
  C25: Drawing a character into a cell that lies on the screen sets exactly the 64 pixels of the cell in
  the shadow buffer, each to the foreground colour where the glyph has a bit and to the background colour
  elsewhere; a character of the upper half of the byte range shows the bytes behind the font table.
\<close>

theorem draw_char_correct:
  assumes "geometry d" and "unat x + 8 \<le> unat (screen_w d)" and "unat y + 8 \<le> unat (screen_h d)"
    and "x' < pitch d" and "y' < screen_h d"
  shows "pixel d (snd (draw_char beyond c x y (d, m))) (sb d) x' y' =
    (if unat x \<le> unat x' \<and> unat x' < unat x + 8 \<and> unat y \<le> unat y' \<and> unat y' < unat y + 8
     then if bit (if of_char c < (128 :: nat) then font8x8_basic ! of_char c ! unat (y' - y)
                  else beyond (8 * (of_char c - 128) + unat (y' - y))) (unat x' - unat x)
          then fg_color d else bg_color d
     else pixel d m (sb d) x' y')"
  unfolding draw_char_pixels [OF assms] by (simp add: ink_def glyph_row_def Let_def)

theorem draw_char_correct_witness:
  "pixel example_display (snd (draw_char (\<lambda>_. 0) (CHR ''A'') 0 0 (example_display, \<lambda>_. 0))) 0x1000 2 0 = 0xFFFFFF"
proof -
  have g: "geometry example_display" using example_display_inv by (simp add: display_inv_def)
  have f: "font8x8_basic ! 65 ! 0 = 0x0C" by (simp add: font8x8_basic_def)
  have c: "(of_char (CHR ''A'') :: nat) = 65" by simp
  show ?thesis using draw_char_correct [OF g, of 0 0 2 0 "\<lambda>_. 0" "CHR ''A''" "\<lambda>_. 0"]
    by (simp add: example_display_def c f bit_iff_odd)
qed

end
