(* ===== verification/Kernel.thy ===== *)
theory Kernel
  imports Shell Display
begin

text \<open>
  The entry of the kernel, \<^verbatim>\<open>kernel/kernel.c\<close>: the order in which the components are initialised, the tests
  it runs on the memory managers, and the hand-over to the scheduler. The addresses the linker assigns and
  the linked-in images are a parameter.
\<close>

unbundle bit_operations_syntax

section \<open>State\<close>

record kernel = shell +
  disp :: display

record kernel_symbols = symbols +
  sym_kernel_start :: u64
  sym_kernel_end :: u64
  sym_shell_task :: u64
  sym_idle_task :: u64
  sym_hello :: "u64 \<times> u64"
  sym_burn :: "u64 \<times> u64"

abbreviation (input) SCREEN_BG :: u32 where "SCREEN_BG \<equiv> 0x00303030"
abbreviation (input) TIMER_HZ :: u32 where "TIMER_HZ \<equiv> 100"

text \<open>An operation of the display on the state of the kernel.\<close>

definition on_display :: "(display \<times> pmem \<Rightarrow> display \<times> pmem) \<Rightarrow> 'a kernel_scheme \<Rightarrow> 'a kernel_scheme" where
  "on_display f s = (let (d, m) = f (disp s, mem s) in s\<lparr>disp := d, mem := m\<rparr>)"

section \<open>Reports\<close>

definition clear_framebuffer :: "BootInfo \<Rightarrow> 'a kernel_scheme \<Rightarrow> 'a kernel_scheme" where
  "clear_framebuffer bootInfo s = s\<lparr>mem :=
     for_range 0 (height bootInfo) (\<lambda>y m.
       let row = framebuffer bootInfo + 4 * ucast (y * pixels_per_scanline bootInfo)
       in for_range 0 (pixels_per_scanline bootInfo) (\<lambda>x m. store32 m (row + 4 * ucast x) SCREEN_BG) m) (mem s)\<rparr>"

definition print_total_ram :: "BootInfo \<Rightarrow> 'a kernel_scheme \<Rightarrow> (unit, 'a kernel_scheme) outcome" where
  "print_total_ram bootInfo s =
     (case mmap_offsets 0 (memory_map_size bootInfo) (memory_map_descriptor_size bootInfo) of
        None \<Rightarrow> Hang
      | Some offs \<Rightarrow>
          let conventional_ram_bytes = fold (\<lambda>off n.
                let d = memory_map bootInfo + off
                in if desc_Type (mem s) d = 7 then n + desc_NumberOfPages (mem s) d * 4096 else n) offs 0
          in Ok () (print ('' MiB'' @ [NL])
               (print_dec (conventional_ram_bytes div (1024 * 1024)) (print ''Usable RAM: '' s))))"

definition print_memory_map :: "BootInfo \<Rightarrow> u64 \<Rightarrow> 'a kernel_scheme \<Rightarrow> 'a kernel_scheme" where
  "print_memory_map bootInfo limit s =
     (let entries = memory_map_size bootInfo div memory_map_descriptor_size bootInfo;
          limit = (if limit > entries then entries else limit)
      in for_range 0 limit (\<lambda>i s.
           let d = memory_map bootInfo + i * memory_map_descriptor_size bootInfo;
               s1 = print_dec (ucast (desc_Type (mem s) d)) (print ''Type '' s);
               s2 = print_hex (desc_PhysicalStart (mem s1) d) (print '' | Addr '' s1);
               s3 = print_dec (desc_NumberOfPages (mem s2) d) (print '' | Pages '' s2)
           in print [NL] s3) (print (''Memory Map Entries:'' @ [NL]) s))"

definition print_boot_summary ::
  "'b kernel_symbols_scheme \<Rightarrow> BootInfo \<Rightarrow> 'a kernel_scheme \<Rightarrow> (unit, 'a kernel_scheme) outcome" where
  "print_boot_summary lk bootInfo s =
     kbind (print_total_ram bootInfo (print (''SamOS Kernel'' @ [NL, NL]) s)) (\<lambda>_ s.
       let s1 = print_dec (memory_map_size bootInfo) (print ''Memory map size: '' s);
           s2 = print_dec (memory_map_descriptor_size bootInfo) (print ([NL] @ ''Descriptor size: '') s1);
           s3 = print_hex (framebuffer bootInfo) (print ([NL] @ ''Framebuffer: '') s2);
           s4 = print_hex (sym_kernel_start lk) (print ([NL] @ ''Kernel start: '') s3);
           s5 = print_hex (sym_kernel_end lk) (print ([NL] @ ''Kernel end: '') s4);
           s6 = print_memory_map bootInfo 16 (print [NL, NL] s5)
       in Ok () (print [NL] s6))"

definition print_irq_boot_banner :: "'a kernel_scheme \<Rightarrow> 'a kernel_scheme" where
  "print_irq_boot_banner s =
     (let s1 = print (''IRQ diagnostics:'' @ [NL]) s;
          s2 = print [NL] (print (irq_controller_name s1) (print ''  backend: '' s1));
          s3 = print (''  vector map: IRQ0->0x20 IRQ1->0x21'' @ [NL]) s2;
          s4 = print_dec (ucast (timer_get_frequency s3)) (print ''  timer source: PIT '' s3)
      in irq_dump_routes (print ('' Hz'' @ [NL]) s4))"

section \<open>Initialisation\<close>

definition init_display :: "BootInfo \<Rightarrow> 'a kernel_scheme \<Rightarrow> 'a kernel_scheme" where
  "init_display bootInfo s =
     clear_framebuffer bootInfo (s\<lparr>disp := display_init (framebuffer bootInfo) (width bootInfo) (height bootInfo)
       (pixels_per_scanline bootInfo) (disp s)\<rparr>)"

definition init_descriptor_tables :: "'b kernel_symbols_scheme \<Rightarrow> 'a kernel_scheme \<Rightarrow> 'a kernel_scheme" where
  "init_descriptor_tables lk s = idt_init lk (tss_init lk (gdt_init lk s))"

definition init_irq_devices :: "'a kernel_scheme \<Rightarrow> (unit, 'a kernel_scheme) outcome" where
  "init_irq_devices s =
     kbind (timer_init TIMER_HZ (irq_controller_init s)) (\<lambda>_ s.
     kbind (keyboard_init s) (\<lambda>_ s. Ok () (rtc_init s)))"

definition init_memory ::
  "'b kernel_symbols_scheme \<Rightarrow> BootInfo \<Rightarrow> 'a kernel_scheme \<Rightarrow> (unit, 'a kernel_scheme) outcome" where
  "init_memory lk bootInfo s =
     kbind (paging_init (sym_kernel_end lk) bootInfo s) (\<lambda>_ s.
     kbind (pmm_init (sym_kernel_end lk) bootInfo (tss_init lk (gdt_init lk s))) (\<lambda>_ s.
     kbind (kmalloc_init s) (\<lambda>_ s.
     let fb_pixels = ucast (display_get_height (disp s)) * ucast (display_get_pitch (disp s)) :: u64;
         fb_bytes = fb_pixels * 4;
         fb_pages = (fb_bytes + PAGE_SIZE - 1) div PAGE_SIZE;
         (shadow, s) = pmm_alloc_pages fb_pages s
     in kbind (kassert (shadow \<noteq> 0) ''display shadow buffer allocation failed'' s) (\<lambda>_ s.
        let s1 = s\<lparr>disp := display_set_shadow shadow (disp s)\<rparr>;
            s2 = s1\<lparr>mem := for_range 0 fb_pixels (\<lambda>i m. store32 m (shadow + 4 * i) SCREEN_BG) (mem s1)\<rparr>
        in Ok () (print (''VMM initialized'' @ [NL]) (vmm_init s2))))))"

section \<open>Tests at boot\<close>

definition run_memory_smoke_tests :: "'a kernel_scheme \<Rightarrow> (unit, 'a kernel_scheme) outcome" where
  "run_memory_smoke_tests s =
     (let (page, s) = pmm_alloc_page s
      in kbind (kassert (page \<noteq> 0) ''PMM smoke test: allocation failed'' s) (\<lambda>_ s.
         kbind (kassert (page AND (PAGE_SIZE - 1) = 0) ''PMM smoke test: page is not aligned'' s) (\<lambda>_ s.
         kbind (vmm_create_address_space (pmm_free_page page s)) (\<lambda>test_as s.
         kbind (kassert (test_as \<noteq> 0) ''VMM smoke test: address space allocation failed'' s) (\<lambda>_ s.
         let (phys, s) = pmm_alloc_page s
         in kbind (kassert (phys \<noteq> 0) ''VMM smoke test: backing page allocation failed'' s) (\<lambda>_ s.
            let test_va = 0x8000000000
            in kbind (vmm_map test_as test_va phys (VMM_FLAG_PRESENT OR VMM_FLAG_WRITE OR VMM_FLAG_USER) s) (\<lambda>_ s.
               kbind (kassert (vmm_virt_to_phys test_as test_va s = phys)
                        ''VMM smoke test: virtual address did not resolve'' s) (\<lambda>_ s.
               kbind (vmm_unmap test_as test_va s) (\<lambda>_ s.
               Ok () (print (''PMM/VMM smoke tests passed'' @ [NL])
                        (vmm_destroy_address_space test_as (pmm_free_page phys s))))))))))))"

definition run_heap_smoke_tests :: "'a kernel_scheme \<Rightarrow> (unit, 'a kernel_scheme) outcome" where
  "run_heap_smoke_tests s =
     kbind (kmalloc 24 s) (\<lambda>small s.
     kbind (kmalloc 800 s) (\<lambda>medium s.
     kbind (kzalloc 64 s) (\<lambda>zeroed s.
     kbind (kassert (small \<noteq> 0) ''heap smoke test: small allocation failed'' s) (\<lambda>_ s.
     kbind (kassert (medium \<noteq> 0) ''heap smoke test: medium allocation failed'' s) (\<lambda>_ s.
     kbind (kassert (zeroed \<noteq> 0) ''heap smoke test: zeroed allocation failed'' s) (\<lambda>_ s.
     kbind (kassert (small AND 0xF = 0) ''heap smoke test: small allocation alignment failed'' s) (\<lambda>_ s.
     kbind (kassert (medium AND 0xF = 0) ''heap smoke test: medium allocation alignment failed'' s) (\<lambda>_ s.
     kbind (kassert (\<forall>i \<in> set (map of_nat [0..<64]). mem s (zeroed + i) = 0)
              ''heap smoke test: kzalloc returned dirty memory'' s) (\<lambda>_ s.
     kbind (kfree small s) (\<lambda>_ s.
     kbind (kfree medium s) (\<lambda>_ s.
     kbind (kfree zeroed s) (\<lambda>_ s.
     Ok () (klog_info ''Heap smoke tests passed'' s)))))))))))))"

section \<open>Entry\<close>

definition enable_interrupts :: "'a kernel_scheme \<Rightarrow> 'a kernel_scheme" where
  "enable_interrupts s = sti (irq_unmask 1 (irq_unmask 0 s))"

definition boot_devices ::
  "'b kernel_symbols_scheme \<Rightarrow> BootInfo \<Rightarrow> 'a kernel_scheme \<Rightarrow> (unit, 'a kernel_scheme) outcome" where
  "boot_devices lk bootInfo s =
     kbind (init_irq_devices (init_descriptor_tables lk s)) (\<lambda>_ s.
     kbind (init_memory lk bootInfo s) (\<lambda>_ s.
     kbind (run_memory_smoke_tests s) (\<lambda>_ s.
     kbind (run_heap_smoke_tests s) (\<lambda>_ s.
     kbind (acpi_init bootInfo s) (\<lambda>_ s.
     let (r, s1) = irq_try_enable_apic s;
         s2 = print [NL] (print (irq_controller_name s1) (print ''IRQ mode: '' s1));
         s3 = print_irq_boot_banner s2
     in Ok () (if \<not> irq_backend_health s3
               then klog_warn ''IRQ backend health has faults; safe-mode fallback recommended next boot'' s3
               else s3))))))"

definition boot_tasks :: "'b kernel_symbols_scheme \<Rightarrow> 'a kernel_scheme \<Rightarrow> (unit, 'a kernel_scheme) outcome" where
  "boot_tasks lk s =
     kbind (task_create_kernel (sym_shell_task lk) (process_init (task_init s))) (\<lambda>shell_id s.
     kbind (task_create_kernel (sym_idle_task lk) s) (\<lambda>_ s.
     kbind (process_spawn_builtin (sym_hello lk) (sym_burn lk) 0 (keyboard_set_shell_task shell_id s)) (\<lambda>_ s.
     kbind (process_spawn_builtin (sym_hello lk) (sym_burn lk) 1 s) (\<lambda>_ s. Ok () s))))"

definition kernel_main ::
  "'b kernel_symbols_scheme \<Rightarrow> BootInfo option \<Rightarrow> 'a kernel_scheme \<Rightarrow> (u64 list, 'a kernel_scheme) outcome" where
  "kernel_main lk boot s =
     (case boot of
        None \<Rightarrow> Hang
      | Some bootInfo \<Rightarrow>
          let s = init_display bootInfo (klog_init s)
          in kbind (kassert (framebuffer bootInfo \<noteq> 0) ''bootinfo: missing framebuffer'' s) (\<lambda>_ s.
             kbind (kassert (memory_map bootInfo \<noteq> 0) ''bootinfo: missing memory map'' s) (\<lambda>_ s.
             kbind (kassert (memory_map_descriptor_size bootInfo \<noteq> 0)
                      ''bootinfo: invalid memory map descriptor size'' s) (\<lambda>_ s.
             kbind (print_boot_summary lk bootInfo s) (\<lambda>_ s.
             kbind (boot_devices lk bootInfo s) (\<lambda>_ s.
             kbind (boot_tasks lk s) (\<lambda>_ s.
             let s1 = on_display display_clear (enable_interrupts s);
                 s2 = on_display display_flush (print (''SamOS'' @ [NL]) s1)
             in kbind (schedule s2) (\<lambda>r s. case r of None \<Rightarrow> Hang | Some regs \<Rightarrow> Ok regs s))))))))"

end
