(* ===== verification/Tables.thy ===== *)
theory Tables
  imports Mmu
begin

text \<open>
  Tables of 2 MiB pages: filling a table in a loop, what an entry of a page directory translates to, and
  the translation through tables with an identity window at the bottom and a kernel window at the top,
  which is the shape both the loader and the kernel build.
\<close>

unbundle bit_operations_syntax

section \<open>Entries\<close>

lemma entry_zero:
  assumes "\<And>a. a \<in> region t 4096 \<Longrightarrow> m a = 0" and "aligned t" and "i < 512"
  shows "entry m t i = 0"
proof -
  have "entry m t i = entry (\<lambda>_. 0) t i" using assms by (intro entry_cong) simp_all
  also have "\<dots> = 0" by (simp add: entry_def load64_bytes)
  finally show ?thesis .
qed

lemma fill_table:
  fixes m :: pmem and f :: "u64 \<Rightarrow> u64"
  assumes "aligned pd" and "n \<le> 512"
  defines "m' \<equiv> for_range 0 n (\<lambda>i m. store64 m (pd + 8 * i) (f i)) m"
  shows "aligned t \<Longrightarrow> j < 512 \<Longrightarrow> entry m' t j = (if t = pd \<and> j < n then f j else entry m t j)"
    and "a \<notin> region pd 4096 \<Longrightarrow> m' a = m a"
proof -
  define I where "I = (\<lambda>i u. (\<forall>t j. aligned t \<longrightarrow> j < 512 \<longrightarrow> entry u t j = (if t = pd \<and> j < i then f j else entry m t j)) \<and>
    (\<forall>a. a \<notin> region pd 4096 \<longrightarrow> u a = m a))"
  have "I n m'" unfolding m'_def
  proof (rule for_range_invariant [where I = I])
    fix i u assume i: "i < n" and I: "I i u"
    have i5: "i < 512" using i assms(2) by simp
    have lt: "j < i + 1 \<longleftrightarrow> j = i \<or> j < i" for j :: u64
      using unat_Suc_less [OF i] by (auto simp: word_less_nat_alt word_unat_eq_iff)
    show "I (i + 1) (store64 u (pd + 8 * i) (f i))"
      using I slot_subset [OF assms(1) i5] entry_store [OF assms(1) _ i5, of _ _ u "f i"]
      unfolding I_def lt by (auto intro!: store64_apply_out [THEN trans])
  qed (simp_all add: I_def)
  then show "aligned t \<Longrightarrow> j < 512 \<Longrightarrow> entry m' t j = (if t = pd \<and> j < n then f j else entry m t j)"
    "a \<notin> region pd 4096 \<Longrightarrow> m' a = m a" by (auto simp: I_def)
qed

lemma mask_21_bit: "bit (0x000FFFFFFFE00000 :: u64) k \<longleftrightarrow> 21 \<le> k \<and> k < 52"
proof -
  have eq: "(0x000FFFFFFFE00000 :: u64) = push_bit 21 (mask 31)"
    by (simp add: mask_eq_exp_minus_1 push_bit_eq_mult)
  show ?thesis unfolding eq by (auto simp: bit_simps)
qed

lemma base_21_bit: "bit (e AND 0x000FFFFFFFE00000) k \<longleftrightarrow> bit e k \<and> 21 \<le> k \<and> k < 52" for e :: u64
  by (simp only: bit_and_iff mask_21_bit)

lemma offset_21_bit: "bit (v AND 0x1FFFFF) k \<longleftrightarrow> bit v k \<and> k < 21" for v :: u64
proof -
  have eq: "(0x1FFFFF :: u64) = mask 21" by (simp add: mask_eq_exp_minus_1)
  show ?thesis unfolding eq by (auto simp: bit_simps)
qed

lemma index_bit:
  "bit (pdpt_i v) k \<longleftrightarrow> k < 9 \<and> bit v (30 + k)" "bit (pd_i v) k \<longleftrightarrow> k < 9 \<and> bit v (21 + k)"
proof -
  have eq: "(0x1FF :: u64) = mask 9" by (simp add: mask_eq_exp_minus_1)
  show "bit (pdpt_i v) k \<longleftrightarrow> k < 9 \<and> bit v (30 + k)" "bit (pd_i v) k \<longleftrightarrow> k < 9 \<and> bit v (21 + k)"
    unfolding pdpt_i_def pd_i_def eq by (auto simp: bit_simps)
qed

text \<open>The base of the 2 MiB page that holds an address, as the tables compute it from the indices.\<close>

lemma page_2m_bits:
  "bit (pdpt_i v * 0x40000000 + pd_i v * 0x200000) k \<longleftrightarrow> 21 \<le> k \<and> k < 39 \<and> bit v k"
  "bit (pd_i v * 0x200000) k \<longleftrightarrow> 21 \<le> k \<and> k < 30 \<and> bit v k"
proof -
  have p: "pdpt_i v * 0x40000000 = push_bit 30 (pdpt_i v)" "pd_i v * 0x200000 = push_bit 21 (pd_i v)"
    by (simp_all add: push_bit_eq_mult)
  have b: "bit (push_bit 30 (pdpt_i v)) k \<longleftrightarrow> 30 \<le> k \<and> k < 39 \<and> bit v k" "bit (push_bit 21 (pd_i v)) k \<longleftrightarrow> 21 \<le> k \<and> k < 30 \<and> bit v k" for k
    by (auto simp: bit_push_bit_iff index_bit)
  have "push_bit 30 (pdpt_i v) + push_bit 21 (pd_i v) = push_bit 30 (pdpt_i v) OR push_bit 21 (pd_i v)"
    by (rule disjunctive_add) (simp add: b)
  then show "bit (pdpt_i v * 0x40000000 + pd_i v * 0x200000) k \<longleftrightarrow> 21 \<le> k \<and> k < 39 \<and> bit v k"
    "bit (pd_i v * 0x200000) k \<longleftrightarrow> 21 \<le> k \<and> k < 30 \<and> bit v k"
    unfolding p by (auto simp: bit_or_iff b)
qed

definition leaf_flags :: "u64 \<Rightarrow> bool" where
  "leaf_flags f \<longleftrightarrow> bit f 0 \<and> bit f 7 \<and> (\<forall>k. 21 \<le> k \<and> k < 52 \<longrightarrow> \<not> bit f k)"

lemma leaf_2m_low:
  assumes "entry m t (pd_i v) = (pdpt_i v * 0x40000000 + pd_i v * 0x200000) OR f" and "leaf_flags f"
  shows "leaf_2m m t v = Some (take_bit 39 v)" and "walk m t [pd_i v] = None"
proof -
  have "((pdpt_i v * 0x40000000 + pd_i v * 0x200000) OR f) AND 0x000FFFFFFFE00000 OR v AND 0x1FFFFF = take_bit 39 v"
    using assms(2) by (intro bit_eqI) (auto simp: bit_or_iff base_21_bit offset_21_bit page_2m_bits bit_take_bit_iff leaf_flags_def)
  then show "leaf_2m m t v = Some (take_bit 39 v)" using assms by (simp add: leaf_2m_def Let_def leaf_flags_def bit_or_iff)
  show "walk m t [pd_i v] = None" using assms by (simp add: walk_step_def Let_def leaf_flags_def bit_or_iff)
qed

lemma leaf_2m_high:
  assumes "entry m t (pd_i v) = pd_i v * 0x200000 OR f" and "leaf_flags f"
  shows "leaf_2m m t v = Some (take_bit 30 v)" and "walk m t [pd_i v] = None"
proof -
  have "(pd_i v * 0x200000 OR f) AND 0x000FFFFFFFE00000 OR v AND 0x1FFFFF = take_bit 30 v"
    using assms(2) by (intro bit_eqI) (auto simp: bit_or_iff base_21_bit offset_21_bit page_2m_bits bit_take_bit_iff leaf_flags_def)
  then show "leaf_2m m t v = Some (take_bit 30 v)" using assms by (simp add: leaf_2m_def Let_def leaf_flags_def bit_or_iff)
  show "walk m t [pd_i v] = None" using assms by (simp add: walk_step_def Let_def leaf_flags_def bit_or_iff)
qed

section \<open>An identity window and a kernel window\<close>

text \<open>
  The shape of the tables that the loader and the kernel build: below entry 0 of the top-level table the
  first directories map addresses to themselves, below entry 511 one directory maps the kernel half to
  the first gigabyte.
\<close>

definition table_base :: "u64 \<Rightarrow> bool" where
  "table_base t \<longleftrightarrow> aligned t \<and> unat t < 2 ^ 52"

lemma table_link:
  assumes "table_base t"
  shows "pte_addr (t OR 3) = t" and "present (t OR 3)" and "\<not> huge (t OR 3)"
proof -
  have b: "12 \<le> k \<and> k < 52" if "bit t k" for k
  proof -
    obtain n where n: "unat t = 4096 * n" "n < 2 ^ 40" using assms by (auto simp: table_base_def aligned_def elim!: dvdE)
    then have "t = page_addr n" by (simp add: page_addr_def word_unat_eq_iff unat_word_ariths)
    then show ?thesis using that page_addr_bits n(2) by simp
  qed
  have three: "bit (3 :: u64) k \<longleftrightarrow> k < 2" for k
  proof -
    have eq: "(3 :: u64) = mask 2" by (simp add: mask_eq_exp_minus_1)
    show ?thesis unfolding eq by (auto simp: bit_simps)
  qed
  have or3: "bit (t OR 3) k \<longleftrightarrow> bit t k \<or> k < 2" for k by (simp only: bit_or_iff three)
  show "present (t OR 3)" "\<not> huge (t OR 3)" using b [of 7] by (auto simp: or3)
  show "pte_addr (t OR 3) = t" by (rule bit_eqI) (auto simp: bit_pte_addr or3 dest: b)
qed

lemma leaf_flags_83: "leaf_flags 0x83"
proof -
  have b: "bit (0x83 :: u64) k \<longleftrightarrow> k \<in> {0, 1, 7}" for k
  proof -
    have eq: "(0x83 :: u64) = push_bit 7 1 OR mask 2" by (simp add: mask_eq_exp_minus_1 push_bit_eq_mult)
    show ?thesis unfolding eq bit_or_iff bit_push_bit_iff bit_mask_iff bit_1_iff by auto
  qed
  show ?thesis unfolding leaf_flags_def b by auto
qed

lemma windows_translate:
  assumes top: "\<And>i. i < 512 \<Longrightarrow> entry m r i = (if i = 0 then low OR 3 else if i = 511 then high OR 3 else 0)"
    and low: "\<And>j. j < 512 \<Longrightarrow> entry m low j = (if j < n then dir j OR 3 else 0)"
    and dirs: "\<And>j i. j < n \<Longrightarrow> i < 512 \<Longrightarrow>
      entry m (dir j) i = (if mapped j i then (j * 0x40000000 + i * 0x200000) OR fl j i else 0)"
    and high: "\<And>j. j < 512 \<Longrightarrow> entry m high j = (if j = 510 then khalf OR 3 else 0)"
    and khalf: "\<And>i. i < 512 \<Longrightarrow> entry m khalf i = i * 0x200000 OR 0x83"
    and bases: "table_base low" "table_base high" "table_base khalf" "\<And>j. j < n \<Longrightarrow> table_base (dir j)"
    and flags: "\<And>j i. leaf_flags (fl j i)"
  shows "translate m r v =
    (if pml4_i v = 0 \<and> pdpt_i v < n \<and> mapped (pdpt_i v) (pd_i v) then Some (take_bit 39 v)
     else if pml4_i v = 511 \<and> pdpt_i v = 510 then Some (take_bit 30 v) else None)"
proof -
  note f83 = leaf_flags_83
  have step: "walk m t [i] = Some t'" if "entry m t i = t' OR 3" "table_base t'" for t t' i
    using that table_link [OF that(2)] by (simp add: walk_step_def)
  have stop: "walk m t [i] = None" if "entry m t i = 0" for t i using that by (simp add: walk_step_def)
  consider (l) "pml4_i v = 0" | (h) "pml4_i v = 511" | (o) "pml4_i v \<noteq> 0" "pml4_i v \<noteq> 511" by blast
  then show ?thesis
  proof cases
    case l
    have s1: "walk m r [pml4_i v] = Some low" using top l by (intro step bases) simp
    show ?thesis
    proof (cases "pdpt_i v < n")
      case True
      have s2: "walk m low [pdpt_i v] = Some (dir (pdpt_i v))" using low True by (intro step bases) simp_all
      show ?thesis
      proof (cases "mapped (pdpt_i v) (pd_i v)")
        case mp: True
        then have "entry m (dir (pdpt_i v)) (pd_i v) = (pdpt_i v * 0x40000000 + pd_i v * 0x200000) OR fl (pdpt_i v) (pd_i v)"
          using dirs [OF True] by simp
        note leaf_2m_low [OF this flags]
        then show ?thesis using mp True l s1 s2 by (simp add: translate_walk del: walk.simps)
      next
        case False
        then have z: "entry m (dir (pdpt_i v)) (pd_i v) = 0" using dirs [OF True] by simp
        then show ?thesis using stop [OF z] False l s1 s2 by (simp add: translate_walk leaf_absent del: walk.simps)
      qed
    next
      case False
      then have z: "entry m low (pdpt_i v) = 0" using low by simp
      then show ?thesis using stop [OF z] False l s1 by (simp add: translate_walk leaf_absent del: walk.simps)
    qed
  next
    case h
    have s1: "walk m r [pml4_i v] = Some high" using top h by (intro step bases) simp
    show ?thesis
    proof (cases "pdpt_i v = 510")
      case True
      then have s2: "walk m high [pdpt_i v] = Some khalf" using high by (intro step bases) simp
      have "entry m khalf (pd_i v) = pd_i v * 0x200000 OR 0x83" using khalf by simp
      note leaf_2m_high [OF this f83]
      then show ?thesis using True h s1 s2 by (simp add: translate_walk del: walk.simps)
    next
      case False
      then have z: "entry m high (pdpt_i v) = 0" using high by simp
      then show ?thesis using stop [OF z] False h s1 by (simp add: translate_walk leaf_absent del: walk.simps)
    qed
  next
    case o
    then have "entry m r (pml4_i v) = 0" using top by simp
    then show ?thesis using stop o by (simp add: translate_walk del: walk.simps)
  qed
qed

section \<open>The windows as address ranges\<close>

definition canonical :: "u64 \<Rightarrow> bool" where
  "canonical v \<longleftrightarrow> unat v < 2 ^ 47 \<or> 2 ^ 64 - 2 ^ 47 \<le> unat v"

definition kernel_window :: "u64 \<Rightarrow> bool" where
  "kernel_window v \<longleftrightarrow> 0xFFFFFFFF80000000 \<le> v \<and> v < 0xFFFFFFFFC0000000"

lemma unat_index:
  "unat (pml4_i v) = unat v div 2 ^ 39 mod 512" "unat (pdpt_i v) = unat v div 2 ^ 30 mod 512"
  "unat (pd_i v) = unat v div 2 ^ 21 mod 512"
proof -
  have eq: "(0x1FF :: u64) = mask 9" by (simp add: mask_eq_exp_minus_1)
  show "unat (pml4_i v) = unat v div 2 ^ 39 mod 512" "unat (pdpt_i v) = unat v div 2 ^ 30 mod 512"
    "unat (pd_i v) = unat v div 2 ^ 21 mod 512"
    unfolding pml4_i_def pdpt_i_def pd_i_def eq
    by (simp_all add: take_bit_eq_mask [symmetric] unat_drop_bit_eq drop_bit_eq_div take_bit_eq_mod unat_mod unat_div)
qed

lemma mod_between:
  fixes k :: nat
  assumes "k * c \<le> q" and "q < k * c + k"
  shows "q mod k = q - k * c" and "q div k = c"
proof -
  obtain r where r: "q = k * c + r" using assms(1) le_Suc_ex by blast
  then have "r < k" using assms(2) by simp
  then show "q mod k = q - k * c" "q div k = c" using r by simp_all
qed

lemma div_bounds: "k * a \<le> x \<Longrightarrow> x < k * b \<Longrightarrow> a \<le> x div k \<and> x div k < b" for k :: nat
  by (metis div_le_mono div_less_iff_less_mult mult.commute nonzero_mult_div_cancel_left not_less_zero
      mult_is_0 neq0_conv)

lemma high_quotient:
  fixes x :: nat
  assumes "2 ^ 64 - 2 ^ 47 \<le> x" and "x < 2 ^ 64"
  shows "x div 2 ^ 39 mod 512 = x div 2 ^ 39 - 33553920" and "256 \<le> x div 2 ^ 39 - 33553920"
proof -
  have q: "33554176 \<le> x div 2 ^ 39 \<and> x div 2 ^ 39 < 33554432"
    by (rule div_bounds) (use assms in simp_all)
  then show "x div 2 ^ 39 mod 512 = x div 2 ^ 39 - 33553920"
    using mod_between(1) [of 512 65535 "x div 2 ^ 39"] by simp
  show "256 \<le> x div 2 ^ 39 - 33553920" using q by linarith
qed

lemma low_index:
  assumes "canonical v"
  shows "pml4_i v = 0 \<longleftrightarrow> unat v < 2 ^ 39"
proof -
  have "unat v div 2 ^ 39 mod 512 = 0 \<longleftrightarrow> unat v < 2 ^ 39"
  proof (cases "unat v < 2 ^ 47")
    case True
    then have "unat v div 2 ^ 39 < 256" by (simp add: div_less_iff_less_mult)
    then have "unat v div 2 ^ 39 mod 512 = unat v div 2 ^ 39" by simp
    then show ?thesis by (simp add: div_eq_0_iff)
  next
    case False
    then have "2 ^ 64 - 2 ^ 47 \<le> unat v" using assms by (simp add: canonical_def)
    then show ?thesis using high_quotient [of "unat v"] unat_u64_less [of v] by simp
  qed
  then show ?thesis by (simp add: word_unat_eq_iff unat_index)
qed

lemma kernel_window_range:
  fixes x :: nat
  assumes "18446744071562067968 \<le> x" and "x < 18446744072635809792"
  shows "x div 2 ^ 39 = 33554431" and "x div 2 ^ 30 = 17179869182" and "x mod 2 ^ 30 = x - 18446744071562067968"
  using mod_between [of "2 ^ 39" 33554431 x] mod_between [of "2 ^ 30" 17179869182 x] assms by simp_all

lemma kernel_index:
  assumes "canonical v"
  shows "pml4_i v = 511 \<and> pdpt_i v = 510 \<longleftrightarrow> kernel_window v"
proof -
  have w: "kernel_window v \<longleftrightarrow> 18446744071562067968 \<le> unat v \<and> unat v < 18446744072635809792"
    by (simp add: kernel_window_def word_le_nat_alt word_less_nat_alt)
  have i: "pml4_i v = 511 \<and> pdpt_i v = 510 \<longleftrightarrow> unat v div 2 ^ 39 mod 512 = 511 \<and> unat v div 2 ^ 30 mod 512 = 510"
    by (simp add: word_unat_eq_iff unat_index)
  show ?thesis unfolding w i
  proof
    assume h: "unat v div 2 ^ 39 mod 512 = 511 \<and> unat v div 2 ^ 30 mod 512 = 510"
    have "\<not> unat v < 2 ^ 47"
    proof
      assume "unat v < 2 ^ 47"
      then have "unat v div 2 ^ 39 < 256" by (simp add: div_less_iff_less_mult)
      then show False using h by simp
    qed
    then have big: "2 ^ 64 - 2 ^ 47 \<le> unat v" using assms by (simp add: canonical_def)
    have "unat v < 2 ^ 64" using unat_u64_less [of v] by simp
    from high_quotient [OF big this] have q: "unat v div 2 ^ 39 = 33554431" using h by linarith
    have "2 ^ 39 * 33554431 \<le> unat v" using q by (metis times_div_less_eq_dividend)
    then have "17179868672 \<le> unat v div 2 ^ 30 \<and> unat v div 2 ^ 30 < 17179869184"
      using unat_u64_less [of v] by (intro div_bounds) simp_all
    then have "unat v div 2 ^ 30 mod 512 = unat v div 2 ^ 30 - 17179868672" "17179868672 \<le> unat v div 2 ^ 30"
      using mod_between(1) [of 512 33554431 "unat v div 2 ^ 30"] by simp_all
    then have q30: "unat v div 2 ^ 30 = 17179869182" using h by linarith
    have "unat v = 17179869182 * 2 ^ 30 + unat v mod 2 ^ 30" unfolding q30 [symmetric] by simp
    moreover have "unat v mod 2 ^ 30 < 2 ^ 30" by simp
    ultimately show "18446744071562067968 \<le> unat v \<and> unat v < 18446744072635809792" by simp
  next
    assume h: "18446744071562067968 \<le> unat v \<and> unat v < 18446744072635809792"
    show "unat v div 2 ^ 39 mod 512 = 511 \<and> unat v div 2 ^ 30 mod 512 = 510"
      unfolding kernel_window_range(1,2) [OF conjunct1 [OF h] conjunct2 [OF h]] by simp
  qed
qed

lemma low_pdpt: "unat v < 2 ^ 39 \<Longrightarrow> unat (pdpt_i v) = unat v div 2 ^ 30" "unat v < 2 ^ 39 \<Longrightarrow> take_bit 39 v = v"
  by (simp_all add: unat_index take_bit_eq_mod word_unat_eq_iff unat_mod)

lemma kernel_offset:
  assumes "kernel_window v"
  shows "take_bit 30 v = v - 0xFFFFFFFF80000000"
proof -
  have w: "18446744071562067968 \<le> unat v" "unat v < 18446744072635809792"
    using assms by (simp_all add: kernel_window_def word_le_nat_alt word_less_nat_alt)
  then have "unat (v - 0xFFFFFFFF80000000) = unat v - 18446744071562067968" by (simp add: unat_sub word_le_nat_alt)
  then show ?thesis using kernel_window_range(3) [OF w] by (simp add: take_bit_eq_mod word_unat_eq_iff unat_mod)
qed

end
