(* ===== verification/Boot.thy ===== *)
theory Boot
  imports Pmm Tables
begin

text \<open>
  The UEFI loader, \<^verbatim>\<open>boot/bootloader.c\<close>: it takes memory for page tables, loads the segments of the kernel
  image, fills in the boot information, builds the first page tables and leaves the firmware. The services
  of the firmware are a parameter: each is a function of the firmware's own state. A loop that stops the
  machine after an error is the outcome \<open>Panic\<close> with the message printed before it.
\<close>

unbundle bit_operations_syntax

section \<open>The firmware\<close>

record EFI_GUID =
  Data1 :: u32
  Data2 :: u16
  Data3 :: u16
  Data4 :: "u8 list"

record gop_mode =
  FrameBufferBase :: u64
  HorizontalResolution :: u32
  VerticalResolution :: u32
  PixelsPerScanLine :: u32

record memory_map_reply =
  mm_error :: bool
  mm_size :: u64
  mm_key :: u64
  mm_desc_size :: u64
  mm_bytes :: "u8 list"

text \<open>
  Handles, protocols and files are addresses; \<open>None\<close> is an error status. \<open>AllocatePages\<close> is the call for
  a given address, \<open>ReadFile\<close> gives the bytes it stores into the buffer.
\<close>

record 'f services =
  AllocatePages :: "u64 \<Rightarrow> u64 \<Rightarrow> 'f \<Rightarrow> bool \<times> 'f"
  AllocatePool :: "u64 \<Rightarrow> 'f \<Rightarrow> u64 \<times> 'f"
  HandleProtocol :: "u64 \<Rightarrow> EFI_GUID \<Rightarrow> 'f \<Rightarrow> u64 option \<times> 'f"
  DeviceHandle :: "u64 \<Rightarrow> u64"
  OpenVolume :: "u64 \<Rightarrow> 'f \<Rightarrow> u64 option \<times> 'f"
  OpenFile :: "u64 \<Rightarrow> string \<Rightarrow> 'f \<Rightarrow> u64 option \<times> 'f"
  ReadFile :: "u64 \<Rightarrow> u64 \<Rightarrow> 'f \<Rightarrow> u8 list \<times> 'f"
  SetPosition :: "u64 \<Rightarrow> u64 \<Rightarrow> 'f \<Rightarrow> 'f"
  CloseFile :: "u64 \<Rightarrow> 'f \<Rightarrow> 'f"
  LocateGop :: "EFI_GUID \<Rightarrow> 'f \<Rightarrow> gop_mode \<times> 'f"
  GetMemoryMap :: "u64 \<Rightarrow> 'f \<Rightarrow> memory_map_reply \<times> 'f"
  ExitBootServices :: "u64 \<Rightarrow> u64 \<Rightarrow> 'f \<Rightarrow> bool \<times> 'f"
  ConfigurationTable :: "(EFI_GUID \<times> u64) list"

record 'f boot =
  bmem :: pmem
  con_out :: string
  fw :: 'f

abbreviation (input) CRNL :: string where "CRNL \<equiv> [CHR 0x0D, CHR 0x0A]"

definition OutputString :: "string \<Rightarrow> ('f, 'a) boot_scheme \<Rightarrow> ('f, 'a) boot_scheme" where
  "OutputString str s = s\<lparr>con_out := con_out s @ str\<rparr>"

definition service :: "('f \<Rightarrow> 'r \<times> 'f) \<Rightarrow> ('f, 'a) boot_scheme \<Rightarrow> 'r \<times> ('f, 'a) boot_scheme" where
  "service f s = (let (r, x) = f (fw s) in (r, s\<lparr>fw := x\<rparr>))"

text \<open>Stop with a message.\<close>

definition boot_fail :: "string \<Rightarrow> ('f, 'a) boot_scheme \<Rightarrow> ('b, ('f, 'a) boot_scheme) outcome" where
  "boot_fail msg s = Panic msg (OutputString msg s)"

section \<open>Helpers\<close>

definition boot_memset :: "u64 \<Rightarrow> u8 \<Rightarrow> u64 \<Rightarrow> pmem \<Rightarrow> pmem" where
  "boot_memset dest v count m = for_range 0 count (\<lambda>i m. m(dest + i := v)) m"

definition boot_hex :: "u64 \<Rightarrow> string" where
  "boot_hex v = ''0x'' @ map (\<lambda>k. ''0123456789ABCDEF'' ! unat (drop_bit ((15 - k) * 4) v AND 0xF)) [0..<16]"

definition boot_print_hex :: "u64 \<Rightarrow> ('f, 'a) boot_scheme \<Rightarrow> ('f, 'a) boot_scheme" where
  "boot_print_hex v s = OutputString (boot_hex v) s"

definition guid_equal :: "EFI_GUID \<Rightarrow> EFI_GUID \<Rightarrow> bool" where
  "guid_equal a b \<longleftrightarrow>
     \<not> (Data1 a \<noteq> Data1 b \<or> Data2 a \<noteq> Data2 b \<or> Data3 a \<noteq> Data3 b) \<and>
     (\<forall>i \<in> set [0..<8]. Data4 a ! i = Data4 b ! i)"

definition acpi20 :: EFI_GUID where
  "acpi20 = \<lparr>Data1 = 0x8868e871, Data2 = 0xe4f1, Data3 = 0x11d3,
     Data4 = [0xbc, 0x22, 0x00, 0x80, 0xc7, 0x3c, 0x88, 0x81]\<rparr>"

definition acpi10 :: EFI_GUID where
  "acpi10 = \<lparr>Data1 = 0xeb9d2d30, Data2 = 0x2d88, Data3 = 0x11d3,
     Data4 = [0x9a, 0x16, 0x00, 0x90, 0x27, 0x3f, 0xc1, 0x4d]\<rparr>"

fun find_rsdp_from :: "(EFI_GUID \<times> u64) list \<Rightarrow> u64 \<Rightarrow> u64" where
  "find_rsdp_from [] fallback = fallback"
| "find_rsdp_from ((guid, t) # ts) fallback =
     (if guid_equal guid acpi20 then t
      else find_rsdp_from ts (if guid_equal guid acpi10 then t else fallback))"

definition find_rsdp :: "(EFI_GUID \<times> u64) list \<Rightarrow> u64" where
  "find_rsdp tables = find_rsdp_from tables 0"

text \<open>What a read stores into its buffer.\<close>

fun store_bytes :: "pmem \<Rightarrow> u64 \<Rightarrow> u8 list \<Rightarrow> pmem" where
  "store_bytes m a [] = m"
| "store_bytes m a (b # bs) = store_bytes (m(a := b)) (a + 1) bs"

definition read_file :: "'f services \<Rightarrow> u64 \<Rightarrow> u64 \<Rightarrow> u64 \<Rightarrow> ('f, 'a) boot_scheme \<Rightarrow> ('f, 'a) boot_scheme" where
  "read_file bs file len buf s =
     (let (bytes, s1) = service (ReadFile bs file len) s in s1\<lparr>bmem := store_bytes (bmem s1) buf bytes\<rparr>)"

section \<open>The kernel image\<close>

record boot_Ehdr =
  b_ident :: "u8 list"
  b_type :: u16
  b_machine :: u16
  b_entry :: u64
  b_phoff :: u64
  b_phnum :: u16

definition boot_ehdr :: "pmem \<Rightarrow> u64 \<Rightarrow> boot_Ehdr" where
  "boot_ehdr m a = \<lparr>b_ident = [m a, m (a + 1), m (a + 2), m (a + 3)], b_type = load16 m (a + 16),
     b_machine = load16 m (a + 18), b_entry = load64 m (a + 24), b_phoff = load64 m (a + 32),
     b_phnum = load16 m (a + 56)\<rparr>"

record boot_Phdr =
  b_ptype :: u32
  b_offset :: u64
  b_paddr :: u64
  b_filesz :: u64
  b_memsz :: u64

definition boot_phdr :: "pmem \<Rightarrow> u64 \<Rightarrow> boot_Phdr" where
  "boot_phdr m a = \<lparr>b_ptype = load32 m a, b_offset = load64 m (a + 8), b_paddr = load64 m (a + 24),
     b_filesz = load64 m (a + 32), b_memsz = load64 m (a + 40)\<rparr>"

definition gEfiLoadedImageProtocolGuid :: EFI_GUID where
  "gEfiLoadedImageProtocolGuid = \<lparr>Data1 = 0x5B1B31A1, Data2 = 0x9562, Data3 = 0x11d2,
     Data4 = [0x8E, 0x3F, 0x00, 0xA0, 0xC9, 0x69, 0x72, 0x3B]\<rparr>"

definition gEfiSimpleFileSystemProtocolGuid :: EFI_GUID where
  "gEfiSimpleFileSystemProtocolGuid = \<lparr>Data1 = 0x0964e5b22, Data2 = 0x6459, Data3 = 0x11d2,
     Data4 = [0x8e, 0x39, 0x00, 0xa0, 0xc9, 0x69, 0x72, 0x3b]\<rparr>"

definition gEfiGraphicsOutputProtocolGuid :: EFI_GUID where
  "gEfiGraphicsOutputProtocolGuid = \<lparr>Data1 = 0x9042a9de, Data2 = 0x23dc, Data3 = 0x4a38,
     Data4 = [0x96, 0xfb, 0x7a, 0xde, 0xd0, 0x80, 0x51, 0x6a]\<rparr>"

fun open_first :: "'f services \<Rightarrow> u64 \<Rightarrow> string list \<Rightarrow> ('f, 'a) boot_scheme \<Rightarrow> u64 option \<times> ('f, 'a) boot_scheme" where
  "open_first bs root [] s = (None, s)"
| "open_first bs root (name # names) s =
     (let (r, s1) = service (OpenFile bs root name) s
      in case r of None \<Rightarrow> open_first bs root names s1 | Some f \<Rightarrow> (Some f, s1))"

text \<open>Find the volume and open the image: the volume's root and the file.\<close>

definition open_kernel ::
  "'f services \<Rightarrow> u64 \<Rightarrow> ('f, 'a) boot_scheme \<Rightarrow> (u64 \<times> u64, ('f, 'a) boot_scheme) outcome" where
  "open_kernel bs ImageHandle s =
     (let (r, s) = service (HandleProtocol bs ImageHandle gEfiLoadedImageProtocolGuid) s
      in case r of None \<Rightarrow> boot_fail (''[ERROR] LoadedImage failed'' @ CRNL) s | Some loadedImage \<Rightarrow>
         let s = OutputString (''[INFO] Got loaded image protocol'' @ CRNL) s;
             (r, s) = service (HandleProtocol bs (DeviceHandle bs loadedImage) gEfiSimpleFileSystemProtocolGuid) s
         in case r of None \<Rightarrow> boot_fail (''[ERROR] Filesystem failed'' @ CRNL) s | Some fs \<Rightarrow>
            let s = OutputString (''[INFO] Got filesystem'' @ CRNL) s;
                (r, s) = service (OpenVolume bs fs) s
            in case r of None \<Rightarrow> boot_fail (''[ERROR] OpenVolume failed'' @ CRNL) s | Some root \<Rightarrow>
               let (r, s) = open_first bs root [''kernel.elf'', ''KERNEL.ELF'', [CHR 0x5C] @ ''kernel.elf''] s
               in case r of None \<Rightarrow> boot_fail (''[ERROR] kernel.elf not found'' @ CRNL) s | Some kernel_file \<Rightarrow>
                  Ok (root, kernel_file) (OutputString (''[INFO] kernel.elf opened'' @ CRNL) s))"

text \<open>Read the header into the local variable at \<open>hdr\<close> and check it.\<close>

definition read_header ::
  "'f services \<Rightarrow> u64 \<Rightarrow> u64 \<Rightarrow> ('f, 'a) boot_scheme \<Rightarrow> (boot_Ehdr, ('f, 'a) boot_scheme) outcome" where
  "read_header bs kernel_file hdr s =
     (let s = read_file bs kernel_file 64 hdr s; eh = boot_ehdr (bmem s) hdr
      in if b_ident eh ! 0 \<noteq> 0x7F \<or> b_ident eh ! 1 \<noteq> 0x45 \<or> b_ident eh ! 2 \<noteq> 0x4C \<or> b_ident eh ! 3 \<noteq> 0x46
         then boot_fail (''[ERROR] Invalid ELF'' @ CRNL) s
         else if b_machine eh \<noteq> 0x3E then boot_fail (''[ERROR] Not x86_64'' @ CRNL) s
         else if b_type eh \<noteq> 2 then boot_fail (''[ERROR] Not executable'' @ CRNL) s
         else Ok eh (OutputString CRNL (boot_print_hex (b_entry eh) (OutputString ''[INFO] Entry: '' s))))"

definition boot_segment ::
  "'f services \<Rightarrow> u64 \<Rightarrow> u64 \<Rightarrow> ('f, 'a) boot_scheme \<Rightarrow> (unit option, ('f, 'a) boot_scheme) outcome" where
  "boot_segment bs kernel_file pha s =
     (let ph = boot_phdr (bmem s) pha
      in if b_ptype ph \<noteq> 1 then Ok None s
         else let pages = (b_memsz ph + 0x1000 - 1) div 0x1000; segment = b_paddr ph;
                  (err, s) = service (AllocatePages bs pages segment) s
              in if err then boot_fail (''[ERROR] Alloc failed'' @ CRNL) s
                 else let s = s\<lparr>bmem := boot_memset segment 0 (b_memsz ph) (bmem s)\<rparr>;
                          ph = boot_phdr (bmem s) pha
                      in if b_filesz ph > 0
                         then let s = s\<lparr>fw := SetPosition bs kernel_file (b_offset ph) (fw s)\<rparr>
                              in Ok None (read_file bs kernel_file (b_filesz ph) segment s)
                         else Ok None s)"

definition load_segments ::
  "'f services \<Rightarrow> u64 \<Rightarrow> boot_Ehdr \<Rightarrow> ('f, 'a) boot_scheme \<Rightarrow> (unit, ('f, 'a) boot_scheme) outcome" where
  "load_segments bs kernel_file eh s =
     (let s = s\<lparr>fw := SetPosition bs kernel_file (b_phoff eh) (fw s)\<rparr>;
          ph_array_size = ucast (b_phnum eh) * 56;
          (program_headers, s) = service (AllocatePool bs ph_array_size) s;
          s = read_file bs kernel_file ph_array_size program_headers s
      in kbind (for_list [0..<unat (b_phnum eh)]
                  (\<lambda>i. boot_segment bs kernel_file (program_headers + 56 * of_nat i)) s) (\<lambda>_ s.
           Ok () (OutputString (''[INFO] Segments loaded'' @ CRNL) s)))"

section \<open>Page tables\<close>

definition boot_num_pdpt :: "gop_mode \<Rightarrow> u64" where
  "boot_num_pdpt gop =
     (let fb_end = FrameBufferBase gop + ucast (VerticalResolution gop * PixelsPerScanLine gop * 4);
          map_top = ((fb_end + 0x3FFFFFFF) AND NOT 0x3FFFFFFF) + 0x40000000;
          num_pdpt = map_top div 0x40000000
      in if num_pdpt > 28 then 28 else num_pdpt)"

definition zero_tables :: "u64 \<Rightarrow> pmem \<Rightarrow> pmem" where
  "zero_tables pt_base m = for_range 0 (512 * 32) (\<lambda>i m. store64 m (pt_base + 8 * i) 0) m"

definition boot_fill_pd :: "u64 \<Rightarrow> u64 \<Rightarrow> pmem \<Rightarrow> pmem" where
  "boot_fill_pd pd base m =
     for_range 0 512 (\<lambda>i m. store64 m (pd + 8 * i) ((base + i * 0x200000) OR 0x83)) m"

definition boot_tables :: "u64 \<Rightarrow> u64 \<Rightarrow> pmem \<Rightarrow> pmem" where
  "boot_tables pt_base num_pdpt m =
     (let boot_pml4 = pt_base; boot_pdpt_low = pt_base + 0x1000;
          boot_pdpt_hi = pt_base + 0x2000; boot_pd_hi = pt_base + 0x3000;
          m1 = store64 m (boot_pml4 + 8 * 0) (boot_pdpt_low OR 0x3);
          m2 = for_range 0 num_pdpt (\<lambda>p m.
                 let pd = pt_base + 0x4000 + p * 0x1000
                 in boot_fill_pd pd (p * 0x40000000) (store64 m (boot_pdpt_low + 8 * p) (pd OR 0x3))) m1;
          m3 = store64 m2 (boot_pml4 + 8 * 511) (boot_pdpt_hi OR 0x3);
          m4 = store64 m3 (boot_pdpt_hi + 8 * 510) (boot_pd_hi OR 0x3)
      in boot_fill_pd boot_pd_hi 0 m4)"

section \<open>Leaving the firmware\<close>

text \<open>At most two attempts: the size of the map, or the stop.\<close>

fun exit_boot ::
  "nat \<Rightarrow> 'f services \<Rightarrow> u64 \<Rightarrow> u64 \<Rightarrow> u64 \<Rightarrow> ('f, 'a) boot_scheme \<Rightarrow> (u64, ('f, 'a) boot_scheme) outcome" where
  "exit_boot 0 bs ImageHandle buf mmap_size s = Panic '''' s"
| "exit_boot (Suc n) bs ImageHandle buf mmap_size s =
     (let (mm, s) = service (GetMemoryMap bs mmap_size) s;
          s = s\<lparr>bmem := store_bytes (bmem s) buf (mm_bytes mm)\<rparr>
      in if mm_error mm then Panic '''' s
         else let (err, s) = service (ExitBootServices bs ImageHandle (mm_key mm)) s
              in if \<not> err then Ok (mm_size mm) s else exit_boot n bs ImageHandle buf mmap_size s)"

definition gather_info ::
  "'f services \<Rightarrow> ('f, 'a) boot_scheme \<Rightarrow> (gop_mode \<times> u64 \<times> u64) \<times> ('f, 'a) boot_scheme" where
  "gather_info bs s =
     (let (gop, s) = service (LocateGop bs gEfiGraphicsOutputProtocolGuid) s;
          (info, s) = service (AllocatePool bs 64) s;
          r = find_rsdp (ConfigurationTable bs);
          s = OutputString CRNL (boot_print_hex (FrameBufferBase gop) (OutputString ''[INFO] Framebuffer at: '' s));
          s = OutputString CRNL (boot_print_hex r (OutputString ''[INFO] RSDP at: '' s))
      in ((gop, info, r), s))"

text \<open>
  The whole loader: the boot information, the address of the top-level table and the entry point that the
  final jump uses. \<open>hdr\<close> is the address of the local variable \<^verbatim>\<open>elf_header\<close>.
\<close>

definition boot_leave ::
  "'f services \<Rightarrow> u64 \<Rightarrow> gop_mode \<Rightarrow> u64 \<Rightarrow> ('f, 'a) boot_scheme \<Rightarrow> (BootInfo, ('f, 'a) boot_scheme) outcome" where
  "boot_leave bs ImageHandle gop r s =
     (let (mm, s) = service (GetMemoryMap bs 0) s;
          mmap_size = mm_size mm + mm_desc_size mm * 8;
          (buf, s) = service (AllocatePool bs mmap_size) s;
          s = OutputString (''[INFO] Exiting boot services...'' @ CRNL) s
      in kbind (exit_boot 2 bs ImageHandle buf mmap_size s) (\<lambda>sz s.
           Ok \<lparr>framebuffer = FrameBufferBase gop, width = HorizontalResolution gop, height = VerticalResolution gop,
               pixels_per_scanline = PixelsPerScanLine gop, memory_map = buf, memory_map_size = sz,
               memory_map_descriptor_size = mm_desc_size mm, rsdp = r\<rparr> s))"

definition efi_main ::
  "'f services \<Rightarrow> u64 \<Rightarrow> u64 \<Rightarrow> ('f, 'a) boot_scheme \<Rightarrow> (BootInfo \<times> u64 \<times> u64, ('f, 'a) boot_scheme) outcome" where
  "efi_main bs ImageHandle hdr s =
     (let pt_base = 0x600000; (err, s) = service (AllocatePages bs 32 pt_base) s
      in if err then boot_fail (''[ERROR] PT alloc failed'' @ CRNL) s
         else
           let s = OutputString (''[INFO] Bootloader started...'' @ CRNL) (s\<lparr>bmem := zero_tables pt_base (bmem s)\<rparr>)
           in kbind (open_kernel bs ImageHandle s) (\<lambda>(root, kernel_file) s.
              kbind (read_header bs kernel_file hdr s) (\<lambda>eh s.
              kbind (load_segments bs kernel_file eh s) (\<lambda>_ s.
              let s = s\<lparr>fw := CloseFile bs root (CloseFile bs kernel_file (fw s))\<rparr>;
                  ((gop, info, r), s) = gather_info bs s;
                  num_pdpt = boot_num_pdpt gop;
                  s = OutputString ('' GB identity'' @ CRNL) (boot_print_hex num_pdpt (OutputString ''[INFO] Mapping '' s));
                  s = s\<lparr>bmem := boot_tables pt_base num_pdpt (bmem s)\<rparr>;
                  s = OutputString CRNL (boot_print_hex pt_base (OutputString ''[INFO] pml4: '' s))
              in kbind (boot_leave bs ImageHandle gop r s) (\<lambda>bootInfo s.
                   Ok (bootInfo, pt_base, b_entry eh) s)))))"

section \<open>The tables the loader builds\<close>

definition boot_page :: "u64 \<Rightarrow> nat \<Rightarrow> u64" where
  "boot_page pt_base k = pt_base + of_nat (4096 * k)"

lemma boot_pages:
  "b + 0x1000 = boot_page b 1" "b + 0x2000 = boot_page b 2" "b + 0x3000 = boot_page b 3" "boot_page b 0 = b"
  "b + 0x4000 + p * 0x1000 = boot_page b (4 + unat p)"
  by (simp_all add: boot_page_def)

text \<open>32 pages for tables: aligned, and low enough for an entry to point at them.\<close>

definition boot_area :: "u64 \<Rightarrow> bool" where
  "boot_area pt_base \<longleftrightarrow> aligned pt_base \<and> unat pt_base + 32 * 4096 \<le> 2 ^ 52"

lemma boot_page_addr:
  assumes "boot_area b" and "k < 32"
  shows "unat (boot_page b k) = unat b + 4096 * k" and "table_base (boot_page b k)" and "aligned (boot_page b k)"
proof -
  have o: "unat (of_nat (4096 * k) :: u64) = 4096 * k" using assms(2) by (intro unat_of_nat_u64) simp
  show u: "unat (boot_page b k) = unat b + 4096 * k"
    unfolding boot_page_def using assms by (subst unat_add_lem [THEN iffD1]) (simp_all only: o boot_area_def, simp_all)
  then show "table_base (boot_page b k)" "aligned (boot_page b k)"
    using assms by (auto simp: boot_area_def table_base_def aligned_def)
qed

lemma boot_page_eq:
  assumes "boot_area b" and "k < 32" and "l < 32"
  shows "boot_page b k = boot_page b l \<longleftrightarrow> k = l"
  using boot_page_addr(1) [OF assms(1,2)] boot_page_addr(1) [OF assms(1,3)] by (auto simp: word_unat_eq_iff)

lemma boot_fill_pd_entry:
  assumes "aligned pd" and "aligned t" and "j < 512"
  shows "entry (boot_fill_pd pd b m) t j = (if t = pd then (b + j * 0x200000) OR 0x83 else entry m t j)"
  unfolding boot_fill_pd_def using fill_table(1) [OF assms(1) order.refl assms(2,3)] assms(3) by simp

lemma boot_fill_pd_out: "aligned pd \<Longrightarrow> a \<notin> region pd 4096 \<Longrightarrow> boot_fill_pd pd b m a = m a"
  unfolding boot_fill_pd_def using fill_table(2) [of pd 512] by simp

text \<open>The loop over the directories of the identity map.\<close>

lemma boot_low_entries:
  fixes m :: pmem
  assumes "boot_area b" and "n \<le> 28" and "aligned t" and "j < 512"
  defines "m' \<equiv> for_range 0 n (\<lambda>p m. let pd = b + 0x4000 + p * 0x1000
      in boot_fill_pd pd (p * 0x40000000) (store64 m (b + 0x1000 + 8 * p) (pd OR 0x3))) m"
  shows "entry m' t j =
    (if t = boot_page b 1 \<and> j < n then boot_page b (4 + unat j) OR 3
     else if \<exists>p < n. t = boot_page b (4 + unat p)
     then (of_nat ((unat t - unat b) div 4096 - 4) * 0x40000000 + j * 0x200000) OR 0x83 else entry m t j)"
proof -
  define I where "I = (\<lambda>(k :: u64) u. \<forall>t j. aligned t \<longrightarrow> j < 512 \<longrightarrow> entry u t j =
    (if t = boot_page b 1 \<and> j < k then boot_page b (4 + unat j) OR 3
     else if \<exists>p < k. t = boot_page b (4 + unat p)
     then (of_nat ((unat t - unat b) div 4096 - 4) * 0x40000000 + j * 0x200000) OR 0x83 else entry m t j))"
  have "I n m'" unfolding m'_def
  proof (rule for_range_invariant [where I = I])
    fix p u assume p: "p < n" and I: "I p u"
    have up: "unat p < 28" using p assms(2) by (simp add: word_less_nat_alt word_le_nat_alt)
    have p5: "p < 512" using up by (simp add: word_less_nat_alt)
    let ?pd = "boot_page b (4 + unat p)"
    have k32: "4 + unat p < 32" using up by simp
    note a = boot_page_addr [OF assms(1) k32] and a1 = boot_page_addr [OF assms(1), of 1]
    have num: "of_nat ((unat ?pd - unat b) div 4096 - 4) = p" unfolding a(1) by simp
    have ne: "?pd \<noteq> boot_page b 1" using boot_page_eq [OF assms(1) k32, of 1] by simp
    have lt: "q < p + 1 \<longleftrightarrow> q = p \<or> q < p" for q :: u64
      using unat_Suc_less [OF p] by (auto simp: word_less_nat_alt word_unat_eq_iff)
    have "I (p + 1) (boot_fill_pd ?pd (p * 0x40000000) (store64 u (boot_page b 1 + 8 * p) (?pd OR 3)))"
      unfolding I_def
    proof (intro allI impI)
      fix t j :: u64 assume t: "aligned t" "j < 512"
      have e: "entry (store64 u (boot_page b 1 + 8 * p) (?pd OR 3)) t j =
          (if t = boot_page b 1 \<and> j = p then ?pd OR 3 else entry u t j)"
        using entry_store [OF a1(3) t(1) p5 t(2)] by simp
      show "entry (boot_fill_pd ?pd (p * 0x40000000) (store64 u (boot_page b 1 + 8 * p) (?pd OR 3))) t j =
        (if t = boot_page b 1 \<and> j < p + 1 then boot_page b (4 + unat j) OR 3
         else if \<exists>q < p + 1. t = boot_page b (4 + unat q)
         then (of_nat ((unat t - unat b) div 4096 - 4) * 0x40000000 + j * 0x200000) OR 0x83 else entry m t j)"
        unfolding boot_fill_pd_entry [OF a(3) t] e
        using I t num ne unfolding I_def lt by auto
    qed
    then show "I (p + 1) (let pd = b + 0x4000 + p * 0x1000
      in boot_fill_pd pd (p * 0x40000000) (store64 u (b + 0x1000 + 8 * p) (pd OR 0x3)))"
      unfolding Let_def boot_pages by simp
  qed (simp_all add: I_def)
  then show ?thesis using assms(3,4) unfolding I_def by blast
qed

lemma boot_page_sub:
  assumes "boot_area b" and "k < 32"
  shows "region (boot_page b k) 4096 \<subseteq> region b (32 * 4096)"
  using boot_page_addr(1) [OF assms] assms by (subst (1 2) region_interval) (auto simp: boot_area_def)

lemma boot_tables_entries:
  assumes "boot_area b" and "n \<le> 28" and "\<forall>a \<in> region b (32 * 4096). m a = 0"
  shows "i < 512 \<Longrightarrow> entry (boot_tables b n m) b i =
      (if i = 0 then boot_page b 1 OR 3 else if i = 511 then boot_page b 2 OR 3 else 0)"
    and "i < 512 \<Longrightarrow> entry (boot_tables b n m) (boot_page b 1) i = (if i < n then boot_page b (4 + unat i) OR 3 else 0)"
    and "p < n \<Longrightarrow> i < 512 \<Longrightarrow>
      entry (boot_tables b n m) (boot_page b (4 + unat p)) i = (p * 0x40000000 + i * 0x200000) OR 0x83"
    and "i < 512 \<Longrightarrow> entry (boot_tables b n m) (boot_page b 2) i = (if i = 510 then boot_page b 3 OR 3 else 0)"
    and "i < 512 \<Longrightarrow> entry (boot_tables b n m) (boot_page b 3) i = i * 0x200000 OR 0x83"
proof -
  define m1 where "m1 = store64 m (boot_page b 0 + 8 * 0) (boot_page b 1 OR 3)"
  define m2 where "m2 = for_range 0 n (\<lambda>p m. let pd = b + 0x4000 + p * 0x1000
      in boot_fill_pd pd (p * 0x40000000) (store64 m (b + 0x1000 + 8 * p) (pd OR 0x3))) m1"
  define m3 where "m3 = store64 m2 (boot_page b 0 + 8 * 511) (boot_page b 2 OR 3)"
  define m4 where "m4 = store64 m3 (boot_page b 2 + 8 * 510) (boot_page b 3 OR 3)"
  have bt: "boot_tables b n m = boot_fill_pd (boot_page b 3) 0 m4"
    by (simp add: boot_tables_def m1_def m2_def m3_def m4_def Let_def boot_pages)
  have al: "aligned (boot_page b k)" if "k < 32" for k using boot_page_addr(3) [OF assms(1) that] .
  have al3: "aligned (boot_page b 3)" by (rule al) simp
  have z: "entry m (boot_page b k) j = 0" if "k < 32" "j < 512" for k j
    using boot_page_sub [OF assms(1) that(1)] assms(3) by (intro entry_zero al that) blast
  have e: "entry (boot_tables b n m) (boot_page b k) j =
    (if k = 3 then j * 0x200000 OR 0x83 else if k = 2 \<and> j = 510 then boot_page b 3 OR 3
     else if k = 0 \<and> j = 511 then boot_page b 2 OR 3 else entry m2 (boot_page b k) j)" if k: "k < 32" "j < 512" for k j
  proof -
    have "entry m4 (boot_page b k) j = (if k = 2 \<and> j = 510 then boot_page b 3 OR 3 else entry m3 (boot_page b k) j)"
      unfolding m4_def using entry_store [OF al [of 2] al [OF k(1)] _ k(2), of 510] boot_page_eq [OF assms(1) k(1), of 2] by simp
    moreover have "entry m3 (boot_page b k) j = (if k = 0 \<and> j = 511 then boot_page b 2 OR 3 else entry m2 (boot_page b k) j)"
      unfolding m3_def using entry_store [OF al [of 0] al [OF k(1)] _ k(2), of 511] boot_page_eq [OF assms(1) k(1), of 0] by simp
    ultimately show ?thesis
      unfolding bt using boot_fill_pd_entry [OF al3 al [OF k(1)] k(2)] boot_page_eq [OF assms(1) k(1), of 3] by (auto split: if_splits)
  qed
  have e1: "entry m1 (boot_page b k) j = (if k = 0 \<and> j = 0 then boot_page b 1 OR 3 else 0)" if k: "k < 32" "j < 512" for k j
    unfolding m1_def using entry_store [OF al [of 0] al [OF k(1)] _ k(2), of 0] boot_page_eq [OF assms(1) k(1), of 0] z [OF k] by simp
  have e2: "entry m2 (boot_page b k) j =
    (if k = 1 \<and> j < n then boot_page b (4 + unat j) OR 3
     else if 4 \<le> k \<and> of_nat (k - 4) < n then (of_nat (k - 4) * 0x40000000 + j * 0x200000) OR 0x83
     else if k = 0 \<and> j = 0 then boot_page b 1 OR 3 else 0)" if k: "k < 32" "j < 512" for k j
  proof -
    have un: "unat n \<le> 28" using assms(2) by (simp add: word_le_nat_alt)
    have ex: "(\<exists>p < n. boot_page b k = boot_page b (4 + unat p)) \<longleftrightarrow> 4 \<le> k \<and> of_nat (k - 4) < n"
    proof
      assume "\<exists>p < n. boot_page b k = boot_page b (4 + unat p)"
      then obtain p where p: "p < n" "boot_page b k = boot_page b (4 + unat p)" by blast
      then have "unat p < 28" using un by (simp add: word_less_nat_alt)
      then have "k = 4 + unat p" using p(2) boot_page_eq [OF assms(1) k(1), of "4 + unat p"] by simp
      then show "4 \<le> k \<and> of_nat (k - 4) < n" using p(1) by simp
    next
      assume h: "4 \<le> k \<and> of_nat (k - 4) < n"
      have "unat (of_nat (k - 4) :: u64) = k - 4" using k(1) by (intro unat_of_nat_u64) simp
      then have "4 + unat (of_nat (k - 4) :: u64) = k" using h by linarith
      then show "\<exists>p < n. boot_page b k = boot_page b (4 + unat p)" using h by metis
    qed
    have off: "(unat (boot_page b k) - unat b) div 4096 = k" unfolding boot_page_addr(1) [OF assms(1) k(1)] by simp
    show ?thesis
      unfolding m2_def boot_low_entries [OF assms(1,2) al [OF k(1)] k(2)] ex off e1 [OF k]
      using boot_page_eq [OF assms(1) k(1), of 1] by auto
  qed
  show "i < 512 \<Longrightarrow> entry (boot_tables b n m) b i = (if i = 0 then boot_page b 1 OR 3 else if i = 511 then boot_page b 2 OR 3 else 0)"
    using e [of 0 i] e2 [of 0 i] by (auto simp: boot_pages)
  show "i < 512 \<Longrightarrow> entry (boot_tables b n m) (boot_page b 1) i = (if i < n then boot_page b (4 + unat i) OR 3 else 0)"
    using e [of 1 i] e2 [of 1 i] by simp
  show "entry (boot_tables b n m) (boot_page b (4 + unat p)) i = (p * 0x40000000 + i * 0x200000) OR 0x83" if "p < n" "i < 512"
  proof -
    have "4 + unat p < 32" using that(1) assms(2) by (simp add: word_less_nat_alt word_le_nat_alt)
    then show ?thesis using e [of "4 + unat p" i] e2 [of "4 + unat p" i] that by simp
  qed
  show "i < 512 \<Longrightarrow> entry (boot_tables b n m) (boot_page b 2) i = (if i = 510 then boot_page b 3 OR 3 else 0)"
    using e [of 2 i] e2 [of 2 i] by simp
  show "i < 512 \<Longrightarrow> entry (boot_tables b n m) (boot_page b 3) i = i * 0x200000 OR 0x83"
    using e [of 3 i] by simp
qed

text \<open>
  C18: The tables that the loader builds in its zeroed pages map the addresses below the given number of
  gigabytes to themselves and the kernel half from 0xFFFFFFFF80000000 to the first gigabyte, and map no
  other canonical address.
\<close>

theorem boot_tables_correct:
  assumes "boot_area b" and "n \<le> 28" and "\<forall>a \<in> region b (32 * 4096). m a = 0" and "canonical v"
  shows "translate (boot_tables b n m) b v =
    (if v < n * 0x40000000 then Some v
     else if kernel_window v then Some (v - 0xFFFFFFFF80000000) else None)"
proof -
  note ent = boot_tables_entries [OF assms(1-3)]
  have un: "unat n \<le> 28" using assms(2) by (simp add: word_le_nat_alt)
  have tb: "table_base (boot_page b k)" if "k < 32" for k using boot_page_addr(2) [OF assms(1) that] .
  have f83: "leaf_flags 0x83" by (rule leaf_flags_83)
  have tr: "translate (boot_tables b n m) b v =
    (if pml4_i v = 0 \<and> pdpt_i v < n then Some (take_bit 39 v)
     else if pml4_i v = 511 \<and> pdpt_i v = 510 then Some (take_bit 30 v) else None)"
    using windows_translate [where m = "boot_tables b n m" and r = b and low = "boot_page b 1" and high = "boot_page b 2"
        and n = n and dir = "\<lambda>j. boot_page b (4 + unat j)" and mapped = "\<lambda>_ _. True" and fl = "\<lambda>_ _. 0x83"
        and khalf = "boot_page b 3" and v = v, OF ent(1,2)] ent(3-5) tb un f83
    by (simp add: word_less_nat_alt)
  have "pml4_i v = 0 \<and> pdpt_i v < n \<longleftrightarrow> v < n * 0x40000000"
  proof -
    have nn: "unat (n * 0x40000000) = unat n * 2 ^ 30" using un by (simp add: unat_word_ariths)
    have "unat v < 2 ^ 39" if "unat v < unat n * 2 ^ 30" using that un by simp
    moreover have "unat v div 2 ^ 30 < unat n \<longleftrightarrow> unat v < unat n * 2 ^ 30" by (simp add: div_less_iff_less_mult)
    ultimately show ?thesis
      unfolding low_index [OF assms(4)] word_less_nat_alt nn using low_pdpt(1) [of v] by auto
  qed
  moreover have "take_bit 39 v = v" if "v < n * 0x40000000"
    using that calculation low_index [OF assms(4)] low_pdpt(2) [of v] by simp
  ultimately show ?thesis unfolding tr using kernel_index [OF assms(4)] kernel_offset [of v] by auto
qed

theorem boot_tables_correct_witness:
  "translate (boot_tables 0x600000 4 (\<lambda>_. 0)) 0x600000 0xFEE00000 = Some 0xFEE00000 \<and>
   translate (boot_tables 0x600000 4 (\<lambda>_. 0)) 0x600000 0xFFFFFFFF80100000 = Some 0x100000 \<and>
   translate (boot_tables 0x600000 4 (\<lambda>_. 0)) 0x600000 0x100000000 = None"
proof -
  have b: "boot_area 0x600000" by (simp add: boot_area_def aligned_def)
  show ?thesis using boot_tables_correct [OF b, where n = 4 and m = "\<lambda>_. 0" and v = "0xFEE00000"]
      boot_tables_correct [OF b, where n = 4 and m = "\<lambda>_. 0" and v = "0xFFFFFFFF80100000"]
      boot_tables_correct [OF b, where n = 4 and m = "\<lambda>_. 0" and v = "0x100000000"]
    by (simp add: canonical_def kernel_window_def)
qed

end
