(* ===== verification/User.thy ===== *)
theory User
  imports Trap
begin

text \<open>
  The user programs: the system-call wrappers of \<^verbatim>\<open>user/syscall.h\<close> and what \<^verbatim>\<open>user/hello.c\<close> and
  \<^verbatim>\<open>user/burn.c\<close> do, as the sequence of their system calls. The addresses of string literals are a
  parameter.
\<close>

unbundle bit_operations_syntax

section \<open>System-call wrappers\<close>

datatype user_call = sys_write_call string u64 | sys_exit_call int | sys_yield_call | sys_spawn_call int | sys_getpid_call

text \<open>The registers in the order of the frame, r15 to rax, as the trap instruction finds them.\<close>

definition syscall3 :: "u64 \<Rightarrow> u64 \<Rightarrow> u64 \<Rightarrow> u64 \<Rightarrow> u64 list \<Rightarrow> u64 list" where
  "syscall3 num a0 a1 a2 regs = regs[14 := num, 13 := a0, 12 := a1, 11 := a2]"

fun user_registers :: "(string \<Rightarrow> u64) \<Rightarrow> user_call \<Rightarrow> u64 list \<Rightarrow> u64 list" where
  "user_registers addr (sys_write_call s len) = syscall3 0 (addr s) len 0"
| "user_registers addr (sys_exit_call code) = syscall3 1 (u64_of_int code) 0 0"
| "user_registers addr sys_yield_call = syscall3 2 0 0 0"
| "user_registers addr (sys_spawn_call img) = syscall3 3 (u64_of_int img) 0 0"
| "user_registers addr sys_getpid_call = syscall3 4 0 0 0"

section \<open>Programs\<close>

definition hello_start :: "user_call list" where
  "hello_start = [sys_getpid_call, sys_write_call (''[hello] userspace online'' @ [NL]) 25] @
     concat (map (\<lambda>i. [sys_write_call (''[hello] tick'' @ [NL]) 13, sys_yield_call]) [0..<8]) @
     [sys_write_call (''[hello] exit'' @ [NL]) 13, sys_exit_call 0]"

definition fib_step :: "u64 \<Rightarrow> u64 \<times> u64 \<Rightarrow> u64 \<times> u64" where
  "fib_step i = (\<lambda>(a, b). let t = a + b in (b, t))"

definition fib :: "u64 \<Rightarrow> u64" where
  "fib n = fst (for_range 0 n fib_step (0, 1))"

definition burn_acc :: u64 where
  "burn_acc = for_range 0 50000 (\<lambda>i acc. acc XOR fib (i mod 24 + 8)) 0"

definition burn_start :: "user_call list" where
  "burn_start = [sys_write_call (''[burn] cpu-bound start'' @ [NL]) 23] @
     concat (map (\<lambda>round. (if round mod 3 = 0 then [sys_write_call (''[burn] still running'' @ [NL]) 21] else []) @
       [sys_yield_call]) [0..<(12 :: nat)]) @
     [sys_write_call (''[burn] exit'' @ [NL]) 12, sys_exit_call 0]"

section \<open>A call from user mode\<close>

lemma frame_get_set:
  assumes "unat f + 176 \<le> 2 ^ 64" and "k < 22"
  shows "frame_get (frame_set f 14 v m) f k = (if k = 14 then v else frame_get m f k)"
proof (cases "k = 14")
  case True
  then show ?thesis by (simp add: frame_get_def frame_set_def)
next
  case False
  have u: "unat (f + of_nat (8 * j)) = unat f + 8 * j" if "j < 22" for j
  proof -
    have o: "unat (of_nat (8 * j) :: u64) = 8 * j" using that by (intro unat_of_nat_u64) simp
    have "unat f + unat (of_nat (8 * j) :: u64) < 2 ^ LENGTH(64)" unfolding o using that assms(1) by simp
    then have "unat (f + of_nat (8 * j)) = unat f + unat (of_nat (8 * j) :: u64)" by (rule unat_add_lem [THEN iffD1])
    then show ?thesis unfolding o .
  qed
  have "region (f + of_nat (8 * 14)) 8 \<inter> region (f + of_nat (8 * k)) 8 = {}"
    using u [of 14] u [OF assms(2)] assms False by (intro region_disjoint) (auto simp del: of_nat_mult)
  then show ?thesis using False unfolding frame_get_def frame_set_def by (simp add: load64_store64_disjoint del: of_nat_mult)
qed

lemma resumed_result:
  assumes "length regs = 15" and "length iret = 5" and "unat f + 176 \<le> 2 ^ 64"
  shows "resumed_registers (frame_set f 14 v (push_frame f (regs @ [n, e] @ iret) m)) f = regs[14 := v] @ iret"
proof -
  let ?m = "push_frame f (regs @ [n, e] @ iret) m"
  have "resumed_registers (frame_set f 14 v ?m) f = (resumed_registers ?m f)[14 := v]"
  proof (rule nth_equalityI)
    fix i assume "i < length (resumed_registers (frame_set f 14 v ?m) f)"
    then have i: "i < 20" by (simp add: resumed_registers_def)
    define j where "j = ([0..<15] @ [17..<22]) ! i"
    have j: "j < 22 \<and> (j = 14 \<longleftrightarrow> i = 14)" unfolding j_def using i by (auto simp: nth_append simp del: upt_rec_numeral)
    have r: "resumed_registers m' f ! i = frame_get m' f j" for m'
      unfolding resumed_registers_def j_def using i by (subst nth_map) (simp_all del: upt_rec_numeral)
    have "length (resumed_registers ?m f) = 20" by (simp add: resumed_registers_def)
    then show "resumed_registers (frame_set f 14 v ?m) f ! i = (resumed_registers ?m f)[14 := v] ! i"
      using i j frame_get_set [OF assms(3), of j] r by (simp add: nth_list_update)
  qed (simp add: resumed_registers_def)
  then show ?thesis using resumed_pushed(1) [OF assms] assms(1) by (simp add: list_update_append)
qed

text \<open>
  C22: A program that asks for its process number through the gate of the system calls goes on with the
  number in rax and every other register as it was. The kernel state is as before but for the trap frame
  below its stack pointer, which holds the registers with the result in rax.
\<close>

theorem user_getpid:
  assumes "task_current_pid s = q" and "0 < q" and "q < 2 ^ 31"
    and "length regs = 15" and "length iret = 5" and "176 < unat stack"
  shows "isr_common hello burn fault 128 0 (user_registers addr sys_getpid_call regs) iret stack s =
    Ok ((user_registers addr sys_getpid_call regs)[14 := u64_of_int q] @ iret)
      (s\<lparr>mem := frame_set (stack - 176) 14 (u64_of_int q)
         (push_frame (stack - 176) (user_registers addr sys_getpid_call regs @ [128, 0] @ iret) (mem s))\<rparr>)"
proof -
  let ?f = "stack - 176" and ?r = "user_registers addr sys_getpid_call regs"
  let ?m = "push_frame (stack - 176) (?r @ [128, 0] @ iret) (mem s)"
  have l: "length ?r = 15" using assms(4) by (simp add: syscall3_def)
  have uf: "unat ?f = unat stack - 176" using assms(6) by (simp add: unat_sub word_le_nat_alt)
  then have b: "unat ?f + 176 \<le> 2 ^ 64" "?f \<noteq> 0" using assms(6) unat_u64_less [of stack] by (auto simp: word_unat_eq_iff)
  note p = resumed_pushed [OF l assms(5) b(1)]
  have "frame_get ?m ?f 14 = (resumed_registers ?m ?f) ! 14" by (simp add: resumed_registers_def nth_append)
  then have rax: "frame_get ?m ?f 14 = 4" unfolding p(1) using assms(4) by (simp add: syscall3_def nth_append)
  have v: "u64_of_int q \<noteq> 0" "u64_of_int q \<noteq> ret_err 11" "\<not> q < 0"
  proof -
    have q: "uint (u64_of_int q) = q" using assms(2,3) by (simp add: u64_of_int_def uint_word_of_int)
    show "u64_of_int q \<noteq> 0" using q assms(2) by auto
    have "uint (ret_err 11) = 2 ^ 64 - 11" by (simp add: ret_err_def)
    then show "u64_of_int q \<noteq> ret_err 11" using q assms(3) by auto
  qed (use assms(2) in simp)
  have pid: "task_current_pid (s\<lparr>mem := ?m\<rparr>) = q" using assms(1) by (auto simp: task_current_pid_def task_current_def split: if_splits)
  have call: "sys_call hello burn ?f (s\<lparr>mem := ?m\<rparr>) = Ok (u64_of_int q) (s\<lparr>mem := ?m\<rparr>)"
    using rax v(3) pid by (simp add: sys_call_def sys_getpid_def Let_def)
  have "frame_get (frame_set ?f 14 (u64_of_int q) ?m) ?f 14 = u64_of_int q" using frame_get_set [OF b(1), of 14] by simp
  then have "syscall_dispatch hello burn ?f (s\<lparr>mem := ?m\<rparr>) = Ok 0 (s\<lparr>mem := frame_set ?f 14 (u64_of_int q) ?m\<rparr>)"
    using call v b(2) by (simp add: syscall_dispatch_def Let_def)
  then have "interrupt_handler hello burn fault ?f (s\<lparr>mem := ?m\<rparr>) = Ok 0 (s\<lparr>mem := frame_set ?f 14 (u64_of_int q) ?m\<rparr>)"
    using b(2) p(2) by (simp add: interrupt_handler_def Let_def)
  then show ?thesis using resumed_result [OF l assms(5) b(1)] by (simp add: isr_common_def isr_stub_def Let_def del: user_registers.simps)
qed

theorem user_getpid_witness:
  "\<forall>s :: desc. \<exists>m. isr_common (0, 0) (0, 0) 0 128 0 (user_registers (\<lambda>_. 0) sys_getpid_call (replicate 15 7))
     [0x2000000000, 0x1B, 0x202, 0x9000, 0x23] 0x9000 (s\<lparr>tasks := [(blank_task 0)\<lparr>pid := 5\<rparr>], current_tid := 0\<rparr>) =
     Ok ((user_registers (\<lambda>_. 0) sys_getpid_call (replicate 15 7))[14 := 5] @ [0x2000000000, 0x1B, 0x202, 0x9000, 0x23])
       (s\<lparr>tasks := [(blank_task 0)\<lparr>pid := 5\<rparr>], current_tid := 0, mem := m\<rparr>)"
proof
  fix s :: desc
  let ?s = "s\<lparr>tasks := [(blank_task 0)\<lparr>pid := 5\<rparr>], current_tid := 0\<rparr>"
  have "task_current_pid ?s = 5" by (simp add: task_current_pid_def task_current_def)
  from user_getpid [OF this, where regs = "replicate 15 7" and iret = "[0x2000000000, 0x1B, 0x202, 0x9000, 0x23]"
      and stack = "0x9000" and hello = "(0, 0)" and burn = "(0, 0)" and fault = 0 and addr = "\<lambda>_. 0"]
  show "\<exists>m. isr_common (0, 0) (0, 0) 0 128 0 (user_registers (\<lambda>_. 0) sys_getpid_call (replicate 15 7))
     [0x2000000000, 0x1B, 0x202, 0x9000, 0x23] 0x9000 ?s =
     Ok ((user_registers (\<lambda>_. 0) sys_getpid_call (replicate 15 7))[14 := 5] @ [0x2000000000, 0x1B, 0x202, 0x9000, 0x23])
       (?s\<lparr>mem := m\<rparr>)"
    by (simp add: u64_of_int_def del: user_registers.simps) blast
qed

section \<open>Programs write their strings whole\<close>

fun call_whole :: "user_call \<Rightarrow> bool" where
  "call_whole (sys_write_call s len) = (unat len = length s)"
| "call_whole _ = True"

lemma programs_whole: "list_all call_whole hello_start" "list_all call_whole burn_start"
  by (auto simp: hello_start_def burn_start_def list_all_iff)

fun fibonacci :: "nat \<Rightarrow> nat" where
  "fibonacci 0 = 0"
| "fibonacci (Suc 0) = 1"
| "fibonacci (Suc (Suc n)) = fibonacci n + fibonacci (Suc n)"

lemma fib_fibonacci: "fib n = of_nat (fibonacci (unat n))"
proof -
  have "fold fib_step xs (of_nat (fibonacci k), of_nat (fibonacci (Suc k))) =
    (of_nat (fibonacci (k + length xs)), of_nat (fibonacci (Suc (k + length xs))))" for xs k
  proof (induction xs arbitrary: k)
    case (Cons x xs)
    then show ?case using Cons.IH [of "Suc k"] by (simp add: fib_step_def Let_def)
  qed simp
  from this [of "map of_nat [0..<unat n]" 0] show ?thesis by (simp add: fib_def for_range_fold)
qed

end
