(* ===== verification/Elf.thy ===== *)
theory Elf
  imports Syscall
begin

text \<open>
  The program loader of \<^verbatim>\<open>kernel/process.c\<close> is correct: what \<^verbatim>\<open>load_elf_into_as\<close> and \<^verbatim>\<open>map_user_stack\<close>
  give a new address space, by the loop invariant of the theory Pages.
\<close>

unbundle bit_operations_syntax

section \<open>A rule for loops that may return\<close>

lemma for_dyn_out_invariant:
  fixes a b :: "'w::len word"
  assumes "P a s" and "a \<le> b"
    and "\<And>k t. P k t \<Longrightarrow> n t = b"
    and "\<And>k t. a \<le> k \<Longrightarrow> k < b \<Longrightarrow> P k t \<Longrightarrow> \<exists>t'. f k t = Ok None t' \<and> P (k + 1) t'"
  shows "\<exists>t'. for_dyn_out a n f s = Ok None t' \<and> P b t'"
  using assms
proof (induction a n f s rule: for_dyn_out.induct)
  case (1 i n f s)
  show ?case
  proof (cases "i < b")
    case True
    then have le: "i + 1 \<le> b" "i \<le> i + 1"
      using unat_Suc_less [OF True] by (auto simp: word_le_nat_alt word_less_nat_alt)
    obtain t' where t': "f i s = Ok None t'" "P (i + 1) t'" using "1.prems"(4) [of i s] "1.prems"(1) True by auto
    have lt: "i < n s" using True "1.prems"(1,3) by simp
    have "\<exists>u. for_dyn_out (i + 1) n f t' = Ok None u \<and> P b u"
      using "1.prems"(3,4) order_trans [OF le(2)] by (intro "1.IH" [OF lt t'(1) _ t'(2) le(1)]) auto
    then show ?thesis using lt t'(1) by (subst for_dyn_out.simps) simp
  next
    case False
    then have "i = b" using "1.prems"(2) by simp
    then show ?thesis using "1.prems"(1,3) by (subst for_dyn_out.simps) auto
  qed
qed

section \<open>Segments\<close>

text \<open>The addresses of a segment, whole pages, and the bytes the processor is to see there.\<close>

definition seg_start :: "Elf64_Phdr \<Rightarrow> u64" where "seg_start ph = page_base (p_vaddr ph)"

definition seg_end :: "Elf64_Phdr \<Rightarrow> u64" where "seg_end ph = page_base (p_vaddr ph + p_memsz ph + 0xFFF)"

definition seg_addrs :: "Elf64_Phdr \<Rightarrow> u64 set" where "seg_addrs ph = {w. seg_start ph \<le> w \<and> w < seg_end ph}"

definition seg_bytes :: "pmem \<Rightarrow> u64 \<Rightarrow> Elf64_Phdr \<Rightarrow> (u64 \<Rightarrow> u8) \<Rightarrow> u64 \<Rightarrow> u8" where
  "seg_bytes m elf ph F w =
     (if w - p_vaddr ph < p_filesz ph then m (elf + p_offset ph + (w - p_vaddr ph)) else F w)"

text \<open>A segment that lies in the file and in user memory, with no sum that wraps.\<close>

definition seg_ok :: "u64 \<Rightarrow> Elf64_Phdr \<Rightarrow> bool" where
  "seg_ok sz ph \<longleftrightarrow> p_filesz ph \<le> p_memsz ph \<and> unat (p_offset ph) + unat (p_filesz ph) \<le> unat sz \<and>
     0x400000 \<le> unat (p_vaddr ph) \<and> unat (p_vaddr ph) + unat (p_memsz ph) + 0xFFF < 2 ^ 47"

lemma seg_bounds:
  assumes "seg_ok sz ph"
  shows "unat (seg_start ph) = 4096 * (unat (p_vaddr ph) div 4096)"
    and "unat (seg_end ph) = 4096 * ((unat (p_vaddr ph) + unat (p_memsz ph) + 4095) div 4096)"
    and "unat (p_vaddr ph + p_memsz ph) = unat (p_vaddr ph) + unat (p_memsz ph)"
proof -
  have b: "unat (p_vaddr ph) + unat (p_memsz ph) + 0xFFF < 2 ^ 47" using assms by (simp add: seg_ok_def)
  show "unat (seg_start ph) = 4096 * (unat (p_vaddr ph) div 4096)" by (simp add: seg_start_def unat_page_base)
  show 1: "unat (p_vaddr ph + p_memsz ph) = unat (p_vaddr ph) + unat (p_memsz ph)"
    using b by (intro unat_add_lem [THEN iffD1]) simp
  have "unat (p_vaddr ph + p_memsz ph + 0xFFF) = unat (p_vaddr ph + p_memsz ph) + unat (0xFFF :: u64)"
    using b 1 by (intro unat_add_lem [THEN iffD1]) simp
  then show "unat (seg_end ph) = 4096 * ((unat (p_vaddr ph) + unat (p_memsz ph) + 4095) div 4096)"
    unfolding 1 by (simp add: seg_end_def unat_page_base)
qed

lemma seg_limits:
  assumes "seg_ok sz ph"
  shows "\<not> seg_start ph < USER_LOWER_LIMIT" and "\<not> seg_end ph \<ge> USER_UPPER_LIMIT"
    and "w \<in> seg_addrs ph \<Longrightarrow> w < 2 ^ 48" and "w - p_vaddr ph < p_memsz ph \<Longrightarrow> w \<in> seg_addrs ph"
proof -
  define a l where "a = unat (p_vaddr ph)" and "l = unat (p_memsz ph)"
  have b: "0x400000 \<le> a" "a + l + 4095 < 2 ^ 47" using assms by (auto simp: seg_ok_def a_def l_def)
  note u = seg_bounds [OF assms, folded a_def l_def]
  show "\<not> seg_start ph < USER_LOWER_LIMIT" using u(1) b(1) by (simp add: word_less_nat_alt)
  have e: "unat (seg_end ph) < 2 ^ 47" unfolding u(2) using b(2) by linarith
  then show "\<not> seg_end ph \<ge> USER_UPPER_LIMIT" by (simp add: word_le_nat_alt)
  show "w < 2 ^ 48" if "w \<in> seg_addrs ph" using that e by (simp add: seg_addrs_def word_less_nat_alt)
  show "w \<in> seg_addrs ph" if "w - p_vaddr ph < p_memsz ph"
  proof -
    define d where "d = unat (w - p_vaddr ph)"
    have d: "d < l" using that by (simp add: d_def l_def word_less_nat_alt)
    have "unat (p_vaddr ph + (w - p_vaddr ph)) = a + d"
      using d b(2) unfolding a_def d_def by (intro unat_add_lem [THEN iffD1]) (simp add: l_def)
    then have "unat w = a + d" by simp
    moreover have "4096 * (a div 4096) \<le> a + d" "a + d < 4096 * ((a + l + 4095) div 4096)" using d by linarith+
    ultimately show ?thesis by (simp add: seg_addrs_def word_le_nat_alt word_less_nat_alt u)
  qed
qed

text \<open>The loop over the pages covers exactly the addresses of the segment.\<close>

definition seg_pages :: "Elf64_Phdr \<Rightarrow> nat" where
  "seg_pages ph = length (page_steps (seg_start ph) (seg_end ph))"

lemma page_steps_aligned:
  assumes a: "unat a = 4096 * i" and b: "unat b = 4096 * j" and bound: "4096 * j < 2 ^ 48"
  shows "va \<in> set (page_steps a b) \<Longrightarrow> va AND 0xFFF = 0 \<and> a \<le> va \<and> va < b"
    and "\<Union> (page_of ` set (page_steps a b)) = {w. a \<le> w \<and> w < b}"
proof -
  have el: "\<exists>k. i \<le> k \<and> k < j \<and> unat va = 4096 * k" if va: "va \<in> set (page_steps a b)" for va
  proof -
    obtain k where k: "va = a + of_nat k * 0x1000" and kb: "k < (if a < b then unat (b - a) div 4096 else 0)"
      using va by (auto simp: page_steps_def)
    have lt: "a < b" using kb by (auto split: if_splits)
    have "unat (b - a) = 4096 * (j - i)" using lt a b by (subst unat_sub) (auto simp: algebra_simps)
    then have k2: "i + k < j" using kb lt by simp
    have "unat (of_nat k * 0x1000 :: u64) = k * 4096"
      using k2 bound by (simp add: unat_word_ariths unat_of_nat mod_mult_left_eq)
    then have "unat va = 4096 * i + k * 4096"
      unfolding k using a k2 bound by (subst unat_add_lem [THEN iffD1]) simp_all
    then show ?thesis using k2 by (intro exI [of _ "i + k"]) simp
  qed
  have al: "va AND 0xFFF = 0" if "unat va = 4096 * k" for va :: u64 and k
  proof -
    have "unat (page_base va) = unat va" using that by (simp add: unat_page_base)
    then show ?thesis using page_offset_bits [of va] by (simp only: word_unat_eq_iff [symmetric]) simp
  qed
  show "va AND 0xFFF = 0 \<and> a \<le> va \<and> va < b" if "va \<in> set (page_steps a b)" for va
    using el [OF that] al a b by (auto simp: word_le_nat_alt word_less_nat_alt)
  show "\<Union> (page_of ` set (page_steps a b)) = {w. a \<le> w \<and> w < b}"
  proof (intro equalityI subsetI)
    fix w assume "w \<in> \<Union> (page_of ` set (page_steps a b))"
    then obtain va where va: "va \<in> set (page_steps a b)" "page_base w = va" by (auto simp: page_of_def)
    obtain k where k: "i \<le> k" "k < j" "unat va = 4096 * k" using el [OF va(1)] by blast
    then have "unat w div 4096 = k" using va(2) unat_page_base [of w] by simp
    then show "w \<in> {w. a \<le> w \<and> w < b}"
      using k a b by (auto simp: word_le_nat_alt word_less_nat_alt)
  next
    fix w assume "w \<in> {w. a \<le> w \<and> w < b}"
    then have w: "4096 * i \<le> unat w" "unat w < 4096 * j" using a b by (auto simp: word_le_nat_alt word_less_nat_alt)
    define k where "k = unat w div 4096 - i"
    have k: "i + k = unat w div 4096" "i + k < j" using w by (auto simp: k_def)
    have lt: "a < b" using w a b by (simp add: word_less_nat_alt)
    have "unat (b - a) = 4096 * (j - i)" using lt a b by (subst unat_sub) (auto simp: algebra_simps)
    then have kb: "k < unat (b - a) div 4096" using k by simp
    have "unat (of_nat k * 0x1000 :: u64) = k * 4096"
      using k bound by (simp add: unat_word_ariths unat_of_nat mod_mult_left_eq)
    then have "unat (a + of_nat k * 0x1000) = 4096 * i + k * 4096"
      using a k bound by (subst unat_add_lem [THEN iffD1]) simp_all
    then have "page_base w = a + of_nat k * 0x1000"
      using unat_page_base [of w] k(1) by (simp add: word_unat_eq_iff algebra_simps)
    then have "page_base w \<in> set (page_steps a b)" using lt kb by (auto simp: page_steps_def)
    moreover have "w < 2 ^ 48" using w bound by (simp add: word_less_nat_alt)
    ultimately show "w \<in> \<Union> (page_of ` set (page_steps a b))" by (auto simp: page_of_def)
  qed
qed

section \<open>Loading a segment\<close>

lemma region_within: "k + n \<le> N \<Longrightarrow> N < 2 ^ 64 \<Longrightarrow> region (a + of_nat k) n \<subseteq> region a N"
proof
  fix x assume b: "k + n \<le> N" "N < 2 ^ 64" and x: "x \<in> region (a + of_nat k) n"
  have u: "unat (of_nat k :: u64) = k" using b by (intro unat_of_nat_u64) simp
  have "unat ((x - (a + of_nat k)) + of_nat k) = unat (x - (a + of_nat k)) + unat (of_nat k :: u64)"
    using x b u by (intro unat_add_lem [THEN iffD1]) (simp add: region_def)
  then show "x \<in> region a N" using x b u by (simp add: region_def algebra_simps)
qed

lemma load_phdr_cong:
  assumes "\<And>x. x \<in> region a 56 \<Longrightarrow> m x = m' x"
  shows "load_phdr m a = load_phdr m' a"
proof -
  have e: "m x = m' x" if "x \<in> region (a + of_nat k) n" "k + n \<le> 56" for x k n
    using that region_within [of k n 56 a] by (intro assms) auto
  have "load32 m a = load32 m' a" "load32 m (a + 4) = load32 m' (a + 4)"
    using e [of _ 0 4] e [of _ 4 4] by (auto simp: load32_def intro!: arg_cong [of _ _ ucast] loadb_cong)
  moreover have "load64 m (a + of_nat k) = load64 m' (a + of_nat k)" if "k + 8 \<le> 56" for k
    using e [of _ k 8] that by (auto intro!: load64_cong)
  from this [of 8] this [of 16] this [of 32] this [of 40]
  have "load64 m (a + 8) = load64 m' (a + 8)" "load64 m (a + 16) = load64 m' (a + 16)"
    "load64 m (a + 32) = load64 m' (a + 32)" "load64 m (a + 40) = load64 m' (a + 40)" by simp_all
  ultimately show ?thesis by (simp add: load_phdr_def)
qed

text \<open>The image is data, so loading does not change it.\<close>

definition image_quiet :: "'a vmm_scheme \<Rightarrow> u64 set \<Rightarrow> u64 \<Rightarrow> u64 \<Rightarrow> bool" where
  "image_quiet s S elf sz \<longleftrightarrow> (\<forall>x \<in> region elf (unat sz). quiet s S x)"

lemma page_view_image:
  assumes "page_view s S as P F t" and "image_quiet s S elf sz" and "k + n \<le> unat sz" and "x \<in> region (elf + of_nat k) n"
  shows "mem t x = mem s x"
proof -
  have "x \<in> region elf (unat sz)" using region_within [OF assms(3), of elf] assms(4) unat_u64_less [of sz] by auto
  then have "quiet s S x" using assms(2) by (simp add: image_quiet_def)
  then show ?thesis using assms(1) keepsD [of s S t x] by (simp add: page_view_def)
qed

lemma page_view_write_free:
  fixes t :: "'a vmm_scheme"
  assumes "page_view s S as P F t" and "as \<in> S" and "w \<in> P"
  shows "free_set (t\<lparr>mem := (mem t)(vmm_virt_to_phys as w t := b)\<rparr>) = free_set t"
proof -
  have "vm_inv t S" using assms(1) by (simp add: page_view_def)
  then show ?thesis by (rule quiet_write(2)) (use page_view_phys(3) [OF assms] in auto)
qed

lemma copy_segment_ok:
  fixes s t :: "'a proc_scheme"
  assumes v: "page_view s S as P F t" and as: "as \<in> S" and img: "image_quiet s S elf sz"
    and ph: "\<And>P F t. page_view s S as P F t \<Longrightarrow> load_phdr (mem t) pha = ph"
    and fit: "unat (p_offset ph) + unat (p_filesz ph) \<le> unat sz"
    and mapped: "\<And>off. off < p_filesz ph \<Longrightarrow> p_vaddr ph + off \<in> P"
  shows "\<exists>t'. copy_segment as elf pha t = Ok None t' \<and> page_view s S as P (seg_bytes (mem s) elf ph F) t' \<and>
    free_set t' = free_set t"
proof -
  define G where "G = (\<lambda>k w. if w - p_vaddr ph < k then mem s (elf + p_offset ph + (w - p_vaddr ph)) else F w)"
  define I where "I = (\<lambda>k u. page_view s S as P (G k) u \<and> free_set u = free_set t)"
  let ?f = "\<lambda>off u. let va = p_vaddr (load_phdr (mem u) pha) + off; phys = vmm_virt_to_phys as va u
       in if phys = 0 then Ok (Some (- 1)) u
          else Ok None (u\<lparr>mem := (mem u)(phys := mem u (elf + p_offset ph + off))\<rparr>)"
  have "\<exists>t'. for_dyn_out 0 (\<lambda>u. p_filesz (load_phdr (mem u) pha)) ?f t = Ok None t' \<and> I (p_filesz ph) t'"
  proof (rule for_dyn_out_invariant [where P = I])
    show "I 0 t" using v by (simp add: I_def G_def)
    show "p_filesz (load_phdr (mem u) pha) = p_filesz ph" if "I k u" for k u using that ph by (auto simp: I_def)
    fix k u assume k: "k < p_filesz ph" and i: "I k u"
    then have pv: "page_view s S as P (G k) u" by (simp add: I_def)
    let ?w = "p_vaddr ph + k" and ?b = "mem s (elf + p_offset ph + k)"
    note w = mapped [OF k]
    have kn: "unat k < unat (p_filesz ph)" using k by (simp add: word_less_nat_alt)
    have b: "mem u (elf + p_offset ph + k) = ?b"
      using page_view_image [OF pv img, of "unat (p_offset ph) + unat k" 1] fit kn by (simp add: region_def add.assoc)
    have "(G k)(?w := ?b) = G (k + 1)"
    proof
      fix x
      have "x - p_vaddr ph < k + 1 \<longleftrightarrow> x - p_vaddr ph < k \<or> x = ?w"
      proof -
        have "x = ?w \<longleftrightarrow> unat (x - p_vaddr ph) = unat k"
          unfolding word_unat_eq_iff [symmetric] by (auto simp: algebra_simps)
        then show ?thesis by (simp add: word_less_nat_alt unat_Suc_less [OF k] less_Suc_eq)
      qed
      then show "((G k)(?w := ?b)) x = G (k + 1) x" by (auto simp: G_def)
    qed
    then show "\<exists>u'. ?f k u = Ok None u' \<and> I (k + 1) u'"
      using page_view_write [OF pv as w, of ?b] page_view_write_free [OF pv as w, of ?b] page_view_phys(2) [OF pv as w]
        i ph [OF pv] b by (auto simp: I_def Let_def)
  qed simp
  moreover have "G (p_filesz ph) = seg_bytes (mem s) elf ph F" by (simp add: G_def seg_bytes_def fun_eq_iff)
  ultimately show ?thesis using ph [OF v] by (simp add: copy_segment_def I_def Let_def)
qed

lemma segment_flags_bits: "segment_flags pf AND 0x000FFFFFFFFFF000 = 0" "user (segment_flags pf)"
  by (simp_all add: segment_flags_def Let_def)

text \<open>The loop invariant of the loader.\<close>

definition loaded ::
  "'a vmm_scheme \<Rightarrow> u64 set \<Rightarrow> u64 \<Rightarrow> u64 \<Rightarrow> Elf64_Phdr list \<Rightarrow> 'a vmm_scheme \<Rightarrow> bool" where
  "loaded s S as elf phs t \<longleftrightarrow> page_view s S as (\<Union> (seg_addrs ` set phs)) (fold (seg_bytes (mem s) elf) phs (\<lambda>_. 0)) t \<and>
     card (free_set s) \<le> card (free_set t) + 4 * sum_list (map seg_pages phs)"

lemma seg_bytes_zero:
  assumes "\<forall>ph \<in> set phs. seg_ok sz ph" and "w \<notin> \<Union> (seg_addrs ` set phs)"
  shows "fold (seg_bytes m elf) phs F w = F w"
  using assms
proof (induction phs arbitrary: F)
  case (Cons ph phs)
  have "\<not> w - p_vaddr ph < p_filesz ph"
  proof
    assume "w - p_vaddr ph < p_filesz ph"
    moreover have ok: "seg_ok sz ph" using Cons.prems(1) by simp
    ultimately have "w - p_vaddr ph < p_memsz ph" unfolding seg_ok_def by (metis order.strict_trans2)
    then show False using seg_limits(4) [OF ok] Cons.prems(2) by auto
  qed
  then show ?case using Cons by (simp add: seg_bytes_def [of m elf ph])
qed simp

lemma seg_closed:
  assumes "\<forall>ph \<in> set phs. seg_ok sz ph"
  shows "page_closed (\<Union> (seg_addrs ` set phs))"
proof -
  have "page_of (page_base w) \<subseteq> seg_addrs ph" if mem: "w \<in> seg_addrs ph" and ok: "seg_ok sz ph" for w ph
  proof
    fix x assume "x \<in> page_of (page_base w)"
    then have e: "unat x div 4096 = unat w div 4096"
      using unat_page_base [of x] unat_page_base [of w] by (simp add: page_of_def)
    obtain i j where ij: "unat (seg_start ph) = 4096 * i" "unat (seg_end ph) = 4096 * j" using seg_bounds [OF ok] by blast
    have w: "4096 * i \<le> unat w" "unat w < 4096 * j" using mem ij by (auto simp: seg_addrs_def word_le_nat_alt word_less_nat_alt)
    then have "i \<le> unat w div 4096" "unat w div 4096 < j"
      by (simp_all add: less_eq_div_iff_mult_less_eq div_less_iff_less_mult mult.commute)
    then have "i \<le> unat x div 4096" "unat x div 4096 < j" unfolding e by simp_all
    then have "4096 * i \<le> unat x" "unat x < 4096 * j"
      by (simp_all add: less_eq_div_iff_mult_less_eq div_less_iff_less_mult mult.commute)
    then show "x \<in> seg_addrs ph" using ij by (simp add: seg_addrs_def word_le_nat_alt word_less_nat_alt)
  qed
  then show ?thesis using assms unfolding page_closed_def by blast
qed

lemma load_segment_ok:
  fixes s t :: "'a proc_scheme"
  assumes l: "loaded s S as elf phs t" and as: "as \<in> S" "as \<noteq> 0" and img: "image_quiet s S elf sz"
    and pha: "pha = elf + of_nat k" "k + 56 \<le> unat sz" and ph: "ph = load_phdr (mem s) pha" "p_type ph = 1"
    and ok: "seg_ok sz ph" "\<forall>ph \<in> set phs. seg_ok sz ph"
    and new: "\<And>w. w \<in> seg_addrs ph \<Longrightarrow> translate (mem s) (pml4_of s as) w = None"
    and card: "4 * sum_list (map seg_pages (phs @ [ph])) \<le> card (free_set s)"
  shows "\<exists>t'. load_segment as elf sz pha t = Ok None t' \<and> loaded s S as elf (phs @ [ph]) t'"
proof -
  let ?P = "\<Union> (seg_addrs ` set phs)" and ?F = "fold (seg_bytes (mem s) elf) phs (\<lambda>_. 0)"
  have v: "page_view s S as ?P ?F t" and c: "card (free_set s) \<le> card (free_set t) + 4 * sum_list (map seg_pages phs)"
    using l by (auto simp: loaded_def)
  have eq: "load_phdr (mem u) pha = ph" if "page_view s S as P F u" for P F u
    unfolding ph(1) by (rule load_phdr_cong) (use page_view_image [OF that img pha(2)] pha(1) in auto)
  note lim = seg_limits [OF ok(1)]
  have fit: "unat (p_offset ph) + unat (p_filesz ph) \<le> unat sz" using ok(1) by (simp add: seg_ok_def)
  have "unat (p_offset ph + p_filesz ph) = unat (p_offset ph) + unat (p_filesz ph)"
    using fit unat_u64_less [of sz] by (intro unat_add_lem [THEN iffD1]) simp
  then have g: "\<not> p_offset ph + p_filesz ph > sz" "\<not> p_memsz ph < p_filesz ph"
    using fit ok(1) by (auto simp: word_less_nat_alt word_le_nat_alt seg_ok_def)
  obtain i j where ij: "unat (seg_start ph) = 4096 * i" "unat (seg_end ph) = 4096 * j" using seg_bounds [OF ok(1)] by blast
  have j: "4096 * j < 2 ^ 48" using lim(2) ij(2) by (simp add: word_le_nat_alt)
  note ps = page_steps_aligned [OF ij j]
  have va: "va AND 0xFFF = 0 \<and> va < 2 ^ 48 \<and> translate (mem s) (pml4_of s as) va = None"
    if "va \<in> set (page_steps (seg_start ph) (seg_end ph))" for va
    using ps(1) [OF that] new lim(3) by (simp add: seg_addrs_def)
  have room: "4 * length (page_steps (seg_start ph) (seg_end ph)) \<le> card (free_set t)"
    using c card by (simp add: seg_pages_def [of ph])
  have un: "\<Union> (page_of ` set (page_steps (seg_start ph) (seg_end ph))) = seg_addrs ph" unfolding ps(2) seg_addrs_def ..
  have "\<exists>u. load_segment_pages as (seg_start ph) (seg_end ph) (segment_flags (p_flags ph)) t = Ok None u \<and>
    page_view s S as (?P \<union> \<Union> (page_of ` set (page_steps (seg_start ph) (seg_end ph)))) ?F u \<and>
    card (free_set t) \<le> card (free_set u) + 4 * length (page_steps (seg_start ph) (seg_end ph))"
    unfolding load_segment_pages_def
    by (rule load_pages [OF v as seg_closed [OF ok(2)] _ segment_flags_bits _ room],
      erule va, erule seg_bytes_zero [OF ok(2)])
  then obtain u where u: "load_segment_pages as (seg_start ph) (seg_end ph) (segment_flags (p_flags ph)) t = Ok None u"
    "page_view s S as (?P \<union> seg_addrs ph) ?F u" "card (free_set t) \<le> card (free_set u) + 4 * seg_pages ph"
    unfolding un seg_pages_def by blast
  have m: "p_vaddr ph + off \<in> ?P \<union> seg_addrs ph" if "off < p_filesz ph" for off
    using lim(4) [of "p_vaddr ph + off"] that g(2) by auto
  have "\<exists>t'. copy_segment as elf pha u = Ok None t' \<and>
    page_view s S as (?P \<union> seg_addrs ph) (seg_bytes (mem s) elf ph ?F) t' \<and> free_set t' = free_set u"
    by (rule copy_segment_ok [OF u(2) as(1) img _ fit], erule eq, erule m)
  then obtain t' where t': "copy_segment as elf pha u = Ok None t'"
    "page_view s S as (?P \<union> seg_addrs ph) (seg_bytes (mem s) elf ph ?F) t'" "free_set t' = free_set u" by blast
  have "load_segment as elf sz pha t = Ok None t'"
    using u(1) t'(1) g lim(1,2) ph(2) eq [OF v]
    by (simp add: load_segment_def Let_def seg_start_def [symmetric] seg_end_def [symmetric])
  then show ?thesis using t' u(3) c by (auto simp: loaded_def Un_commute)
qed

section \<open>Loading an image\<close>

text \<open>The loadable segments among the first \<open>n\<close> program headers.\<close>

definition elf_segments :: "pmem \<Rightarrow> u64 \<Rightarrow> nat \<Rightarrow> Elf64_Phdr list" where
  "elf_segments m elf n = filter (\<lambda>ph. p_type ph = 1)
     (map (\<lambda>i. load_phdr m (elf + e_phoff (load_ehdr m elf) + 56 * of_nat i)) [0..<n])"

text \<open>
  An image the loader accepts: its magic number, its entry point and its program headers, and every
  loadable segment, with no sum that wraps.
\<close>

definition elf_ok :: "pmem \<Rightarrow> u64 \<Rightarrow> u64 \<Rightarrow> bool" where
  "elf_ok m elf sz \<longleftrightarrow> (let eh = load_ehdr m elf in elf \<noteq> 0 \<and> 64 \<le> sz \<and> e_ident4 eh = [0x7F, 0x45, 0x4C, 0x46] \<and>
     0x400000 \<le> e_entry eh \<and> e_entry eh < 0x800000000000 \<and>
     unat (e_phoff eh) + unat (e_phnum eh) * 56 \<le> unat sz \<and>
     list_all (seg_ok sz) (elf_segments m elf (unat (e_phnum eh))))"

lemma load_ehdr_cong:
  assumes "\<And>x. x \<in> region a 64 \<Longrightarrow> m x = m' x"
  shows "load_ehdr m a = load_ehdr m' a"
proof -
  have e: "m x = m' x" if "x \<in> region (a + of_nat k) n" "k + n \<le> 64" for x k n
    using that region_within [of k n 64 a] by (intro assms) auto
  have b: "m (a + of_nat k) = m' (a + of_nat k)" if "k < 64" for k
    using e [of "a + of_nat k" k 1] that by (simp add: region_def)
  have l: "load64 m (a + of_nat k) = load64 m' (a + of_nat k)" if "k + 8 \<le> 64" for k
    using e [of _ k 8] that by (auto intro!: load64_cong)
  have "load16 m (a + 56) = load16 m' (a + 56)"
    using e [of _ 56 2] unfolding load16_def by (intro loadb_cong) auto
  then show ?thesis using b [of 0] b [of 1] b [of 2] b [of 3] l [of 24] l [of 32] by (simp add: load_ehdr_def)
qed

lemma elf_segments_Suc:
  "elf_segments m elf (Suc n) = elf_segments m elf n @
     (let ph = load_phdr m (elf + e_phoff (load_ehdr m elf) + 56 * of_nat n) in if p_type ph = 1 then [ph] else [])"
  by (simp add: elf_segments_def Let_def)

lemma elf_segments_split:
  assumes "k \<le> n"
  shows "\<exists>rest. elf_segments m elf n = elf_segments m elf k @ rest"
  using assms
proof (induction n)
  case (Suc n)
  then show ?case by (cases "k = Suc n") (auto simp: elf_segments_Suc)
qed (simp add: elf_segments_def)

lemma load_elf_segments:
  fixes s :: "'a proc_scheme"
  assumes inv: "vm_inv s S" and as: "as \<in> S" "as \<noteq> 0" and img: "image_quiet s S elf sz" and ok: "elf_ok (mem s) elf sz"
    and segs: "segs = elf_segments (mem s) elf (unat (e_phnum (load_ehdr (mem s) elf)))"
    and new: "\<forall>ph \<in> set segs. \<forall>w \<in> seg_addrs ph. translate (mem s) (pml4_of s as) w = None"
    and card: "4 * sum_list (map seg_pages segs) \<le> card (free_set s)"
  shows "\<exists>t. load_elf_into_as as elf sz s = Ok (0, e_entry (load_ehdr (mem s) elf)) t \<and> loaded s S as elf segs t"
proof -
  define eh where "eh = load_ehdr (mem s) elf"
  let ?seg = "elf_segments (mem s) elf"
  have o: "elf \<noteq> 0" "64 \<le> sz" "e_ident4 eh = [0x7F, 0x45, 0x4C, 0x46]" "0x400000 \<le> e_entry eh" "e_entry eh < 0x800000000000"
    "unat (e_phoff eh) + unat (e_phnum eh) * 56 \<le> unat sz" "\<forall>ph \<in> set segs. seg_ok sz ph"
    using ok by (auto simp: elf_ok_def Let_def list_all_iff segs eh_def)
  have sz: "unat sz < 2 ^ 64" using unat_u64_less [of sz] by simp
  have s64: "64 \<le> unat sz" using o(2) by (simp add: word_le_nat_alt)
  have eh: "load_ehdr (mem t) elf = eh" if "page_view s S as P F t" for P F t
    unfolding eh_def by (rule load_ehdr_cong) (use page_view_image [OF that img, of 0 64] s64 in auto)
  define I where "I = (\<lambda>(k :: u16) t. loaded s S as elf (?seg (unat k)) t)"
  have "\<exists>t. for_dyn_out 0 (\<lambda>t. e_phnum (load_ehdr (mem t) elf))
      (\<lambda>i t. load_segment as elf sz (elf + e_phoff eh + 56 * ucast i) t) s = Ok None t \<and> I (e_phnum eh) t"
  proof (rule for_dyn_out_invariant [where P = I])
    show "I 0 s" using page_view_empty [OF inv] by (simp add: I_def loaded_def elf_segments_def)
    show "e_phnum (load_ehdr (mem t) elf) = e_phnum eh" if "I k t" for k t using that eh by (auto simp: I_def loaded_def)
    fix k :: u16 and t assume k: "k < e_phnum eh" and i: "I k t"
    define j where "j = unat k"
    have j: "j < unat (e_phnum eh)" using k by (simp add: word_less_nat_alt j_def)
    have uj: "unat (k + 1) = Suc j" unfolding j_def by (rule unat_Suc_less [OF k])
    have uc: "(ucast k :: u64) = of_nat j" by (simp add: j_def)
    define off where "off = unat (e_phoff eh) + 56 * j"
    have pha: "elf + e_phoff eh + 56 * ucast k = elf + of_nat off" "off + 56 \<le> unat sz"
      using o(6) j by (auto simp: off_def uc)
    define ph where "ph = load_phdr (mem s) (elf + of_nat off)"
    have next_segs: "?seg (Suc j) = ?seg j @ (if p_type ph = 1 then [ph] else [])"
      unfolding elf_segments_Suc Let_def eh_def [symmetric] ph_def pha(1) [unfolded uc, symmetric] ..
    obtain rest where rest: "segs = ?seg (Suc j) @ rest"
      using elf_segments_split [of "Suc j" "unat (e_phnum eh)"] j segs by (auto simp: eh_def)
    have l: "loaded s S as elf (?seg j) t" using i by (simp add: I_def j_def)
    show "\<exists>t'. load_segment as elf sz (elf + e_phoff eh + 56 * ucast k) t = Ok None t' \<and> I (k + 1) t'"
    proof (cases "p_type ph = 1")
      case True
      have sub: "set (?seg j) \<subseteq> set segs" "ph \<in> set segs" using rest next_segs True by auto
      have "4 * sum_list (map seg_pages (?seg j @ [ph])) \<le> card (free_set s)"
        using card rest next_segs True by simp
      then have "\<exists>t'. load_segment as elf sz (elf + of_nat off) t = Ok None t' \<and> loaded s S as elf (?seg j @ [ph]) t'"
        using o(7) sub new by (intro load_segment_ok [OF l as img refl pha(2) ph_def True]) auto
      then show ?thesis using True by (simp add: pha(1) I_def uj next_segs)
    next
      case False
      have "page_view s S as (\<Union> (seg_addrs ` set (?seg j))) (fold (seg_bytes (mem s) elf) (?seg j) (\<lambda>_. 0)) t"
        using l by (simp add: loaded_def)
      from page_view_image [OF this img pha(2)] have "load_phdr (mem t) (elf + of_nat off) = ph"
        unfolding ph_def by (rule load_phdr_cong)
      then show ?thesis using False l by (simp add: pha(1) I_def uj next_segs load_segment_def)
    qed
  qed simp
  then obtain t where t: "for_dyn_out 0 (\<lambda>t. e_phnum (load_ehdr (mem t) elf))
      (\<lambda>i t. load_segment as elf sz (elf + e_phoff eh + 56 * ucast i) t) s = Ok None t" "loaded s S as elf segs t"
    by (auto simp: I_def segs eh_def)
  have "e_phoff eh + ucast (e_phnum eh) * 56 = of_nat (unat (e_phoff eh) + unat (e_phnum eh) * 56)" by simp
  then have "unat (e_phoff eh + ucast (e_phnum eh) * 56) = unat (e_phoff eh) + unat (e_phnum eh) * 56"
    using o(6) sz by (simp only:) (rule unat_of_nat_u64, linarith)
  then have "unat (e_phoff eh + ucast (e_phnum eh) * 56) \<le> unat sz" using o(6) by simp
  then have "\<not> e_phoff eh + ucast (e_phnum eh) * 56 > sz" by (simp only: word_less_nat_alt not_less)
  moreover have "load_ehdr (mem t) elf = eh" using t(2) eh by (auto simp: loaded_def)
  ultimately have "load_elf_into_as as elf sz s = Ok (0, e_entry eh) t"
    using t(1) o(1-5) as(2) unfolding load_elf_into_as_def Let_def eh_def [symmetric] by (simp add: not_less)
  then show ?thesis using t(2) by (auto simp: eh_def)
qed

section \<open>The user stack\<close>

definition stack_page :: "nat \<Rightarrow> u64" where
  "stack_page i = PROCESS_STACK_VIRT - of_nat (i + 1) * 0x1000"

lemma stack_pages: "map stack_page [0..<4] = [0x7FFFFFFFD000, 0x7FFFFFFFC000, 0x7FFFFFFFB000, 0x7FFFFFFFA000]"
  by (simp add: stack_page_def upt_rec)

lemma stack_page_ok:
  assumes "i < 4"
  shows "stack_page i AND 0xFFF = 0" and "stack_page i < 2 ^ 48"
proof -
  have "i \<in> {0, 1, 2, 3}" using assms by auto
  then show "stack_page i AND 0xFFF = 0" "stack_page i < 2 ^ 48" by (auto simp: stack_page_def)
qed

lemma stack_page_inj: "i < 4 \<Longrightarrow> j < 4 \<Longrightarrow> stack_page i = stack_page j \<Longrightarrow> i = j"
proof -
  assume ij: "i < 4" "j < 4" and e: "stack_page i = stack_page j"
  have "i \<in> {0, 1, 2, 3}" "j \<in> {0, 1, 2, 3}" using ij by auto
  then show "i = j" using e by (auto simp: stack_page_def)
qed

lemma stack_loop:
  fixes s t :: "'a proc_scheme"
  assumes "page_view s S as (\<Union> (page_of ` stack_page ` {..<i})) (\<lambda>_. 0) t" and as: "as \<in> S" "as \<noteq> 0" and "i \<le> 4"
    and new: "\<forall>i < 4. translate (mem s) (pml4_of s as) (stack_page i) = None" and "4 * (4 - i) \<le> card (free_set t)"
  shows "\<exists>t'. for_list [i..<4] (\<lambda>i s. map_fresh_page as (stack_page i)
      (VMM_FLAG_PRESENT OR VMM_FLAG_WRITE OR VMM_FLAG_USER OR VMM_FLAG_NX) s) t = Ok None t' \<and>
    page_view s S as (\<Union> (page_of ` stack_page ` {..<4})) (\<lambda>_. 0) t'"
  using assms(1,4,6)
proof (induction "4 - i" arbitrary: i t)
  case (Suc k)
  let ?P = "\<Union> (page_of ` stack_page ` {..<i})"
  have i: "i < 4" using Suc.hyps(2) by simp
  have "stack_page j \<noteq> stack_page i" if "j < i" for j using stack_page_inj [of j i] that i by auto
  then have dis: "?P \<inter> page_of (stack_page i) = {}" by (auto simp: page_of_def)
  have fl: "(VMM_FLAG_PRESENT OR VMM_FLAG_WRITE OR VMM_FLAG_USER OR VMM_FLAG_NX) AND 0x000FFFFFFFFFF000 = 0"
    "user (VMM_FLAG_PRESENT OR VMM_FLAG_WRITE OR VMM_FLAG_USER OR VMM_FLAG_NX)" by simp_all
  have tr: "translate (mem s) (pml4_of s as) (stack_page i) = None" using new i by simp
  have c4: "4 \<le> card (free_set t)" using Suc.prems(3) Suc.hyps(2) by simp
  obtain u where u: "map_fresh_page as (stack_page i) (VMM_FLAG_PRESENT OR VMM_FLAG_WRITE OR VMM_FLAG_USER OR VMM_FLAG_NX) t =
      Ok None u" "page_view s S as (?P \<union> page_of (stack_page i)) (\<lambda>_. 0) u" "card (free_set t) \<le> card (free_set u) + 4"
    by (rule page_view_map [OF Suc.prems(1) as stack_page_ok [OF i] fl tr dis refl c4])
  have un: "?P \<union> page_of (stack_page i) = \<Union> (page_of ` stack_page ` {..<Suc i})" by (auto simp: lessThan_Suc)
  have "\<exists>t'. for_list [Suc i..<4] (\<lambda>i s. map_fresh_page as (stack_page i)
      (VMM_FLAG_PRESENT OR VMM_FLAG_WRITE OR VMM_FLAG_USER OR VMM_FLAG_NX) s) u = Ok None t' \<and>
    page_view s S as (\<Union> (page_of ` stack_page ` {..<4})) (\<lambda>_. 0) t'"
    using u(2,3) Suc.hyps(2) Suc.prems(2,3) unfolding un by (intro Suc.hyps(1)) auto
  moreover have "[i..<4] = i # [Suc i..<4]" using i by (simp add: upt_conv_Cons)
  ultimately show ?case using u(1) by (simp del: upt_rec_numeral)
qed simp

lemma map_user_stack_view:
  fixes s :: "'a proc_scheme"
  assumes "vm_inv s S" and as: "as \<in> S" "as \<noteq> 0" and new: "\<forall>i < 4. translate (mem s) (pml4_of s as) (stack_page i) = None"
    and "16 \<le> card (free_set s)"
  shows "\<exists>t. map_user_stack as s = Ok (0, PROCESS_STACK_VIRT) t \<and>
    page_view s S as (\<Union> (page_of ` stack_page ` {..<4})) (\<lambda>_. 0) t"
proof -
  obtain t where t: "for_list [0..<4] (\<lambda>i s. map_fresh_page as (stack_page i)
      (VMM_FLAG_PRESENT OR VMM_FLAG_WRITE OR VMM_FLAG_USER OR VMM_FLAG_NX) s) s = Ok None t"
    "page_view s S as (\<Union> (page_of ` stack_page ` {..<4})) (\<lambda>_. 0) t"
    using stack_loop [of s S as 0 s] page_view_empty [OF assms(1)] as new assms(5) by (auto simp del: upt_rec_numeral)
  then show ?thesis
    using as(2) unfolding map_user_stack_def stack_page_def Let_def by (simp del: upt_rec_numeral)
qed

lemma stack_addrs: "\<Union> (page_of ` stack_page ` {..<4}) = {w. 0x7FFFFFFFA000 \<le> w \<and> w < PROCESS_STACK_VIRT}"
proof -
  have "page_steps 0x7FFFFFFFA000 PROCESS_STACK_VIRT = rev (map stack_page [0..<4])"
    by (simp add: page_steps_def stack_page_def upt_rec)
  then have "set (page_steps 0x7FFFFFFFA000 PROCESS_STACK_VIRT) = stack_page ` {..<4}"
    by (simp add: atLeast0LessThan del: upt_rec_numeral)
  then show ?thesis using page_steps_aligned(2) [of "0x7FFFFFFFA000" "0x7FFFFFFFA" PROCESS_STACK_VIRT "0x7FFFFFFFE"] by simp
qed

lemma page_view_user: "page_view s S as P F t \<Longrightarrow> w \<in> P \<Longrightarrow> user_path (mem t) (pml4_of s as) w"
  by (simp add: page_view_def)

lemma page_view_other:
  "page_view s S as P F t \<Longrightarrow> a \<in> S \<Longrightarrow> \<forall>v \<in> P. \<not> same_page w v \<Longrightarrow>
   translate (mem t) (pml4_of s a) w = translate (mem s) (pml4_of s a) w"
  by (simp add: page_view_def)


text \<open>
  A concrete image: two bytes of text at 0x400000, in the file behind one program header, loaded into the
  address space of the examples.
\<close>

definition example_elf_mem :: pmem where
  "example_elf_mem = (mem example_vm)(0x200 := 0x7F, 0x201 := 0x45, 0x202 := 0x4C, 0x203 := 0x46, 0x21A := 0x40,
     0x220 := 0x40, 0x238 := 1, 0x240 := 1, 0x244 := 5, 0x248 := 0x78, 0x252 := 0x40, 0x260 := 2, 0x268 := 2,
     0x278 := 0x48, 0x279 := 0x69)"

definition example_elf :: proc where
  "example_elf = example_space\<lparr>mem := example_elf_mem\<rparr>"

lemma example_elf_headers:
  "load_ehdr example_elf_mem 0x200 = \<lparr>e_ident4 = [0x7F, 0x45, 0x4C, 0x46], e_entry = 0x400000, e_phoff = 0x40, e_phnum = 1\<rparr>"
  "load_phdr example_elf_mem 0x240 =
     \<lparr>p_type = 1, p_flags = 5, p_offset = 0x78, p_vaddr = 0x400000, p_filesz = 2, p_memsz = 2\<rparr>"
  unfolding load_ehdr_def load_phdr_def example_elf_mem_def example_vm_def by code_simp+

lemma example_elf_segments:
  "elf_segments example_elf_mem 0x200 (Suc 0) =
     [\<lparr>p_type = 1, p_flags = 5, p_offset = 0x78, p_vaddr = 0x400000, p_filesz = 2, p_memsz = 2\<rparr>]"
  by (simp add: elf_segments_def example_elf_headers upt_rec)

lemma example_elf_ok: "elf_ok example_elf_mem 0x200 0x7A"
  by (simp add: elf_ok_def example_elf_headers example_elf_segments seg_ok_def Let_def)

lemma example_space_quiet:
  assumes "0x200 \<le> unat x" and "unat x < 0x1000"
  shows "quiet example_space {0x100} x"
proof -
  have r: "roots example_space {0x100} = {0x1000}" using example_vm_root(2) by (simp add: roots_def pml4_of_def example_space_def)
  have "x \<notin> frame_region n" if "3 \<le> n" "n < 16" for n
    using assms that unfolding frame_region_def by (subst region_interval) (simp_all add: unat_page_addr)
  moreover have "x \<notin> region 0x2000 2" "x \<notin> region 0x1000 4096" "x \<notin> region 0x100 8"
    using assms by (simp_all add: region_interval)
  ultimately show ?thesis
    unfolding quiet_def r example_space_inv(2) by (auto simp: bitmap_region_def example_space_def example_vm_tables)
qed

lemma example_elf_data: "\<forall>x. \<not> quiet example_space {0x100} x \<longrightarrow> example_elf_mem x = mem example_space x"
proof (intro allI impI)
  fix x assume "\<not> quiet example_space {0x100} x"
  then have "\<not> (0x200 \<le> unat x \<and> unat x < 0x1000)" using example_space_quiet by blast
  then have "x \<notin> {0x200, 0x201, 0x202, 0x203, 0x21A, 0x220, 0x238, 0x240, 0x244, 0x248, 0x252, 0x260, 0x268, 0x278, 0x279}" by auto
  then show "example_elf_mem x = mem example_space x" by (simp add: example_elf_mem_def example_space_def)
qed

lemma example_elf_image: "image_quiet example_elf {0x100} 0x200 0x7A"
  unfolding image_quiet_def
proof
  fix x :: u64 assume "x \<in> region 0x200 (unat (0x7A :: u64))"
  then have "0x200 \<le> unat x" "unat x < 0x1000" by (simp_all add: region_interval)
  then show "quiet example_elf {0x100} x"
    using example_space_quiet quiet_write(6) [OF example_space_inv(1) example_elf_data] by (simp add: example_elf_def)
qed


end
