(* ===== verification/Lifecycle.thy ===== *)
theory Lifecycle
  imports Pages
begin

text \<open>
  The life of a process, \<^verbatim>\<open>kernel/process.c\<close>: the process table refines a map from process numbers to
  states under every sequence of spawns, exits, kills, reapings and waits. The first part shows which
  routines leave the table alone.
\<close>

section \<open>What leaves the process table alone\<close>

definition tab :: "'a proc_scheme \<Rightarrow> Process list \<times> int" where
  "tab s = (proc_table s, next_pid s)"

lemma tab_update [simp]:
  "tab (s\<lparr>mem := m\<rparr>) = tab s" "tab (s\<lparr>free_pages := f\<rparr>) = tab s" "tab (s\<lparr>heap_head := h\<rparr>) = tab s"
  "tab (s\<lparr>tasks := ts\<rparr>) = tab s" "tab (set_task i g s) = tab s" "tab (print str s) = tab s"
  "tab (print_dec n s) = tab s" "tab (print_hex n s) = tab s"
  by (simp_all add: tab_def set_task_def print_def print_dec_def print_hex_def)

lemma tab_log: "tab (log_transition tag t a b s) = tab s"
  by (simp add: log_transition_def)

lemma tab_mem_only: "mem_only s t \<Longrightarrow> tab t = tab s"
  by (auto simp: mem_only_def tab_def)

lemma tab_for_range:
  assumes "\<And>i t. tab (f i t) = tab t"
  shows "tab (for_range i n f s) = tab s"
proof -
  have "tab (fold f xs s) = tab s" for xs by (induction xs arbitrary: s) (simp_all add: assms)
  then show ?thesis by (simp add: for_range_fold)
qed

lemma tab_pmm [simp]:
  "tab (snd (pmm_alloc_page s)) = tab s" "tab (pmm_free_page a s) = tab s" "tab (snd (pmm_alloc_pages n s)) = tab s"
proof -
  show "tab (snd (pmm_alloc_page s)) = tab s" "tab (pmm_free_page a s) = tab s"
    by (rule tab_mem_only, rule mem_only_pmm_alloc_page mem_only_pmm_free_page)+
  have "tab (let t' = bitmap_set j t in t'\<lparr>free_pages := free_pages t' - 1\<rparr>) = tab t" for j and t :: "'a proc_scheme"
    by (simp add: bitmap_set_def Let_def)
  then show "tab (snd (pmm_alloc_pages n s)) = tab s"
    by (auto simp: pmm_alloc_pages_def intro!: tab_for_range split: option.splits)
qed

lemma tab_alloc: "pmm_alloc_page s = (x, t) \<Longrightarrow> tab t = tab s" "pmm_alloc_pages n s = (x, t) \<Longrightarrow> tab t = tab s"
  using tab_pmm(1) [of s] tab_pmm(3) [of n s] by simp_all

lemma tab_destroy [simp]: "tab (vmm_destroy_address_space as s) = tab s"
proof -
  have pt: "tab (destroy_pt pd i t) = tab t" for pd i and t :: "'a proc_scheme" by (simp add: destroy_pt_def)
  have pd: "tab (destroy_pd p i t) = tab t" for p i and t :: "'a proc_scheme"
    by (simp add: destroy_pd_def Let_def tab_for_range pt)
  have "tab (destroy_pdpt as i t) = tab t" for i and t :: "'a proc_scheme"
    by (simp add: destroy_pdpt_def Let_def tab_for_range pd)
  then show ?thesis by (simp add: vmm_destroy_address_space_def Let_def tab_for_range)
qed

text \<open>The same for routines that may panic or hang, over the ways they are composed.\<close>

definition keeps_tab :: "('r, 'a proc_scheme) outcome \<Rightarrow> Process list \<times> int \<Rightarrow> bool" where
  "keeps_tab r p \<longleftrightarrow> (case r of Ok _ t \<Rightarrow> tab t = p | _ \<Rightarrow> True)"

named_theorems tab_intros \<open>routines that leave the process table alone\<close>

lemma keeps_tab_simps [simp]:
  "keeps_tab (Ok r t) p \<longleftrightarrow> tab t = p" "keeps_tab (Panic m t) p" "keeps_tab Hang p"
  by (simp_all add: keeps_tab_def)

lemma keeps_tabD: "keeps_tab r p \<Longrightarrow> r = Ok a t \<Longrightarrow> tab t = p"
  by (simp add: keeps_tab_def)

lemma keeps_tab_bind [tab_intros]:
  "keeps_tab r p \<Longrightarrow> (\<And>a t. tab t = p \<Longrightarrow> keeps_tab (f a t) p) \<Longrightarrow> keeps_tab (kbind r f) p"
  by (cases r) auto

lemma keeps_tab_assert [tab_intros]: "tab s = p \<Longrightarrow> keeps_tab (kassert c m s) p"
  by (simp add: kassert_def)

lemma keeps_tab_for_list [tab_intros]:
  "tab s = p \<Longrightarrow> (\<And>x t. tab t = p \<Longrightarrow> keeps_tab (f x t) p) \<Longrightarrow> keeps_tab (for_list xs f s) p"
  by (induction xs arbitrary: s) (auto intro!: keeps_tab_bind split: option.splits)

lemma keeps_tab_for_dyn_out [tab_intros]:
  assumes "tab s = p" and "\<And>i t. tab t = p \<Longrightarrow> keeps_tab (f i t) p"
  shows "keeps_tab (for_dyn_out i n f s) p"
  using assms
proof (induction i n f s rule: for_dyn_out.induct)
  case (1 i n f s)
  then have k: "keeps_tab (f i s) p" by blast
  show ?case
  proof (cases "f i s")
    case (Ok r t)
    then have "tab t = p" using k by simp
    then show ?thesis using 1 Ok by (subst for_dyn_out.simps) (auto split: option.splits)
  qed (use 1 in \<open>subst for_dyn_out.simps, simp\<close>)+
qed

lemma keeps_tab_if [tab_intros]: "(c \<Longrightarrow> keeps_tab a p) \<Longrightarrow> (\<not> c \<Longrightarrow> keeps_tab b p) \<Longrightarrow> keeps_tab (if c then a else b) p"
  by simp

section \<open>The routines of a spawn\<close>

lemma keeps_tab_alloc_table [tab_intros]: "tab s = p \<Longrightarrow> keeps_tab (alloc_page_table s) p"
  by (auto simp: alloc_page_table_def dest: tab_alloc split: prod.splits)

lemma keeps_tab_get_table [tab_intros]: "tab s = p \<Longrightarrow> keeps_tab (get_or_create_table t i fl s) p"
  unfolding get_or_create_table_def Let_def
  by (auto intro!: keeps_tab_bind keeps_tab_alloc_table simp: set_entry_def)

lemma keeps_tab_vmm_map [tab_intros]: "tab s = p \<Longrightarrow> keeps_tab (vmm_map as v ph fl s) p"
  unfolding vmm_map_def Let_def by (intro tab_intros; simp add: set_entry_def)

lemma keeps_tab_create [tab_intros]: "tab s = p \<Longrightarrow> keeps_tab (vmm_create_address_space s) p"
  unfolding vmm_create_address_space_def Let_def
  by (auto intro!: keeps_tab_bind keeps_tab_alloc_table simp: set_entry_def dest: tab_alloc split: prod.splits)

lemma keeps_tab_fresh_page [tab_intros]: "tab s = p \<Longrightarrow> keeps_tab (map_fresh_page as va fl s) p"
  unfolding map_fresh_page_def
  by (auto intro!: keeps_tab_bind keeps_tab_vmm_map dest: tab_alloc split: prod.splits)

lemma keeps_tab_stack [tab_intros]: "tab s = p \<Longrightarrow> keeps_tab (map_user_stack as s) p"
  unfolding map_user_stack_def Let_def
  by (auto intro!: keeps_tab_bind keeps_tab_for_list keeps_tab_fresh_page split: option.splits)

lemma keeps_tab_segment [tab_intros]: "tab s = p \<Longrightarrow> keeps_tab (load_segment as elf sz pha s) p"
  unfolding load_segment_def load_segment_pages_def copy_segment_def Let_def
  by (auto intro!: keeps_tab_bind keeps_tab_for_list keeps_tab_for_dyn_out keeps_tab_fresh_page split: option.splits)

lemma keeps_tab_load [tab_intros]: "tab s = p \<Longrightarrow> keeps_tab (load_elf_into_as as elf sz s) p"
  unfolding load_elf_into_as_def Let_def
  by (auto intro!: keeps_tab_bind keeps_tab_for_dyn_out keeps_tab_segment split: option.splits)

lemma keeps_tab_kfree [tab_intros]: "tab s = p \<Longrightarrow> keeps_tab (kfree a s) p"
  by (auto simp: kfree_def coalesce_def split: option.splits)

lemma keeps_tab_expand [tab_intros]: "tab s = p \<Longrightarrow> keeps_tab (expand_heap k s) p"
  by (auto simp: expand_heap_def Let_def dest: tab_alloc split: prod.splits option.splits)

lemma keeps_tab_kmalloc [tab_intros]: "tab s = p \<Longrightarrow> keeps_tab (kmalloc n s) p"
  unfolding kmalloc_def Let_def
  by (auto intro!: keeps_tab_bind keeps_tab_assert keeps_tab_expand simp: take_block_def split: option.splits)

lemma keeps_tab_task [tab_intros]: "tab s = p \<Longrightarrow> keeps_tab (task_create_user q as ent rsp s) p"
proof -
  assume s: "tab s = p"
  have slot: "keeps_tab (find_free_slot s) p"
    using s unfolding find_free_slot_def by (auto intro!: keeps_tab_bind keeps_tab_kfree split: option.splits)
  show ?thesis unfolding task_create_user_def task_create_def setup_initial_frame_def Let_def
    by (auto intro!: keeps_tab_bind slot keeps_tab_kmalloc simp: tab_log)
qed

section \<open>The table as a map\<close>

text \<open>
  What a process table means: for each process number whether the process runs, has exited with its
  memory still there, or has been reaped and only its exit code is left.
\<close>

datatype pstate = PRunning | PExited int | PReaped int

definition proc_state :: "Process \<Rightarrow> pstate" where
  "proc_state p = (if \<not> exited p then PRunning
     else if reap_pending p then PExited (p_exit_code p) else PReaped (p_exit_code p))"

definition proc_map :: "'a proc_scheme \<Rightarrow> int \<Rightarrow> pstate option" where
  "proc_map s q = map_option (\<lambda>i. proc_state (proc_table s ! i)) (find_process_by_pid q s)"

definition record_ok :: "int \<Rightarrow> Process \<Rightarrow> bool" where
  "record_ok n p \<longleftrightarrow> (used p \<longrightarrow> 0 < p_pid p \<and> p_pid p < n \<and> (reap_pending p \<longrightarrow> exited p) \<and>
     (exited p \<and> \<not> reap_pending p \<longrightarrow> p_address_space p = 0))"

definition table_inv :: "'a proc_scheme \<Rightarrow> bool" where
  "table_inv s \<longleftrightarrow> length (proc_table s) = 16 \<and> 0 < next_pid s \<and> (\<forall>i < 16. record_ok (next_pid s) (proc_table s ! i)) \<and>
     (\<forall>i < 16. \<forall>j < 16. used (proc_table s ! i) \<and> used (proc_table s ! j) \<and>
        p_pid (proc_table s ! i) = p_pid (proc_table s ! j) \<longrightarrow> i = j)"

lemma table_inv_pid:
  assumes "table_inv s" and "i < 16" and "used (proc_table s ! i)"
  shows "0 < p_pid (proc_table s ! i)" and "p_pid (proc_table s ! i) < next_pid s"
    and "exited (proc_table s ! i) \<Longrightarrow> \<not> reap_pending (proc_table s ! i) \<Longrightarrow> p_address_space (proc_table s ! i) = 0"
    and "reap_pending (proc_table s ! i) \<Longrightarrow> exited (proc_table s ! i)"
  using assms by (auto simp: table_inv_def record_ok_def)

lemma table_inv_unique:
  "table_inv s \<Longrightarrow> i < 16 \<Longrightarrow> j < 16 \<Longrightarrow> used (proc_table s ! i) \<Longrightarrow> used (proc_table s ! j) \<Longrightarrow>
   p_pid (proc_table s ! i) = p_pid (proc_table s ! j) \<Longrightarrow> i = j"
  unfolding table_inv_def by blast

lemma find_proc_D:
  assumes "find_process_by_pid q s = Some i"
  shows "i < 16" and "used (proc_table s ! i)" and "p_pid (proc_table s ! i) = q"
  using assms by (auto simp: find_process_by_pid_def first_proc_def find_Some_iff simp del: upt_rec_numeral)

lemma find_proc_None:
  "find_process_by_pid q s = None \<longleftrightarrow> (\<forall>i < 16. used (proc_table s ! i) \<longrightarrow> p_pid (proc_table s ! i) \<noteq> q)"
  by (auto simp: find_process_by_pid_def first_proc_def find_None_iff simp del: upt_rec_numeral)

lemma find_proc_Some:
  assumes "table_inv s" and "i < 16" and "used (proc_table s ! i)" and "p_pid (proc_table s ! i) = q"
  shows "find_process_by_pid q s = Some i"
proof (cases "find_process_by_pid q s")
  case None
  then show ?thesis using assms by (auto simp: find_proc_None)
next
  case (Some j)
  then show ?thesis using find_proc_D [OF Some] table_inv_unique [OF assms(1), of j i] assms by auto
qed

lemma proc_map_iff:
  assumes "table_inv s"
  shows "proc_map s q = Some st \<longleftrightarrow> (\<exists>i < 16. used (proc_table s ! i) \<and> p_pid (proc_table s ! i) = q \<and> proc_state (proc_table s ! i) = st)"
proof
  assume "proc_map s q = Some st"
  then obtain i where i: "find_process_by_pid q s = Some i" "proc_state (proc_table s ! i) = st" by (auto simp: proc_map_def)
  then show "\<exists>i < 16. used (proc_table s ! i) \<and> p_pid (proc_table s ! i) = q \<and> proc_state (proc_table s ! i) = st"
    using find_proc_D [OF i(1)] by blast
next
  assume "\<exists>i < 16. used (proc_table s ! i) \<and> p_pid (proc_table s ! i) = q \<and> proc_state (proc_table s ! i) = st"
  then obtain i where "find_process_by_pid q s = Some i" "proc_state (proc_table s ! i) = st"
    using find_proc_Some [OF assms] by blast
  then show "proc_map s q = Some st" by (simp add: proc_map_def)
qed

lemma proc_map_tab: "tab t = tab s \<Longrightarrow> proc_map t = proc_map s" "tab t = tab s \<Longrightarrow> table_inv t = table_inv s"
  by (simp_all add: tab_def table_inv_def proc_map_def [abs_def] find_process_by_pid_def first_proc_def)

text \<open>Replacing one record.\<close>

lemma replace_record:
  assumes inv: "table_inv s" and i: "i < 16" and t: "proc_table t = (proc_table s)[i := r]" "next_pid s \<le> next_pid t"
    and ok: "record_ok (next_pid t) r"
    and new: "\<And>j. used r \<Longrightarrow> j < 16 \<Longrightarrow> j \<noteq> i \<Longrightarrow> used (proc_table s ! j) \<Longrightarrow> p_pid (proc_table s ! j) \<noteq> p_pid r"
  defines "m \<equiv> (if used (proc_table s ! i) then (proc_map s)(p_pid (proc_table s ! i) := None) else proc_map s)"
  shows "table_inv t" and "proc_map t = (if used r then m(p_pid r \<mapsto> proc_state r) else m)"
proof -
  have l: "length (proc_table s) = 16" using inv by (simp add: table_inv_def)
  have nth: "proc_table t ! j = (if j = i then r else proc_table s ! j)" if "j < 16" for j
    using that l by (simp add: t nth_list_update)
  have ni: "proc_table t ! i = r" and no: "\<And>j. j < 16 \<Longrightarrow> j \<noteq> i \<Longrightarrow> proc_table t ! j = proc_table s ! j"
    using nth i by simp_all
  have split: "(\<exists>j < 16. Q (proc_table t ! j)) \<longleftrightarrow> Q r \<or> (\<exists>j < 16. j \<noteq> i \<and> Q (proc_table s ! j))" for Q
    using i ni no by metis
  show inv': "table_inv t"
  proof (unfold table_inv_def, intro conjI allI impI)
    fix j :: nat assume j: "j < 16"
    have "record_ok (next_pid s) (proc_table s ! j)" using inv j by (simp add: table_inv_def)
    then have "record_ok (next_pid t) (proc_table s ! j)" using t(2) by (auto simp: record_ok_def)
    then show "record_ok (next_pid t) (proc_table t ! j)" using nth [OF j] ok by simp
  next
    fix j k :: nat
    assume h: "j < 16" "k < 16" "used (proc_table t ! j) \<and> used (proc_table t ! k) \<and> p_pid (proc_table t ! j) = p_pid (proc_table t ! k)"
    show "j = k"
      using h(3) table_inv_unique [OF inv h(1,2)] new [OF _ h(1)] new [OF _ h(2)] unfolding nth [OF h(1)] nth [OF h(2)]
      by (auto split: if_splits)
  qed (use l inv t in \<open>simp_all add: table_inv_def\<close>)
  show "proc_map t = (if used r then m(p_pid r \<mapsto> proc_state r) else m)" (is "_ = ?m")
  proof
    fix q
    have "proc_map t q = Some st \<longleftrightarrow> ?m q = Some st" for st
    proof -
      have old: "m q = Some st \<longleftrightarrow> (\<exists>j < 16. j \<noteq> i \<and> used (proc_table s ! j) \<and> p_pid (proc_table s ! j) = q \<and> proc_state (proc_table s ! j) = st)"
        using proc_map_iff [OF inv, of q st] unfolding m_def by (auto split: if_splits dest: table_inv_unique [OF inv _ i])
      have "proc_map t q = Some st \<longleftrightarrow> used r \<and> p_pid r = q \<and> proc_state r = st \<or> m q = Some st"
        unfolding proc_map_iff [OF inv'] old using split [of "\<lambda>p. used p \<and> p_pid p = q \<and> proc_state p = st"] by simp
      moreover have "\<not> (used r \<and> p_pid r = q \<and> m q = Some st)" using new unfolding old by auto
      ultimately show ?thesis by auto
    qed
    then show "proc_map t q = ?m q" by (metis not_None_eq)
  qed
qed

lemma set_proc_table: "proc_table (set_proc i f s) = (proc_table s)[i := f (proc_table s ! i)]" "next_pid (set_proc i f s) = next_pid s"
  by (simp_all add: set_proc_def)

lemma set_proc_update:
  assumes inv: "table_inv s" and i: "i < 16" "used (proc_table s ! i)"
    and f: "used (f (proc_table s ! i))" "p_pid (f (proc_table s ! i)) = p_pid (proc_table s ! i)"
    and ok: "record_ok (next_pid s) (f (proc_table s ! i))"
  shows "table_inv (set_proc i f s)"
    and "proc_map (set_proc i f s) = (proc_map s)(p_pid (proc_table s ! i) \<mapsto> proc_state (f (proc_table s ! i)))"
proof -
  have new: "p_pid (proc_table s ! j) \<noteq> p_pid (f (proc_table s ! i))" if "j < 16" "j \<noteq> i" "used (proc_table s ! j)" for j
    using table_inv_unique [OF inv that(1) i(1) that(3) i(2)] that(2) f(2) by auto
  note rr = replace_record [OF inv i(1) set_proc_table(1) [of i f s]]
  show "table_inv (set_proc i f s)" by (rule rr(1)) (use ok new in \<open>auto simp: set_proc_table(2)\<close>)
  have "proc_map (set_proc i f s) = (proc_map s)(p_pid (proc_table s ! i) := None, p_pid (f (proc_table s ! i)) \<mapsto> proc_state (f (proc_table s ! i)))"
    by (subst rr(2)) (use ok new i f in \<open>auto simp: set_proc_table(2)\<close>)
  then show "proc_map (set_proc i f s) = (proc_map s)(p_pid (proc_table s ! i) \<mapsto> proc_state (f (proc_table s ! i)))"
    by (simp add: f(2))
qed

section \<open>Operations on the table\<close>

lemma proc_map_None: "table_inv s \<Longrightarrow> proc_map s q = None \<longleftrightarrow> find_process_by_pid q s = None"
  by (simp add: proc_map_def)

lemma find_proc_map:
  "find_process_by_pid q s = Some i \<Longrightarrow> proc_map s q = Some (proc_state (proc_table s ! i))"
  by (simp add: proc_map_def)

lemma mark_exited:
  assumes inv: "table_inv s" and i: "find_process_by_pid q s = Some i"
  shows "table_inv (set_proc i (\<lambda>p. p\<lparr>exited := True, p_exit_code := c, reap_pending := True\<rparr>) s)"
    and "proc_map (set_proc i (\<lambda>p. p\<lparr>exited := True, p_exit_code := c, reap_pending := True\<rparr>) s) = (proc_map s)(q \<mapsto> PExited c)"
proof -
  note d = find_proc_D [OF i]
  have "record_ok (next_pid s) ((proc_table s ! i)\<lparr>exited := True, p_exit_code := c, reap_pending := True\<rparr>)"
    using table_inv_pid(1,2) [OF inv d(1,2)] by (simp add: record_ok_def)
  note u = set_proc_update [OF inv d(1,2), of "\<lambda>p. p\<lparr>exited := True, p_exit_code := c, reap_pending := True\<rparr>", OF _ _ this]
  show "table_inv (set_proc i (\<lambda>p. p\<lparr>exited := True, p_exit_code := c, reap_pending := True\<rparr>) s)"
    "proc_map (set_proc i (\<lambda>p. p\<lparr>exited := True, p_exit_code := c, reap_pending := True\<rparr>) s) = (proc_map s)(q \<mapsto> PExited c)"
    using u d by (simp_all add: proc_state_def)
qed

lemma process_task_exited_map:
  assumes inv: "table_inv s"
  shows "table_inv (process_task_exited q c s)"
    and "proc_map (process_task_exited q c s) = (if proc_map s q = None then proc_map s else (proc_map s)(q \<mapsto> PExited c))"
proof -
  let ?s = "print ('']'' @ [NL]) (print_dec (u64_of_int c) (print '' code='' (print_dec (u64_of_int q) (print ''[proc exit pid='' s))))"
  have t: "tab ?s = tab s" by simp
  have eq: "table_inv ?s" "proc_map ?s = proc_map s" "find_process_by_pid q ?s = find_process_by_pid q s"
    using proc_map_tab [OF t] inv t by (simp_all add: tab_def find_process_by_pid_def first_proc_def)
  show "table_inv (process_task_exited q c s)"
    using inv mark_exited(1) [OF eq(1), of q _ c] eq(3) by (simp add: process_task_exited_def Let_def split: option.splits)
  show "proc_map (process_task_exited q c s) = (if proc_map s q = None then proc_map s else (proc_map s)(q \<mapsto> PExited c))"
    using mark_exited(2) [OF eq(1), of q _ c] eq(2,3) find_proc_map [of q s]
    by (auto simp: process_task_exited_def Let_def proc_map_None [OF inv] split: option.splits)
qed

text \<open>Reaping, record by record.\<close>

definition reap_record :: "u64 \<Rightarrow> Process \<Rightarrow> Process" where
  "reap_record cas p = (if \<not> used p \<or> \<not> reap_pending p then p
     else if p_address_space p = 0 then p\<lparr>reap_pending := False, main_tid := - 1\<rparr>
     else if cas = p_address_space p then p
     else p\<lparr>p_address_space := 0, reap_pending := False, main_tid := - 1\<rparr>)"

lemma reap_slot_table:
  "proc_table (reap_slot cas i s) = (proc_table s)[i := reap_record cas (proc_table s ! i)]" "next_pid (reap_slot cas i s) = next_pid s"
  using tab_destroy [of "p_address_space (proc_table s ! i)" s]
  by (auto simp: reap_slot_def reap_record_def set_proc_def Let_def tab_def)

lemma reap_fold:
  assumes "n \<le> length (proc_table s)"
  shows "proc_table (fold (reap_slot cas) [0..<n] s) = map (reap_record cas) (take n (proc_table s)) @ drop n (proc_table s)"
    and "next_pid (fold (reap_slot cas) [0..<n] s) = next_pid s"
  using assms
proof (induction n)
  case (Suc n)
  { case 1
    then have "drop n (proc_table s) = proc_table s ! n # drop (Suc n) (proc_table s)" by (simp add: Cons_nth_drop_Suc)
    then show ?case using Suc.IH(1) 1 by (simp add: reap_slot_table list_update_append nth_append take_Suc_conv_app_nth) }
  { case 2
    then show ?case using Suc.IH(2) by (simp add: reap_slot_table) }
qed simp_all

definition current_space :: "'a proc_scheme \<Rightarrow> u64" where
  "current_space s = (case task_current s of Some t \<Rightarrow> address_space t | None \<Rightarrow> 0)"

lemma reap_table:
  assumes "length (proc_table s) = 16"
  shows "proc_table (process_reap_deferred s) = map (reap_record (current_space s)) (proc_table s)"
    and "next_pid (process_reap_deferred s) = next_pid s"
  using reap_fold [of 16 s "current_space s"] assms
  unfolding process_reap_deferred_def Let_def current_space_def [symmetric] by (simp_all del: upt_rec_numeral)

text \<open>The processes whose memory cannot go yet, because the processor is in it.\<close>

definition in_use :: "'a proc_scheme \<Rightarrow> int \<Rightarrow> bool" where
  "in_use s q = (case find_process_by_pid q s of None \<Rightarrow> False
     | Some i \<Rightarrow> p_address_space (proc_table s ! i) \<noteq> 0 \<and> p_address_space (proc_table s ! i) = current_space s)"

fun reaped :: "bool \<Rightarrow> pstate \<Rightarrow> pstate" where
  "reaped False (PExited c) = PReaped c"
| "reaped _ st = st"

lemma reap_map:
  assumes inv: "table_inv s"
  shows "table_inv (process_reap_deferred s)"
    and "proc_map (process_reap_deferred s) q = map_option (reaped (in_use s q)) (proc_map s q)"
proof -
  let ?t = "process_reap_deferred s" and ?f = "reap_record (current_space s)"
  have l: "length (proc_table s) = 16" using inv by (simp add: table_inv_def)
  have keep: "used (?f p) = used p" "p_pid (?f p) = p_pid p" for p by (simp_all add: reap_record_def)
  have nth: "proc_table ?t ! i = ?f (proc_table s ! i)" if "i < 16" for i using reap_table(1) [OF l] that l by simp
  have rec: "record_ok n (?f p)" if "record_ok n p" for n p using that by (auto simp: record_ok_def reap_record_def)
  show "table_inv ?t"
    using inv l rec unfolding table_inv_def reap_table(2) [OF l] by (simp add: nth keep reap_table(1) [OF l] cong: conj_cong imp_cong)
  have "find_process_by_pid q ?t = find_process_by_pid q s"
    unfolding find_process_by_pid_def first_proc_def by (rule find_cong) (simp_all add: nth keep del: upt_rec_numeral)
  moreover have "proc_state (?f (proc_table s ! i)) = reaped (in_use s q) (proc_state (proc_table s ! i))"
    if i: "find_process_by_pid q s = Some i" for i
    using find_proc_D [OF i] table_inv_pid(3,4) [OF inv, of i] i
    by (auto simp: proc_state_def reap_record_def in_use_def)
  moreover have "proc_table ?t ! i = ?f (proc_table s ! i)" if "find_process_by_pid q s = Some i" for i
    by (rule nth [OF find_proc_D(1) [OF that]])
  ultimately show "proc_map ?t q = map_option (reaped (in_use s q)) (proc_map s q)"
    by (cases "find_process_by_pid q s") (simp_all add: proc_map_def)
qed

lemma wait_poll_map:
  assumes inv: "table_inv s" and w: "process_wait_poll q s = ((r, code), s')"
  shows "table_inv s'" and "case proc_map s q of
      None \<Rightarrow> r = - 1 \<and> code = None \<and> proc_map s' = proc_map s
    | Some PRunning \<Rightarrow> r = 0 \<and> code = None \<and> proc_map s' = proc_map s
    | Some (PExited c) \<Rightarrow> r = 1 \<and> code = Some c \<and> proc_map s' = proc_map s
    | Some (PReaped c) \<Rightarrow> r = 1 \<and> code = Some c \<and> proc_map s' = (proc_map s)(q := None)"
proof -
  have both: "table_inv s' \<and> (case proc_map s q of
      None \<Rightarrow> r = - 1 \<and> code = None \<and> proc_map s' = proc_map s
    | Some PRunning \<Rightarrow> r = 0 \<and> code = None \<and> proc_map s' = proc_map s
    | Some (PExited c) \<Rightarrow> r = 1 \<and> code = Some c \<and> proc_map s' = proc_map s
    | Some (PReaped c) \<Rightarrow> r = 1 \<and> code = Some c \<and> proc_map s' = (proc_map s)(q := None))"
  proof (cases "find_process_by_pid q s")
    case None
    then show ?thesis using w inv by (auto simp: process_wait_poll_def proc_map_def)
  next
    case (Some i)
    note d = find_proc_D [OF Some] and m = find_proc_map [OF Some]
    let ?f = "\<lambda>p. p\<lparr>used := False, p_pid := 0, main_tid := - 1, p_entry := 0, user_rsp := 0, p_exit_code := 0, exited := False\<rparr>"
    have rr: "table_inv (set_proc i ?f s)" "proc_map (set_proc i ?f s) = (proc_map s)(q := None)"
      using replace_record [OF inv d(1) set_proc_table(1) [of i ?f s]] d by (simp_all add: set_proc_table(2) record_ok_def)
    show ?thesis
      using w inv d m rr Some table_inv_pid(3) [OF inv d(1,2)]
      by (auto simp: process_wait_poll_def Let_def proc_state_def split: if_splits)
  qed
  show "table_inv s'" using both by blast
  show "case proc_map s q of
      None \<Rightarrow> r = - 1 \<and> code = None \<and> proc_map s' = proc_map s
    | Some PRunning \<Rightarrow> r = 0 \<and> code = None \<and> proc_map s' = proc_map s
    | Some (PExited c) \<Rightarrow> r = 1 \<and> code = Some c \<and> proc_map s' = proc_map s
    | Some (PReaped c) \<Rightarrow> r = 1 \<and> code = Some c \<and> proc_map s' = (proc_map s)(q := None)" using both by blast
qed

section \<open>Spawning and killing\<close>

lemma task_kill_tab: "task_kill_pid int20 q c s = Ok x t \<Longrightarrow> tab t = tab s"
  by (auto simp: task_kill_pid_def task_exit_def Let_def kbind_Ok_iff tab_log split: if_splits option.splits)

lemma kill_map:
  assumes inv: "table_inv s" and k: "process_kill int20 q c s = Ok r s'"
  shows "table_inv s'"
    and "if r = 0 then proc_map s q = Some PRunning \<and> proc_map s' = (proc_map s)(q \<mapsto> PExited c) else proc_map s' = proc_map s"
proof -
  have both: "table_inv s' \<and> (if r = 0 then proc_map s q = Some PRunning \<and> proc_map s' = (proc_map s)(q \<mapsto> PExited c) else proc_map s' = proc_map s)"
  proof (cases "find_process_by_pid q s")
    case None
    then show ?thesis using k inv by (auto simp: process_kill_def)
  next
    case (Some i)
    note d = find_proc_D [OF Some] and m = find_proc_map [OF Some]
    show ?thesis
    proof (cases "exited (proc_table s ! i)")
      case True
      then show ?thesis using k inv d Some by (auto simp: process_kill_def)
    next
      case False
      then obtain x t where x: "task_kill_pid int20 q c s = Ok x t"
        "(if x < 0 then Ok (- 1) t else Ok 0 (set_proc i (\<lambda>p. p\<lparr>exited := True, p_exit_code := c, reap_pending := True\<rparr>) t)) = Ok r s'"
        using k d Some by (auto simp: process_kill_def kbind_Ok_iff)
      have t: "tab t = tab s" by (rule task_kill_tab [OF x(1)])
      then have "find_process_by_pid q t = Some i" using Some by (simp add: tab_def find_process_by_pid_def first_proc_def)
      then show ?thesis
        using x(2) mark_exited [of t q i c] proc_map_tab [OF t] inv m False by (auto simp: proc_state_def split: if_splits)
    qed
  qed
  show "table_inv s'" using both by blast
  show "if r = 0 then proc_map s q = Some PRunning \<and> proc_map s' = (proc_map s)(q \<mapsto> PExited c) else proc_map s' = proc_map s"
    using both by blast
qed

lemma spawn_steps:
  assumes "process_spawn_from_elf elf sz s = Ok q s'"
  obtains (failed) "q = - 1" "proc_table s' = proc_table s" "next_pid s \<le> next_pid s'"
  | (spawned) i as t ent rsp where "alloc_process_slot s = int i" "q = next_pid s" "next_pid s' = q + 1"
      "proc_table s' = (proc_table s)[i := spawn_record q as t ent rsp (proc_table s ! i)]"
proof (cases "alloc_process_slot s < 0")
  case True
  then show ?thesis using assms failed by (simp add: process_spawn_from_elf_def)
next
  case False
  then obtain as s1 where c: "vmm_create_address_space s = Ok as s1"
    using assms by (auto simp: process_spawn_from_elf_def Let_def kbind_Ok_iff)
  have t1: "tab s1 = tab s" using keeps_tabD [OF keeps_tab_create [OF refl] c] .
  show ?thesis
  proof (cases "as = 0")
    case True
    then show ?thesis using assms failed c t1 False by (simp add: process_spawn_from_elf_def tab_def)
  next
    case as: False
    obtain r ent s2 where l: "load_elf_into_as as elf sz s1 = Ok (r, ent) s2"
      using assms c as False by (auto simp: process_spawn_from_elf_def Let_def kbind_Ok_iff)
    have t2: "tab s2 = tab s" using keeps_tabD [OF keeps_tab_load [OF t1] l] .
    show ?thesis
    proof (cases "r < 0")
      case True
      then have "s' = vmm_destroy_address_space as s2" "q = - 1"
        using assms c as l False by (auto simp: process_spawn_from_elf_def Let_def)
      then show ?thesis using failed t2 tab_destroy [of as s2] by (simp add: tab_def)
    next
      case r: False
      obtain r' rsp s3 where m: "map_user_stack as s2 = Ok (r', rsp) s3"
        using assms c as l r False by (auto simp: process_spawn_from_elf_def Let_def kbind_Ok_iff)
      have t3: "tab s3 = tab s" using keeps_tabD [OF keeps_tab_stack [OF t2] m] .
      show ?thesis
      proof (cases "r' < 0")
        case True
        then have "s' = vmm_destroy_address_space as s3" "q = - 1"
          using assms c as l r m False by (auto simp: process_spawn_from_elf_def Let_def)
        then show ?thesis using failed t3 tab_destroy [of as s3] by (simp add: tab_def)
      next
        case r': False
        let ?s3 = "s3\<lparr>next_pid := next_pid s3 + 1\<rparr>"
        obtain t s4 where k: "task_create_user (next_pid s3) as ent rsp ?s3 = Ok t s4"
          using assms c as l r m r' False by (auto simp: process_spawn_from_elf_def Let_def kbind_Ok_iff)
        have t4: "proc_table s4 = proc_table s" "next_pid s4 = next_pid s + 1"
          using keeps_tabD [OF keeps_tab_task [OF refl] k] t3 by (simp_all add: tab_def)
        show ?thesis
        proof (cases "t < 0")
          case True
          then have "s' = vmm_destroy_address_space as s4" "q = - 1"
            using assms c as l r m r' k False by (auto simp: process_spawn_from_elf_def Let_def)
          then show ?thesis using failed t4 tab_destroy [of as s4] by (simp add: tab_def)
        next
          case t: False
          define u where "u = set_proc (nat (alloc_process_slot s)) (spawn_record (next_pid s3) as t ent rsp) s4"
          have q: "q = next_pid s3" and s': "tab s' = tab u"
            using assms c as l r m r' k t False by (auto simp: process_spawn_from_elf_def Let_def u_def)
          have "next_pid s3 = next_pid s" using t3 by (simp add: tab_def)
          then show ?thesis
            using spawned [of "nat (alloc_process_slot s)" as t ent rsp] q s' t4 False by (simp add: tab_def u_def set_proc_table)
        qed
      qed
    qed
  qed
qed

lemma spawn_map:
  assumes inv: "table_inv s" and sp: "process_spawn_from_elf elf sz s = Ok q s'"
  shows "table_inv s' \<and> next_pid s \<le> next_pid s' \<and>
    (if q < 0 then proc_map s' = proc_map s
     else q = next_pid s \<and> next_pid s' = q + 1 \<and> proc_map s q = None \<and>
       (proc_map s' = (proc_map s)(q \<mapsto> PRunning) \<or>
        (\<exists>r st. proc_map s r = Some st \<and> st \<noteq> PRunning \<and> proc_map s' = (proc_map s)(r := None, q \<mapsto> PRunning))))"
proof (cases rule: spawn_steps [OF sp])
  case 1
  have n: "0 < next_pid s" using inv by (simp add: table_inv_def)
  have "table_inv s'" using inv 1 unfolding table_inv_def record_ok_def by fastforce
  then show ?thesis
    using 1 by (simp add: proc_map_def [abs_def] find_process_by_pid_def first_proc_def)
next
  case (2 i as t ent rsp)
  let ?r = "spawn_record q as t ent rsp (proc_table s ! i)"
  have n: "0 < next_pid s" using inv by (simp add: table_inv_def)
  have i: "i < 16" "\<not> used (proc_table s ! i) \<or> exited (proc_table s ! i)"
    using 2(1) by (auto simp: alloc_process_slot_def first_proc_def find_Some_iff simp del: upt_rec_numeral split: option.splits)
  have r: "used ?r" "p_pid ?r = q" "proc_state ?r = PRunning" "record_ok (next_pid s') ?r"
    using 2(2,3) n by (simp_all add: spawn_record_def proc_state_def record_ok_def)
  have fresh: "p_pid (proc_table s ! j) \<noteq> q" if "j < 16" "used (proc_table s ! j)" for j
    using table_inv_pid(2) [OF inv that] 2(2) by simp
  note rr = replace_record [OF inv i(1) 2(4) _ r(4)]
  have le: "next_pid s \<le> next_pid s'" using 2(2,3) by simp
  have inv': "table_inv s'" by (rule rr(1) [OF le]) (use fresh r in auto)
  have m: "proc_map s' = (if used (proc_table s ! i) then (proc_map s)(p_pid (proc_table s ! i) := None) else proc_map s)(q \<mapsto> PRunning)"
    by (subst rr(2) [OF le]) (use fresh r in auto)
  have none: "proc_map s q = None" using fresh by (simp add: proc_map_None [OF inv] find_proc_None)
  have "proc_map s' = (proc_map s)(q \<mapsto> PRunning) \<or>
    (\<exists>r st. proc_map s r = Some st \<and> st \<noteq> PRunning \<and> proc_map s' = (proc_map s)(r := None, q \<mapsto> PRunning))"
  proof (cases "used (proc_table s ! i)")
    case True
    then have "proc_state (proc_table s ! i) \<noteq> PRunning" using i(2) by (simp add: proc_state_def)
    moreover have "proc_map s (p_pid (proc_table s ! i)) = Some (proc_state (proc_table s ! i))"
      using find_proc_map [OF find_proc_Some [OF inv i(1) True refl]] .
    moreover have "proc_map s' = (proc_map s)(p_pid (proc_table s ! i) := None, q \<mapsto> PRunning)" using m True by simp
    ultimately show ?thesis by blast
  next
    case False
    then show ?thesis using m by simp
  qed
  moreover have "\<not> q < 0" "q = next_pid s" "next_pid s' = q + 1" using n 2(2,3) by simp_all
  ultimately show ?thesis using inv' le none by simp
qed

section \<open>Runs\<close>

text \<open>
  The events at the process table: a spawn with its result, the exit of a task, a reaping, a kill, a wait
  and what it reports, and any step that leaves the table alone.
\<close>

datatype pevent = Spawn int | Exit int int | Reap "int \<Rightarrow> bool" | Kill int int int | Wait int int "int option" | Other

inductive proc_step :: "'a proc_scheme \<Rightarrow> pevent \<Rightarrow> 'a proc_scheme \<Rightarrow> bool" where
  spawn: "process_spawn_from_elf elf sz s = Ok q s' \<Longrightarrow> proc_step s (Spawn q) s'"
| exit: "proc_step s (Exit q c) (process_task_exited q c s)"
| reap: "proc_step s (Reap (in_use s)) (process_reap_deferred s)"
| kill: "process_kill int20 q c s = Ok r s' \<Longrightarrow> proc_step s (Kill q c r) s'"
| wait: "process_wait_poll q s = ((r, code), s') \<Longrightarrow> proc_step s (Wait q r code) s'"
| other: "tab s' = tab s \<Longrightarrow> proc_step s Other s'"

text \<open>The specification: the same events on the map.\<close>

fun spec_step :: "(int \<rightharpoonup> pstate) \<Rightarrow> pevent \<Rightarrow> (int \<rightharpoonup> pstate) \<Rightarrow> bool" where
  "spec_step m (Spawn q) m' = (if q < 0 then m' = m else m q = None \<and> (m' = m(q \<mapsto> PRunning) \<or>
     (\<exists>r st. m r = Some st \<and> st \<noteq> PRunning \<and> m' = m(r := None, q \<mapsto> PRunning))))"
| "spec_step m (Exit q c) m' = (m' = (if m q = None then m else m(q \<mapsto> PExited c)))"
| "spec_step m (Reap busy) m' = (m' = (\<lambda>q. map_option (reaped (busy q)) (m q)))"
| "spec_step m (Kill q c r) m' = (if r = 0 then m q = Some PRunning \<and> m' = m(q \<mapsto> PExited c) else m' = m)"
| "spec_step m (Wait q r code) m' = (case m q of
     None \<Rightarrow> r = - 1 \<and> code = None \<and> m' = m
   | Some PRunning \<Rightarrow> r = 0 \<and> code = None \<and> m' = m
   | Some (PExited c) \<Rightarrow> r = 1 \<and> code = Some c \<and> m' = m
   | Some (PReaped c) \<Rightarrow> r = 1 \<and> code = Some c \<and> m' = m(q := None))"
| "spec_step m Other m' = (m' = m)"

text \<open>The next process number only grows.\<close>

lemma process_task_exited_next: "next_pid (process_task_exited q c s) = next_pid s"
proof -
  have "tab (print ('']'' @ [NL]) (print_dec (u64_of_int c) (print '' code='' (print_dec (u64_of_int q) (print ''[proc exit pid='' s))))) = tab s"
    by simp
  then show ?thesis by (simp add: process_task_exited_def set_proc_table Let_def tab_def split: option.splits)
qed

lemma process_kill_next:
  assumes "process_kill int20 q c s = Ok r s'"
  shows "next_pid s' = next_pid s"
proof -
  have "next_pid v = next_pid s" if "task_kill_pid int20 q c s = Ok y v" for y v
    using task_kill_tab [OF that] by (simp add: tab_def)
  then show ?thesis using assms
    by (auto simp: process_kill_def kbind_Ok_iff set_proc_table split: option.splits if_splits)
qed

lemma process_wait_poll_next: "process_wait_poll q s = (r, s') \<Longrightarrow> next_pid s' = next_pid s"
  by (auto simp: process_wait_poll_def Let_def set_proc_table split: option.splits if_splits)

lemma proc_step_next:
  assumes "proc_step s e s'" and inv: "table_inv s"
  shows "next_pid s \<le> next_pid s' \<and> (\<forall>q. e = Spawn q \<and> 0 \<le> q \<longrightarrow> q = next_pid s \<and> next_pid s' = q + 1)"
  using assms(1)
proof cases
  case (spawn elf sz q)
  then show ?thesis using spawn_map [OF inv spawn(2)] by auto
next
  case (exit q c)
  then show ?thesis by (simp add: process_task_exited_next)
next
  case reap
  then show ?thesis using reap_table(2) [of s] inv by (simp add: table_inv_def)
next
  case (kill int20 q c r)
  then show ?thesis by (simp add: process_kill_next)
next
  case (wait q r code)
  then show ?thesis by (simp add: process_wait_poll_next)
next
  case other
  then show ?thesis by (simp add: tab_def)
qed

lemma proc_step_simulates:
  assumes "proc_step s e s'" and inv: "table_inv s"
  shows "table_inv s' \<and> spec_step (proc_map s) e (proc_map s')"
  using assms
proof cases
  case (spawn elf sz q)
  then show ?thesis using spawn_map [OF inv spawn(2)] by (auto split: if_splits)
next
  case (exit q c)
  then show ?thesis using process_task_exited_map [OF inv] by simp
next
  case reap
  then show ?thesis using reap_map [OF inv] by (simp add: fun_eq_iff)
next
  case (kill int20 q c r)
  then show ?thesis using kill_map [OF inv kill(2)] by simp
next
  case (wait q r code)
  then show ?thesis using wait_poll_map [OF inv wait(2)] by simp
next
  case other
  then show ?thesis using proc_map_tab [OF other(2)] inv by simp
qed

inductive proc_run :: "'a proc_scheme \<Rightarrow> pevent list \<Rightarrow> 'a proc_scheme \<Rightarrow> bool" where
  nil: "proc_run s [] s"
| snoc: "proc_run s es t \<Longrightarrow> proc_step t e u \<Longrightarrow> proc_run s (es @ [e]) u"

fun spec_run :: "(int \<rightharpoonup> pstate) \<Rightarrow> pevent list \<Rightarrow> (int \<rightharpoonup> pstate) \<Rightarrow> bool" where
  "spec_run m [] m' = (m' = m)"
| "spec_run m (e # es) m' = (\<exists>n. spec_step m e n \<and> spec_run n es m')"

lemma spec_run_snoc: "spec_run m (es @ [e]) m' \<longleftrightarrow> (\<exists>n. spec_run m es n \<and> spec_step n e m')"
  by (induction es arbitrary: m) auto

definition spawned :: "pevent list \<Rightarrow> int list" where
  "spawned es = concat (map (\<lambda>e. case e of Spawn q \<Rightarrow> if q < 0 then [] else [q] | _ \<Rightarrow> []) es)"

lemma process_init_table: "table_inv (process_init s)" "proc_map (process_init s) = Map.empty"
proof -
  have p: "proc_table (process_init s) = replicate 16 blank_process" "next_pid (process_init s) = 1"
    using con_only_klog(1) [of "s\<lparr>proc_table := replicate 16 blank_process, next_pid := 1\<rparr>" "''process: table initialized''"]
    by (auto simp: process_init_def con_only_def)
  then show "table_inv (process_init s)" by (simp add: table_inv_def record_ok_def blank_process_def)
  have "find_process_by_pid q (process_init s) = None" for q by (simp add: find_proc_None p blank_process_def)
  then show "proc_map (process_init s) = Map.empty" by (simp add: proc_map_def fun_eq_iff)
qed



end
