(* ===== verification/WindowMap.thy ===== *)
theory WindowMap
  imports Paging Tables
begin

text \<open>
  What \<^verbatim>\<open>paging_init\<close> builds, \<^verbatim>\<open>kernel/paging.c\<close>: the tables it takes one after the other behind the
  kernel image are described by the list of their entries, each operation by what it adds to that list,
  and the translation of the finished tables follows from the entries.
\<close>

unbundle bit_operations_syntax

section \<open>The table arena\<close>

text \<open>Room for \<open>K\<close> tables from \<open>b\<close> on, low enough for an entry to point at each of them.\<close>

definition arena :: "u64 \<Rightarrow> nat \<Rightarrow> bool" where
  "arena b K \<longleftrightarrow> aligned b \<and> unat b + 4096 * K \<le> 2 ^ 52"

definition nth_table :: "u64 \<Rightarrow> nat \<Rightarrow> u64" where
  "nth_table b k = b + of_nat (4096 * k)"

lemma nth_table_0 [simp]: "nth_table b 0 = b"
  by (simp add: nth_table_def)

lemma nth_table_Suc: "nth_table b k + 4096 = nth_table b (Suc k)"
  by (simp add: nth_table_def algebra_simps)

lemma nth_table_addr:
  assumes "arena b K" and "k < K"
  shows "unat (nth_table b k) = unat b + 4096 * k" and "table_base (nth_table b k)" and "aligned (nth_table b k)"
proof -
  have b: "4096 dvd unat b" "unat b + 4096 * k + 4096 \<le> 2 ^ 52"
    using assms by (auto simp: arena_def aligned_def)
  have o: "unat (of_nat (4096 * k) :: u64) = 4096 * k" using b(2) by (intro unat_of_nat_u64) simp
  show u: "unat (nth_table b k) = unat b + 4096 * k"
    unfolding nth_table_def using b(2) by (subst unat_add_lem [THEN iffD1]) (simp_all only: o, simp_all)
  then show "table_base (nth_table b k)" "aligned (nth_table b k)"
    using b by (auto simp: table_base_def aligned_def)
qed

lemma nth_table_end:
  assumes "arena b K"
  shows "unat (nth_table b K) = unat b + 4096 * K"
proof -
  have b: "unat b + 4096 * K \<le> 2 ^ 52" using assms by (simp add: arena_def)
  have o: "unat (of_nat (4096 * K) :: u64) = 4096 * K" using b by (intro unat_of_nat_u64) simp
  show ?thesis unfolding nth_table_def using b by (subst unat_add_lem [THEN iffD1]) (simp_all only: o, simp_all)
qed

lemma nth_table_eq:
  assumes "arena b K" and "k < K" and "l < K"
  shows "nth_table b k = nth_table b l \<longleftrightarrow> k = l"
  using nth_table_addr(1) [OF assms(1,2)] nth_table_addr(1) [OF assms(1,3)] by (auto simp: word_unat_eq_iff)

lemma nth_table_sub:
  assumes "arena b K" and "k < K"
  shows "region (nth_table b k) 4096 \<subseteq> region b (4096 * K)"
  using nth_table_addr(1) [OF assms] assms by (subst (1 2) region_interval) (auto simp: arena_def)

text \<open>
  The memory \<open>u\<close> holds \<open>k\<close> tables of the arena with the entries \<open>E\<close>, and outside of the arena it agrees
  with the memory \<open>m\<close>.
\<close>

definition built :: "u64 \<Rightarrow> nat \<Rightarrow> pmem \<Rightarrow> nat \<Rightarrow> (nat \<Rightarrow> u64 \<Rightarrow> u64) \<Rightarrow> pmem \<Rightarrow> bool" where
  "built b K m k E u \<longleftrightarrow> (\<forall>l < k. \<forall>i < 512. entry u (nth_table b l) i = E l i) \<and>
     (\<forall>a. a \<notin> region b (4096 * K) \<longrightarrow> u a = m a)"

lemma built_cong:
  assumes "built b K m k E u" and "\<And>l i. l < k \<Longrightarrow> i < 512 \<Longrightarrow> E l i = E' l i"
  shows "built b K m k E' u"
  using assms by (simp add: built_def)

lemma built_store:
  assumes "arena b K" and "built b K m k E u" and "l < k" and "k \<le> K" and "i < 512"
  shows "built b K m k (E(l := (E l)(i := v))) (store64 u (nth_table b l + 8 * i) v)"
proof -
  have al: "aligned (nth_table b n)" if "n < k" for n using nth_table_addr(3) [OF assms(1), of n] that assms(4) by simp
  have "entry (store64 u (nth_table b l + 8 * i) v) (nth_table b n) j = (E(l := (E l)(i := v))) n j"
    if "n < k" "j < 512" for n j
    using that assms entry_store [OF al [OF assms(3)] al [OF that(1)] assms(5) that(2), of u v]
      nth_table_eq [OF assms(1), of n l] by (auto simp: built_def)
  moreover have "store64 u (nth_table b l + 8 * i) v a = m a" if "a \<notin> region b (4096 * K)" for a
    using that assms slot_subset [OF al [OF assms(3)] assms(5)] nth_table_sub [OF assms(1), of l]
    by (subst store64_apply_out) (auto simp: built_def)
  ultimately show ?thesis by (simp add: built_def)
qed

lemma zero_bytes_apply:
  fixes m :: pmem
  shows "for_range 0 PAGE_SIZE (\<lambda>i m. m(addr + i := 0)) m a = (if a \<in> region addr 4096 then 0 else m a)"
proof -
  define I where "I = (\<lambda>(i :: u64) (u :: pmem). \<forall>a. u a = (if unat (a - addr) < unat i then 0 else m a))"
  have "I PAGE_SIZE (for_range 0 PAGE_SIZE (\<lambda>i m. m(addr + i := 0)) m)"
  proof (rule for_range_invariant [where I = I])
    fix i u assume i: "i < (PAGE_SIZE :: u64)" and I: "I i u"
    have "unat (a - addr) < unat (i + 1) \<longleftrightarrow> a = addr + i \<or> unat (a - addr) < unat i" for a
      unfolding unat_Suc_less [OF i] by (auto simp: less_Suc_eq algebra_simps simp flip: word_unat_eq_iff)
    then show "I (i + 1) (u(addr + i := 0))" using I by (simp add: I_def)
  qed (simp_all add: I_def)
  then show ?thesis by (simp add: I_def region_def)
qed

lemma built_zero:
  assumes "arena b K" and "built b K m k E u" and "k < K"
  shows "built b K m (Suc k) (E(k := \<lambda>_. 0)) (for_range 0 PAGE_SIZE (\<lambda>i m. m(nth_table b k + i := 0)) u)"
proof -
  let ?u = "for_range 0 PAGE_SIZE (\<lambda>i m. m(nth_table b k + i := 0)) u"
  have al: "aligned (nth_table b n)" if "n < Suc k" for n using nth_table_addr(3) [OF assms(1), of n] that assms(3) by simp
  have "entry ?u (nth_table b k) i = 0" if "i < 512" for i
    using that by (intro entry_zero al) (simp_all add: zero_bytes_apply)
  moreover have "entry ?u (nth_table b n) i = entry u (nth_table b n) i" if "n < k" "i < 512" for n i
  proof (rule entry_cong [OF al that(2)])
    fix x assume "x \<in> region (nth_table b n) 4096"
    moreover have "nth_table b n \<noteq> nth_table b k" using nth_table_eq [OF assms(1), of n k] that assms(3) by simp
    ultimately show "?u x = u x"
      using aligned_disjoint [OF al al, of n k] that by (auto simp: zero_bytes_apply)
  qed (use that in simp)
  moreover have "?u a = m a" if "a \<notin> region b (4096 * K)" for a
    using that assms nth_table_sub [OF assms(1,3)] by (auto simp: zero_bytes_apply built_def)
  ultimately show ?thesis using assms(2) by (auto simp: built_def less_Suc_eq)
qed

section \<open>One operation at a time\<close>

lemma alloc_table_built:
  assumes "arena b K" and "built b K m k E (mem s)" and "k < K" and "next_free_table s = nth_table b k"
  shows "\<exists>u. alloc_table s = (nth_table b k, s\<lparr>next_free_table := nth_table b (Suc k), mem := u\<rparr>) \<and>
    built b K m (Suc k) (E(k := \<lambda>_. 0)) u"
  using built_zero [OF assms(1-3)] assms(4) nth_table_Suc [of b k]
  by (intro exI conjI) (simp_all add: alloc_table_def Let_def)

text \<open>The entries of the directory of the gigabyte at \<open>A\<close>.\<close>

definition pd_entry :: "u64 \<Rightarrow> u64 \<Rightarrow> u64 \<Rightarrow> u64" where
  "pd_entry mx A i = (if A + i * 0x200000 < mx then (A + i * 0x200000) OR identity_flags (A + i * 0x200000) else 0)"

lemma unat_gib_slot:
  fixes A i :: u64
  assumes "unat A + 2 ^ 30 < 2 ^ 64" and "i \<le> 512"
  shows "unat (A + i * 0x200000) = unat A + unat i * 2 ^ 21"
proof -
  have i: "unat i \<le> 512" using assms(2) by (simp add: word_le_nat_alt)
  then have "unat (i * 0x200000) = unat i * 2 ^ 21" by (simp add: unat_word_ariths)
  then show ?thesis using i assms(1) by (simp add: unat_plus_if')
qed

lemma fill_pd_built:
  assumes "arena b K" and "l < k" and "k \<le> K" and "unat A + 2 ^ 30 < 2 ^ 64" and "2 ^ 21 dvd unat A" and "2 ^ 21 dvd unat mx"
    and "i \<le> 512" and "A + i * 0x200000 \<le> mx" and "built b K m k E u"
  shows "case fill_pd (nth_table b l) mx i (A + i * 0x200000) u of (a, u') \<Rightarrow>
    unat a = min (unat A + 2 ^ 30) (unat mx) \<and>
    built b K m k (E(l := \<lambda>j. if i \<le> j \<and> A + j * 0x200000 < mx then pd_entry mx A j else E l j)) u'"
  using assms(7-9)
proof (induction "512 - unat i" arbitrary: i u E rule: less_induct)
  case less
  note ui = unat_gib_slot [OF assms(4) less.prems(1)]
  show ?case
  proof (cases "i < 512 \<and> A + i * 0x200000 < mx")
    case True
    let ?v = "(A + i * 0x200000) OR identity_flags (A + i * 0x200000)"
    let ?u = "store64 u (nth_table b l + 8 * i) ?v"
    have S: "unat (i + 1) = Suc (unat i)" using unat_Suc_less [of i 512] True by simp
    have i1: "i + 1 \<le> 512" using S True by (simp add: word_le_nat_alt word_less_nat_alt)
    have nx: "A + i * 0x200000 + 0x200000 = A + (i + 1) * 0x200000" by (simp add: algebra_simps)
    obtain p q where p: "unat A = 2 ^ 21 * p" and q: "unat mx = 2 ^ 21 * q" using assms(5,6) by (elim dvdE) blast
    have "p + unat i < q" using True by (simp add: word_less_nat_alt ui p q)
    then have le: "A + (i + 1) * 0x200000 \<le> mx"
      unfolding word_le_nat_alt unat_gib_slot [OF assms(4) i1] S p q by simp
    have lt: "i + 1 \<le> j \<longleftrightarrow> i \<le> j \<and> i \<noteq> j" for j using S by (auto simp: word_le_nat_alt word_unat_eq_iff)
    have "built b K m k (E(l := (E l)(i := ?v))) ?u"
      using True by (intro built_store assms less.prems) simp
    note ih = less.hyps [OF slots_left i1 le this]
    have step: "fill_pd (nth_table b l) mx i (A + i * 0x200000) u =
      fill_pd (nth_table b l) mx (i + 1) (A + (i + 1) * 0x200000) ?u"
      using True by (subst fill_pd.simps) (simp only: nx if_True simp_thms)
    show ?thesis
      using ih [OF conjunct1 [OF True]] True unfolding step
      by (auto elim!: built_cong simp: lt pd_entry_def split: if_splits)
  next
    case False
    have "unat (A + i * 0x200000) = min (unat A + 2 ^ 30) (unat mx)"
    proof (cases "i < 512")
      case True
      then have "A + i * 0x200000 = mx" using False less.prems(2) by simp
      moreover have "unat i < 512" using True by (simp add: word_less_nat_alt)
      ultimately show ?thesis using ui by simp
    next
      case f: False
      then have "i = 512" using less.prems(1) by simp
      then show ?thesis using ui less.prems(2) by (simp add: word_le_nat_alt)
    qed
    moreover have "\<not> A + j * 0x200000 < mx" if "j < 512" "i \<le> j" for j
      using False that less.prems(2) unat_gib_slot [OF assms(4), of j] ui
      by (auto simp: word_less_nat_alt word_le_nat_alt)
    ultimately show ?thesis
      using less.prems(3) False by (subst fill_pd.simps) (auto elim!: built_cong)
  qed
qed

lemma fill_pd_fresh:
  assumes "arena b K" and "l < k" and "k \<le> K" and "unat A + 2 ^ 30 < 2 ^ 64" and "2 ^ 21 dvd unat A" and "2 ^ 21 dvd unat mx"
    and "A \<le> mx" and "built b K m k E u" and "\<And>i. E l i = 0"
  shows "\<exists>a u'. fill_pd (nth_table b l) mx 0 A u = (a, u') \<and> unat a = min (unat A + 2 ^ 30) (unat mx) \<and>
    built b K m k (E(l := pd_entry mx A)) u'"
proof -
  obtain a u' where f: "fill_pd (nth_table b l) mx 0 A u = (a, u')" by fastforce
  from fill_pd_built [OF assms(1-6) _ _ assms(8), of 0] assms(7) f
  have "unat a = min (unat A + 2 ^ 30) (unat mx)"
    "built b K m k (E(l := \<lambda>j. if 0 \<le> j \<and> A + j * 0x200000 < mx then pd_entry mx A j else E l j)) u'" by simp_all
  then show ?thesis using f assms(9) by (auto elim!: built_cong simp: pd_entry_def)
qed

section \<open>The identity map\<close>

text \<open>The number of directories, and the entries that the loop from directory \<open>j\<close> on leaves.\<close>

definition dirs :: "u64 \<Rightarrow> nat" where
  "dirs mx = (unat mx + (2 ^ 30 - 1)) div 2 ^ 30"

lemma dirs_less: "j < dirs mx \<longleftrightarrow> j * 2 ^ 30 < unat mx"
  unfolding dirs_def Suc_le_eq [symmetric] by (subst less_eq_div_iff_mult_less_eq) auto

definition low_entries :: "u64 \<Rightarrow> u64 \<Rightarrow> nat \<Rightarrow> (nat \<Rightarrow> u64 \<Rightarrow> u64) \<Rightarrow> nat \<Rightarrow> u64 \<Rightarrow> u64" where
  "low_entries b mx j E l i =
     (if l = 1 \<and> j \<le> unat i \<and> unat i < dirs mx then nth_table b (2 + unat i) OR 3
      else if 2 + j \<le> l then pd_entry mx (of_nat (l - 2) * 0x40000000) i else E l i)"

lemma fill_pdpt_built:
  fixes s :: "'a paging_scheme"
  assumes "arena b K" and "2 + dirs mx \<le> K" and "2 ^ 21 dvd unat mx" and "mx \<le> 0x8000000000"
    and "pdpt s = nth_table b 1" and "next_free_table s = nth_table b (2 + unat j)"
    and "built b K m (2 + unat j) E (mem s)" and "unat a = min (unat j * 2 ^ 30) (unat mx)" and "unat j \<le> dirs mx"
  shows "\<exists>u. fill_pdpt mx j a s = s\<lparr>next_free_table := nth_table b (2 + dirs mx), mem := u\<rparr> \<and>
    built b K m (2 + dirs mx) (low_entries b mx (unat j) E) u"
  using assms(5-9)
proof (induction "512 - unat j" arbitrary: j s a E rule: less_induct)
  case less
  have m5: "unat mx \<le> 2 ^ 39" using assms(4) by (simp add: word_le_nat_alt)
  show ?case
  proof (cases "a < mx \<and> j < 512")
    case True
    have aj: "unat a = unat j * 2 ^ 30" and jd: "unat j < dirs mx" and j5: "unat j < 512"
      using True less.prems(4) by (auto simp: word_less_nat_alt dirs_less min_def split: if_splits)
    have a: "a = of_nat (unat j) * 0x40000000" using aj j5 by (simp add: word_unat_eq_iff unat_word_ariths)
    have k: "2 + unat j < K" using jd assms(2) by simp
    obtain u where u: "alloc_table s = (nth_table b (2 + unat j), s\<lparr>next_free_table := nth_table b (Suc (2 + unat j)), mem := u\<rparr>)"
      and bu: "built b K m (Suc (2 + unat j)) (E(2 + unat j := \<lambda>_. 0)) u"
      using alloc_table_built [OF assms(1) less.prems(3) k less.prems(2)] by blast
    let ?s = "s\<lparr>next_free_table := nth_table b (Suc (2 + unat j)), mem := u\<rparr>"
    let ?e = "nth_table b (2 + unat j) OR 3"
    let ?u = "store64 u (nth_table b 1 + 8 * j) ?e"
    define F where "F = (E(2 + unat j := \<lambda>_. 0))(1 := ((E(2 + unat j := \<lambda>_. 0)) 1)(j := ?e))"
    have b2: "built b K m (Suc (2 + unat j)) F ?u"
      unfolding F_def using k True by (intro built_store assms(1) bu) simp_all
    have big: "unat a + 2 ^ 30 < 2 ^ 64" "2 ^ 21 dvd unat a" using aj j5 by (simp_all add: dvd_mult)
    have am: "a \<le> mx" using True by (simp add: word_le_nat_alt word_less_nat_alt)
    obtain a' w where w: "fill_pd (nth_table b (2 + unat j)) mx 0 a ?u = (a', w)"
      and a': "unat a' = min (unat a + 2 ^ 30) (unat mx)"
      and bw: "built b K m (Suc (2 + unat j)) (F(2 + unat j := pd_entry mx a)) w"
      using fill_pd_fresh [OF assms(1) lessI _ big assms(3) am b2] k by (auto simp: F_def)
    have S: "unat (j + 1) = Suc (unat j)" using unat_Suc_less [of j 512] True by simp
    have "\<exists>v. fill_pdpt mx (j + 1) a' (?s\<lparr>mem := w\<rparr>) =
        ?s\<lparr>mem := w, next_free_table := nth_table b (2 + dirs mx), mem := v\<rparr> \<and>
      built b K m (2 + dirs mx) (low_entries b mx (unat (j + 1)) (F(2 + unat j := pd_entry mx a))) v"
      using less.prems(1) jd True bw a' aj S by (intro less.hyps slots_left) auto
    moreover have "fill_pdpt mx j a s = fill_pdpt mx (j + 1) a' (?s\<lparr>mem := w\<rparr>)"
      using True u w less.prems(1) by (subst fill_pdpt.simps) (simp add: set_entry_def)
    moreover have "low_entries b mx (unat (j + 1)) (F(2 + unat j := pd_entry mx a)) l i = low_entries b mx (unat j) E l i" for l i
    proof (cases "l = 2 + unat j")
      case True
      then show ?thesis using S by (simp add: low_entries_def a)
    next
      case False
      then have "2 + unat (j + 1) \<le> l \<longleftrightarrow> 2 + unat j \<le> l" using S by auto
      then show ?thesis using jd S False by (auto simp: low_entries_def F_def word_unat_eq_iff)
    qed
    ultimately show ?thesis by (auto elim!: built_cong)
  next
    case False
    have "\<not> unat j < dirs mx"
    proof
      assume j: "unat j < dirs mx"
      then have "unat j * 2 ^ 30 < unat mx" by (simp add: dirs_less)
      then show False using False less.prems(4) m5 by (simp add: word_less_nat_alt)
    qed
    then have j: "unat j = dirs mx" using less.prems(5) by simp
    show ?thesis
      using False less.prems(2,3) unfolding j
      by (subst fill_pdpt.simps, intro exI [of _ "mem s"] conjI) (auto elim!: built_cong simp: low_entries_def)
  qed
qed

section \<open>The kernel half\<close>

lemma ucast_lt_512:
  assumes "i < (512 :: u32)"
  shows "unat (ucast i :: u64) = unat i" and "(ucast i :: u64) < 512" and "(ucast (i + 1) :: u64) = ucast i + 1"
proof -
  show u: "unat (ucast i :: u64) = unat i" for i :: u32
    using unat_u32_less [of i] by (simp add: unsigned_ucast_eq take_bit_eq_mod)
  show "(ucast i :: u64) < 512" using assms u [of i] by (simp add: word_less_nat_alt)
  then show "(ucast (i + 1) :: u64) = ucast i + 1"
    using u [of "i + 1"] u [of i] unat_Suc_less [OF assms] unat_Suc_less [of "ucast i :: u64" 512] by (simp add: word_unat_eq_iff)
qed

definition half_entries :: "u64 \<Rightarrow> nat \<Rightarrow> (nat \<Rightarrow> u64 \<Rightarrow> u64) \<Rightarrow> nat \<Rightarrow> u64 \<Rightarrow> u64" where
  "half_entries b k E = E(0 := (E 0)(511 := nth_table b k OR 3), k := (\<lambda>_. 0)(510 := nth_table b (Suc k) OR 3),
     Suc k := \<lambda>i. i * 0x200000 OR 0x83)"

lemma fill_half_built:
  fixes s :: "'a paging_scheme"
  assumes "arena b K" and "l < k" and "k \<le> K" and "built b K m k E (mem s)"
  shows "\<exists>p u. for_range (0 :: u32) 512 (\<lambda>i (phys, s).
      (phys + PSE_2MB, set_entry (nth_table b l) (ucast i) (phys OR 0x83) s)) (0, s) = (p, s\<lparr>mem := u\<rparr>) \<and>
    built b K m k (E(l := \<lambda>i. i * 0x200000 OR 0x83)) u"
proof -
  let ?f = "\<lambda>i (phys, s :: 'a paging_scheme). (phys + PSE_2MB, set_entry (nth_table b l) (ucast (i :: u32)) (phys OR 0x83) s)"
  define I where "I = (\<lambda>(i :: u32) (p :: u64, t :: 'a paging_scheme). p = ucast i * 0x200000 \<and> t = s\<lparr>mem := mem t\<rparr> \<and>
    built b K m k (E(l := \<lambda>j. if j < ucast i then j * 0x200000 OR 0x83 else E l j)) (mem t))"
  have "I 512 (for_range 0 512 ?f (0, s))"
  proof (rule for_range_invariant [where I = I])
    show "I 0 (0, s)" using assms(4) by (simp add: I_def)
    fix i pt assume i: "i < (512 :: u32)" and I: "I i pt"
    obtain p t where pt: "pt = (p, t)" by fastforce
    note c = ucast_lt_512 [OF i]
    have lt: "j < ucast i + 1 \<longleftrightarrow> j = ucast i \<or> j < ucast i" for j :: u64
      using unat_Suc_less [OF c(2)] by (auto simp: word_less_nat_alt word_unat_eq_iff)
    have t: "p = ucast i * 0x200000" "t = s\<lparr>mem := mem t\<rparr>"
      "built b K m k (E(l := \<lambda>j. if j < ucast i then j * 0x200000 OR 0x83 else E l j)) (mem t)"
      using I by (simp_all add: I_def pt)
    have "set_entry (nth_table b l) (ucast i) (p OR 0x83) t = s\<lparr>mem := mem (set_entry (nth_table b l) (ucast i) (p OR 0x83) t)\<rparr>"
      by (subst t(2)) (simp add: set_entry_def)
    moreover have "built b K m k (E(l := \<lambda>j. if j < ucast (i + 1) then j * 0x200000 OR 0x83 else E l j))
        (mem (set_entry (nth_table b l) (ucast i) (p OR 0x83) t))"
      using built_store [OF assms(1) t(3) assms(2,3) c(2), of "p OR 0x83"]
      unfolding c(3) lt by (auto elim!: built_cong simp: set_entry_def t(1))
    moreover have "ucast i * 0x200000 + 0x200000 = (ucast (i + 1) * 0x200000 :: u64)" unfolding c(3) by (simp add: algebra_simps)
    ultimately show "I (i + 1) (?f i pt)" by (simp add: I_def pt t(1))
  qed simp
  then obtain p t where "for_range 0 512 ?f (0, s) = (p, t)" "I 512 (p, t)" by (cases "for_range 0 512 ?f (0, s)") simp
  then have f: "for_range 0 512 ?f (0, s) = (p, s\<lparr>mem := mem t\<rparr>)"
    and g: "built b K m k (E(l := \<lambda>j. if j < 512 then j * 0x200000 OR 0x83 else E l j)) (mem t)"
    by (simp_all add: I_def)
  have "built b K m k (E(l := \<lambda>i. i * 0x200000 OR 0x83)) (mem t)" by (rule built_cong [OF g]) simp
  then show ?thesis using f by blast
qed

lemma map_kernel_half_built:
  fixes s :: "'a paging_scheme"
  assumes "arena b K" and "0 < k" and "k + 2 \<le> K" and "pml4 s = b" and "next_free_table s = nth_table b k"
    and "built b K m k E (mem s)"
  shows "\<exists>u. map_kernel_half s = s\<lparr>next_free_table := nth_table b (k + 2), mem := u\<rparr> \<and>
    built b K m (k + 2) (half_entries b k E) u"
proof -
  obtain u where u: "alloc_table s = (nth_table b k, s\<lparr>next_free_table := nth_table b (Suc k), mem := u\<rparr>)"
    "built b K m (Suc k) (E(k := \<lambda>_. 0)) u"
    using alloc_table_built [OF assms(1,6) _ assms(5)] assms(3) by auto
  let ?E1 = "(E(k := \<lambda>_. 0))(0 := ((E(k := \<lambda>_. 0)) 0)(511 := nth_table b k OR 3))"
  let ?s1 = "s\<lparr>next_free_table := nth_table b (Suc k), mem := store64 u (nth_table b 0 + 8 * 511) (nth_table b k OR 3)\<rparr>"
  have b1: "built b K m (Suc k) ?E1 (mem ?s1)" 
    using built_store [OF assms(1) u(2), of 0 511 "nth_table b k OR 3"] assms(3) by simp
  obtain w where w: "alloc_table ?s1 = (nth_table b (Suc k), ?s1\<lparr>next_free_table := nth_table b (Suc (Suc k)), mem := w\<rparr>)"
    "built b K m (Suc (Suc k)) (?E1(Suc k := \<lambda>_. 0)) w"
    using alloc_table_built [OF assms(1) b1] assms(3) by auto
  let ?E2 = "(?E1(Suc k := \<lambda>_. 0))(k := ((?E1(Suc k := \<lambda>_. 0)) k)(510 := nth_table b (Suc k) OR 3))"
  let ?s2 = "s\<lparr>next_free_table := nth_table b (Suc (Suc k)), mem := store64 w (nth_table b k + 8 * 510) (nth_table b (Suc k) OR 3)\<rparr>"
  have b2: "built b K m (Suc (Suc k)) ?E2 (mem ?s2)"
    using built_store [OF assms(1) w(2), of k 510] assms(3) by simp
  obtain p v where v: "for_range (0 :: u32) 512 (\<lambda>i (phys, s).
      (phys + PSE_2MB, set_entry (nth_table b (Suc k)) (ucast i) (phys OR 0x83) s)) (0, ?s2) = (p, ?s2\<lparr>mem := v\<rparr>)"
    "built b K m (Suc (Suc k)) (?E2(Suc k := \<lambda>i. i * 0x200000 OR 0x83)) v"
    using fill_half_built [OF assms(1) lessI _ b2] assms(3) by auto
  have "map_kernel_half s = s\<lparr>next_free_table := nth_table b (k + 2), mem := v\<rparr>"
    unfolding map_kernel_half_def using u(1) w(1) v(1) assms(4) by (simp add: set_entry_def)
  moreover have "built b K m (k + 2) (half_entries b k E) v"
    using v(2) assms(2) by (auto elim!: built_cong simp: half_entries_def)
  ultimately show ?thesis by blast
qed

section \<open>The initialiser\<close>

lemma con_only_paging:
  fixes s t :: "'a paging_scheme"
  assumes "con_only s t"
  shows "mem t = mem s" "pml4 t = pml4 s" "next_free_table t = next_free_table s" "cr3 t = cr3 s"
    "kernel_cr3 t = kernel_cr3 s" "paging_arena_end t = paging_arena_end s" "if_flag t = if_flag s"
    "kernel_address_space t = kernel_address_space s"
  using assms by (auto simp: con_only_def)

lemmas print_paging [simp] = con_only_paging [OF con_only_print(1)] con_only_paging [OF con_only_print(2)]

lemma enable_nx_fields [simp]:
  "mem (enable_nx s) = mem s" "pml4 (enable_nx s) = pml4 s" "next_free_table (enable_nx s) = next_free_table s"
  "kernel_address_space (enable_nx s) = kernel_address_space s"
  by (simp_all add: enable_nx_def rdmsr_def wrmsr_def Let_def)

lemma ram_top_cong:
  assumes "\<And>off x. off \<in> set offs \<Longrightarrow> x \<in> region (mmap + off) 32 \<Longrightarrow> m x = m' x"
  shows "ram_top m mmap offs = ram_top m' mmap offs"
  unfolding ram_top_def Let_def
  by (rule fold_cong) (use desc_cong [of _ m m'] assms in auto)

lemma leaf_flags_identity: "leaf_flags (identity_flags a)"
proof -
  have b: "bit (0x10 :: u64) k \<longleftrightarrow> k = 4" "bit (0x8000000000000083 :: u64) k \<longleftrightarrow> k \<in> {0, 1, 7, 63}" for k
  proof -
    have eq: "(0x10 :: u64) = push_bit 4 1" "(0x8000000000000083 :: u64) = push_bit 63 1 OR push_bit 7 1 OR mask 2"
      by (simp_all add: mask_eq_exp_minus_1 push_bit_eq_mult)
    show "bit (0x10 :: u64) k \<longleftrightarrow> k = 4" "bit (0x8000000000000083 :: u64) k \<longleftrightarrow> k \<in> {0, 1, 7, 63}"
      unfolding eq bit_or_iff bit_push_bit_iff bit_mask_iff bit_1_iff by auto
  qed
  have f: "identity_flags a = (if a = 0xFEC00000 \<or> a = 0xFEE00000 then 0x8000000000000083 OR 0x10 else 0x8000000000000083)"
    by (simp add: identity_flags_def)
  show ?thesis unfolding f leaf_flags_def by (simp only: bit_or_iff b split: if_split) auto
qed

lemma identity_top_dvd: "2 ^ 21 dvd unat (identity_top bi r)"
proof -
  have m: "PSE_2MB - 1 = (mask 21 :: u64)" by (simp add: mask_eq_exp_minus_1)
  show ?thesis unfolding identity_top_def Let_def m and_not_mask_dvd by (simp add: dvd_minus_mod)
qed

lemma aligned_round: "aligned (x AND NOT (PAGE_SIZE - 1))"
proof -
  have m: "PAGE_SIZE - 1 = (mask 12 :: u64)" by (simp add: mask_eq_exp_minus_1)
  have "2 ^ 12 dvd unat (x AND NOT (mask 12 :: u64))" unfolding and_not_mask_dvd by (rule dvd_minus_mod)
  then show ?thesis unfolding aligned_def m by simp
qed

definition window_entries :: "u64 \<Rightarrow> u64 \<Rightarrow> nat \<Rightarrow> u64 \<Rightarrow> u64" where
  "window_entries b mx = half_entries b (2 + dirs mx)
     (low_entries b mx 0 (\<lambda>l i. if l = 0 \<and> i = 0 then nth_table b 1 OR 3 else 0))"

lemma window_slot:
  assumes "unat v < 2 ^ 39" and "2 ^ 21 dvd unat mx"
  shows "pdpt_i v * 0x40000000 + pd_i v * 0x200000 < mx \<longleftrightarrow> v < mx"
proof -
  have "unat (pdpt_i v * 0x40000000 + pd_i v * 0x200000) = unat v div 2 ^ 21 * 2 ^ 21"
  proof -
    have q: "unat v div 2 ^ 30 = unat v div 2 ^ 21 div 512" by (simp flip: div_mult2_eq)
    have p: "unat (pdpt_i v) = unat v div 2 ^ 21 div 512" "unat (pd_i v) = unat v div 2 ^ 21 mod 512"
      using low_pdpt(1) [OF assms(1)] unat_index(3) [of v] by (simp_all only: q)
    have l: "unat (pdpt_i v) < 512" "unat (pd_i v) < 512" using unat_index by simp_all
    then have "unat (pdpt_i v * 0x40000000 + pd_i v * 0x200000) = (unat v div 2 ^ 21 div 512 * 512 + unat v div 2 ^ 21 mod 512) * 2 ^ 21"
      unfolding p [symmetric] by (simp add: unat_word_ariths)
    then show ?thesis by simp
  qed
  moreover obtain q where "unat mx = 2 ^ 21 * q" using assms(2) by (elim dvdE)
  ultimately show ?thesis unfolding word_less_nat_alt
    by (metis div_less_iff_less_mult mult.commute mult_less_cancel2 zero_less_numeral zero_less_power)
qed

lemma window_translate:
  assumes "arena b (4 + dirs mx)" and "built b K m (4 + dirs mx) (window_entries b mx) u"
    and "2 ^ 21 dvd unat mx" and "mx \<le> 0x8000000000" and "canonical v"
  shows "translate u b v = (if v < mx then Some v else if kernel_window v then Some (v - 0xFFFFFFFF80000000) else None)"
proof -
  have m5: "unat mx \<le> 2 ^ 39" using assms(4) by (simp add: word_le_nat_alt)
  have d: "dirs mx \<le> 512" using m5 by (simp add: not_less [symmetric] dirs_less)
  have un: "unat (of_nat (dirs mx) :: u64) = dirs mx" using d by (intro unat_of_nat_u64) simp
  have e: "entry u (nth_table b l) i = window_entries b mx l i" if "l < 4 + dirs mx" "i < 512" for l i
    using that assms(2) by (simp add: built_def)
  note tb = nth_table_addr(2) [OF assms(1)]
  have tr: "translate u b v =
    (if pml4_i v = 0 \<and> pdpt_i v < of_nat (dirs mx) \<and> pdpt_i v * 0x40000000 + pd_i v * 0x200000 < mx then Some (take_bit 39 v)
     else if pml4_i v = 511 \<and> pdpt_i v = 510 then Some (take_bit 30 v) else None)"
  proof (rule windows_translate [where low = "nth_table b 1" and high = "nth_table b (2 + dirs mx)"
        and khalf = "nth_table b (3 + dirs mx)" and dir = "\<lambda>j. nth_table b (2 + unat j)"
        and fl = "\<lambda>j i. identity_flags (j * 0x40000000 + i * 0x200000)"])
    show "entry u b i = (if i = 0 then nth_table b 1 OR 3 else if i = 511 then nth_table b (2 + dirs mx) OR 3 else 0)" if "i < 512" for i
      using e [of 0 i] that by (simp add: window_entries_def half_entries_def low_entries_def)
    show "entry u (nth_table b 1) j = (if j < of_nat (dirs mx) then nth_table b (2 + unat j) OR 3 else 0)" if "j < 512" for j
      using e [of 1 j] that by (simp add: window_entries_def half_entries_def low_entries_def word_less_nat_alt un)
    show "entry u (nth_table b (2 + unat j)) i = (if j * 0x40000000 + i * 0x200000 < mx
        then (j * 0x40000000 + i * 0x200000) OR identity_flags (j * 0x40000000 + i * 0x200000) else 0)"
      if "j < of_nat (dirs mx)" "i < 512" for j i
      using e [of "2 + unat j" i] that by (simp add: window_entries_def half_entries_def low_entries_def pd_entry_def word_less_nat_alt un)
    show "entry u (nth_table b (2 + dirs mx)) j = (if j = 510 then nth_table b (3 + dirs mx) OR 3 else 0)" if "j < 512" for j
      using e [of "2 + dirs mx" j] that by (simp add: window_entries_def half_entries_def numeral_3_eq_3)
    show "entry u (nth_table b (3 + dirs mx)) i = i * 0x200000 OR 0x83" if "i < 512" for i
      using e [of "3 + dirs mx" i] that by (simp add: window_entries_def half_entries_def numeral_3_eq_3)
  qed (use tb un in \<open>simp_all add: leaf_flags_identity word_less_nat_alt\<close>)
  have "pml4_i v = 0 \<and> pdpt_i v < of_nat (dirs mx) \<and> pdpt_i v * 0x40000000 + pd_i v * 0x200000 < mx \<longleftrightarrow> v < mx"
  proof (cases "unat v < 2 ^ 39")
    case True
    have "unat v div 2 ^ 30 < dirs mx" if "v < mx"
      using that div_times_less_eq_dividend [of "unat v" "2 ^ 30"] unfolding dirs_less word_less_nat_alt by linarith
    then show ?thesis
      using True window_slot [OF True assms(3)] low_index [OF assms(5)] low_pdpt(1) [OF True] un by (auto simp: word_less_nat_alt)
  next
    case False
    then show ?thesis using low_index [OF assms(5)] m5 by (auto simp: word_less_nat_alt)
  qed
  moreover have "take_bit 39 v = v" if "v < mx" using that m5 by (intro low_pdpt(2)) (simp add: word_less_nat_alt)
  ultimately show ?thesis unfolding tr using kernel_index [OF assms(5)] kernel_offset [of v] by auto
qed

lemma paging_init_built:
  fixes s :: "'a paging_scheme"
  assumes "mmap_offsets 0 (memory_map_size bi) (memory_map_descriptor_size bi) = Some offs"
    and "b = (kernel_end_phys kernel_end + PAGE_SIZE - 1) AND NOT (PAGE_SIZE - 1)"
    and "mx = identity_top bi (ram_top (mem s) (memory_map bi) offs)" and "mx \<le> 0x8000000000"
    and "unat b + 4096 * (4 + dirs mx) \<le> 2 ^ 52"
    and "\<forall>off \<in> set offs. region (memory_map bi + off) 32 \<inter> region b (4096 * (4 + dirs mx)) = {}"
  shows "\<exists>t. paging_init kernel_end bi s = Ok () t \<and> cr3 t = b \<and> kernel_cr3 t = b \<and>
    paging_arena_end t = nth_table b (4 + dirs mx) \<and> \<not> if_flag t \<and>
    kernel_address_space t = kernel_address_space s \<and>
    built b (4 + dirs mx) (mem s) (4 + dirs mx) (window_entries b mx) (mem t)"
proof -
  let ?K = "4 + dirs mx" and ?E = "\<lambda>l i :: u64. if l = (0 :: nat) \<and> i = 0 then nth_table b 1 OR 3 else 0"
  have ar: "arena b ?K" using assms(5) aligned_round unfolding arena_def assms(2) by blast
  let ?s1 = "s\<lparr>next_free_table := nth_table b 0\<rparr>"
  have b0: "built b ?K (mem s) 0 ?E (mem ?s1)" by (simp add: built_def)
  obtain u where u: "alloc_table ?s1 = (b, ?s1\<lparr>next_free_table := nth_table b 1, mem := u\<rparr>)"
    "built b ?K (mem s) 1 (?E(0 := \<lambda>_. 0)) u"
    using alloc_table_built [OF ar b0] by auto
  let ?s2 = "s\<lparr>next_free_table := nth_table b 1, mem := u, pml4 := b\<rparr>"
  obtain w where w: "alloc_table ?s2 = (nth_table b 1, ?s2\<lparr>next_free_table := nth_table b 2, mem := w\<rparr>)"
    "built b ?K (mem s) 2 ((?E(0 := \<lambda>_. 0))(1 := \<lambda>_. 0)) w"
    using alloc_table_built [OF ar, of "mem s" 1 _ ?s2] u(2) by (auto simp: numeral_2_eq_2)
  let ?s3 = "s\<lparr>pml4 := b, next_free_table := nth_table b 2, pdpt := nth_table b 1, mem := store64 w (b + 8 * 0) (nth_table b 1 OR 3)\<rparr>"
  have b3: "built b ?K (mem s) (2 + unat (0 :: u64)) ?E (mem ?s3)"
    using built_store [OF ar w(2), of 0 0 "nth_table b 1 OR 3"] by (auto elim!: built_cong split: if_splits)
  have rt: "ram_top (mem ?s3) (memory_map bi) offs = ram_top (mem s) (memory_map bi) offs"
  proof (rule ram_top_cong)
    fix off x assume "off \<in> set offs" and "x \<in> region (memory_map bi + off) 32"
    then have "x \<notin> region b (4096 * ?K)" using assms(6) by blast
    then show "mem ?s3 x = mem s x" using b3 unfolding built_def by blast
  qed
  obtain x where x: "fill_pdpt mx 0 0 ?s3 = ?s3\<lparr>next_free_table := nth_table b (2 + dirs mx), mem := x\<rparr>"
    "built b ?K (mem s) (2 + dirs mx) (low_entries b mx 0 ?E) x"
    using fill_pdpt_built [OF ar _ _ assms(4) _ _ b3, of 0] identity_top_dvd [of bi] by (auto simp: assms(3))
  have four: "2 + dirs mx + 2 = ?K" by simp
  let ?s4 = "?s3\<lparr>next_free_table := nth_table b (2 + dirs mx), mem := x\<rparr>"
  obtain y where y: "map_kernel_half ?s4 = ?s4\<lparr>next_free_table := nth_table b (2 + dirs mx + 2), mem := y\<rparr>"
    "built b ?K (mem s) (2 + dirs mx + 2) (window_entries b mx) y"
    unfolding window_entries_def using map_kernel_half_built [OF ar, of "2 + dirs mx" ?s4 "mem s"] x(2) by auto
  show ?thesis
    unfolding paging_init_def assms(1) assms(2) [symmetric]
    using u(1) w(1) x(1) y [unfolded four] rt by (simp add: assms(3) [symmetric] set_entry_def cli_def)
qed

text \<open>
  C17: The kernel's page-table initialiser ends normally on every memory map whose loop ends, with interrupts
  off and the new tables active. They map every address below the rounded-up end of memory to itself and the
  kernel half from 0xFFFFFFFF80000000 to the first gigabyte, and map no other canonical address. The tables
  lie one after the other behind the kernel image, the recorded end of the arena is the address
  behind the last one, and no byte outside of them has changed.
\<close>

theorem paging_init_correct:
  fixes s :: "'a paging_scheme"
  assumes "mmap_offsets 0 (memory_map_size bi) (memory_map_descriptor_size bi) = Some offs"
    and "b = (kernel_end_phys kernel_end + PAGE_SIZE - 1) AND NOT (PAGE_SIZE - 1)"
    and "mx = identity_top bi (ram_top (mem s) (memory_map bi) offs)" and "mx \<le> 0x8000000000"
    and "unat b + 4096 * (4 + dirs mx) \<le> 2 ^ 52"
    and "\<forall>off \<in> set offs. region (memory_map bi + off) 32 \<inter> region b (4096 * (4 + dirs mx)) = {}"
  shows "\<exists>t. paging_init kernel_end bi s = Ok () t \<and> cr3 t = b \<and> kernel_cr3 t = b \<and> \<not> if_flag t \<and>
    unat (paging_arena_end t) = unat b + 4096 * (4 + dirs mx) \<and>
    (\<forall>v. canonical v \<longrightarrow> translate (mem t) (cr3 t) v =
      (if v < mx then Some v else if kernel_window v then Some (v - 0xFFFFFFFF80000000) else None)) \<and>
    (\<forall>a. a \<notin> region b (4096 * (4 + dirs mx)) \<longrightarrow> mem t a = mem s a)"
proof -
  obtain t where t: "paging_init kernel_end bi s = Ok () t" "cr3 t = b" "kernel_cr3 t = b"
      "paging_arena_end t = nth_table b (4 + dirs mx)" "\<not> if_flag t"
    and bt: "built b (4 + dirs mx) (mem s) (4 + dirs mx) (window_entries b mx) (mem t)"
    using paging_init_built [OF assms] by blast
  have ar: "arena b (4 + dirs mx)" using assms(5) aligned_round unfolding arena_def assms(2) by blast
  note nth_table_end [OF ar]
  moreover have "translate (mem t) b v =
      (if v < mx then Some v else if kernel_window v then Some (v - 0xFFFFFFFF80000000) else None)" if "canonical v" for v
    using window_translate [OF ar bt _ assms(4) that] identity_top_dvd by (simp add: assms(3))
  ultimately show ?thesis using t bt by (auto simp: built_def)
qed

lemma example_identity_top: "identity_top example_boot (ram_top example_mem 0x300000 [0]) = 0x100000000"
  by (simp add: identity_top_def ram_top_def example_desc example_boot_def)

lemma example_boot_fields: "memory_map example_boot = 0x300000" "memory_map_size example_boot = 48"
  "memory_map_descriptor_size example_boot = 48"
  by (simp_all add: example_boot_def)

theorem paging_init_correct_witness:
  "\<forall>s :: paging. \<exists>t. paging_init 0xFFFFFFFF80020000 example_boot (s\<lparr>mem := example_mem\<rparr>) = Ok () t \<and>
     cr3 t = 0x120000 \<and> unat (paging_arena_end t) = 0x128000 \<and>
     translate (mem t) 0x120000 0xFEE00000 = Some 0xFEE00000 \<and>
     translate (mem t) 0x120000 0xFFFFFFFF80100000 = Some 0x100000 \<and>
     translate (mem t) 0x120000 0x100000000 = None"
proof
  fix s :: paging
  have d: "dirs 0x100000000 = 4" by (simp add: dirs_def)
  have "\<forall>off \<in> set [0]. region (0x300000 + off) 32 \<inter> region 0x120000 (4096 * (4 + 4)) = {}"
    using region_disjoint [where a = "0x300000" and n = 32 and b = "0x120000" and k = 32768] by simp
  then obtain t where t: "paging_init 0xFFFFFFFF80020000 example_boot (s\<lparr>mem := example_mem\<rparr>) = Ok () t"
    "cr3 t = 0x120000" "unat (paging_arena_end t) = 0x120000 + 4096 * (4 + 4)"
    and tr: "\<forall>v. canonical v \<longrightarrow> translate (mem t) (cr3 t) v =
      (if v < 0x100000000 then Some v else if kernel_window v then Some (v - 0xFFFFFFFF80000000) else None)"
    using paging_init_correct [where bi = example_boot and offs = "[0]" and b = "0x120000" and mx = "0x100000000"
        and kernel_end = "0xFFFFFFFF80020000" and s = "s\<lparr>mem := example_mem\<rparr>"]
    by (auto simp: example_identity_top d example_boot_fields example_offsets kernel_end_phys_def KERNEL_VIRT_BASE_def
        KERNEL_PHYS_BASE_def)
  have "canonical 0xFEE00000" "canonical 0xFFFFFFFF80100000" "canonical 0x100000000" by (simp_all add: canonical_def)
  note v = this [THEN tr [rule_format]]
  show "\<exists>t. paging_init 0xFFFFFFFF80020000 example_boot (s\<lparr>mem := example_mem\<rparr>) = Ok () t \<and>
     cr3 t = 0x120000 \<and> unat (paging_arena_end t) = 0x128000 \<and>
     translate (mem t) 0x120000 0xFEE00000 = Some 0xFEE00000 \<and>
     translate (mem t) 0x120000 0xFFFFFFFF80100000 = Some 0x100000 \<and>
     translate (mem t) 0x120000 0x100000000 = None"
    using t v by (intro exI [of _ t]) (simp add: kernel_window_def)
qed

end
