(* ===== verification/Startup.thy ===== *)
theory Startup
  imports WindowMap Desc
begin

text \<open>
  The memory components at start-up: the tables of \<^verbatim>\<open>paging_init\<close> and the frame allocator of \<^verbatim>\<open>pmm_init\<close>
  establish the invariant under which the operations of \<^verbatim>\<open>kernel/vmm.c\<close> are correct, and the heap's
  initialiser establishes the invariant of the heap.
\<close>

unbundle bit_operations_syntax

section \<open>The tables of the two windows\<close>

text \<open>The path of indices to each table of the arena, for \<open>n\<close> directories of the identity map.\<close>

fun window_path :: "nat \<Rightarrow> u64 list \<Rightarrow> nat option" where
  "window_path n [] = Some 0"
| "window_path n [i] = (if i = 0 then Some 1 else if i = 511 then Some (2 + n) else None)"
| "window_path n [i, j] = (if i = 0 \<and> unat j < n then Some (2 + unat j)
     else if i = 511 \<and> j = 510 then Some (3 + n) else None)"
| "window_path n _ = None"

lemma window_path_bound: "window_path n p = Some l \<Longrightarrow> l < 4 + n"
  by (induction n p rule: window_path.induct) (auto split: if_splits)

lemma window_pathD:
  "window_path n p = Some l \<Longrightarrow> p = [] \<and> l = 0 \<or> p = [0] \<and> l = 1 \<or> p = [511] \<and> l = 2 + n \<or>
    (\<exists>j. p = [0, j] \<and> unat j < n \<and> l = 2 + unat j) \<or> p = [511, 510] \<and> l = 3 + n"
  by (induction n p rule: window_path.induct) (auto split: if_splits)

lemma window_path_inj:
  assumes "window_path n p = Some l" and "window_path n q = Some l"
  shows "p = q"
  using window_pathD [OF assms(1)] window_pathD [OF assms(2)]
  by (elim disjE exE conjE) (simp_all add: word_unat_eq_iff)

lemma link_base:
  assumes "table_base t"
  shows "page_base (t OR 3) = t"
proof (rule bit_eqI)
  fix k
  have eq: "(3 :: u64) = mask 2" by (simp add: mask_eq_exp_minus_1)
  have "bit (3 :: u64) k \<longleftrightarrow> k < 2" unfolding eq by (auto simp: bit_simps)
  moreover have "bit t k \<longleftrightarrow> bit (t OR 3) k \<and> 12 \<le> k \<and> k < 52" using bit_pte_addr [of "t OR 3" k] table_link(1) [OF assms] by simp
  ultimately show "bit (page_base (t OR 3)) k \<longleftrightarrow> bit t k" unfolding bit_page_base bit_or_iff by auto
qed

lemma table_okI:
  assumes "\<And>i. i < 512 \<Longrightarrow> entry m t i = 0 \<or> (\<exists>t'. table_base t' \<and> entry m t i = t' OR 3) \<or>
    length p = 2 \<and> present (entry m t i) \<and> huge (entry m t i)"
  shows "table_ok m p t"
  unfolding table_ok_def Let_def
proof (intro allI impI)
  fix i :: u64 assume "i < 512"
  from assms [OF this] show "(length p \<le> 1 \<longrightarrow> \<not> huge (entry m t i)) \<and> (length p \<le> 2 \<longrightarrow>
      (huge (entry m t i) \<longrightarrow> present (entry m t i)) \<and>
      (present (entry m t i) \<and> \<not> huge (entry m t i) \<longrightarrow> page_base (entry m t i) = pte_addr (entry m t i)))"
    by (elim disjE exE conjE) (simp_all add: table_link link_base)
qed

lemma leaf_bits: "leaf_flags f \<Longrightarrow> bit (a OR f) 0 \<and> bit (a OR f) 7"
  by (simp add: leaf_flags_def bit_or_iff)

text \<open>An entry of the arena: none, a link to the table at the longer path, or a large page.\<close>

lemma window_entry:
  assumes "window_path (dirs mx) p = Some l"
  shows "length p < 2 \<Longrightarrow> window_entries b mx l i =
      (case window_path (dirs mx) (p @ [i]) of Some k \<Rightarrow> nth_table b k OR 3 | None \<Rightarrow> 0)"
    and "\<not> length p < 2 \<Longrightarrow> window_entries b mx l i = 0 \<or> bit (window_entries b mx l i) 0 \<and> bit (window_entries b mx l i) 7"
    and "\<not> length p < 2 \<Longrightarrow> length p = 2 \<and> window_path (dirs mx) (p @ [i]) = None"
proof -
  note d = window_pathD [OF assms]
  note E = window_entries_def half_entries_def low_entries_def
  have two: "nth_table b (Suc (Suc 0)) = nth_table b 2" by (simp add: numeral_2_eq_2)
  have leaf: "bit (x OR identity_flags y) 0 \<and> bit (x OR identity_flags y) 7 \<and> bit (x OR 0x83) 0 \<and> bit (x OR 0x83) 7" for x y :: u64
    using leaf_bits [OF leaf_flags_identity] leaf_bits [OF leaf_flags_83] by blast
  show "window_entries b mx l i = (case window_path (dirs mx) (p @ [i]) of Some k \<Rightarrow> nth_table b k OR 3 | None \<Rightarrow> 0)"
    if len: "length p < 2"
  proof -
    consider "p = []" "l = 0" | "p = [0]" "l = 1" | "p = [511]" "l = 2 + dirs mx" using d len by fastforce
    then show ?thesis by cases (simp_all add: E two numeral_3_eq_3)
  qed
  show "window_entries b mx l i = 0 \<or> bit (window_entries b mx l i) 0 \<and> bit (window_entries b mx l i) 7"
    "length p = 2 \<and> window_path (dirs mx) (p @ [i]) = None" if len: "\<not> length p < 2"
  proof -
    consider j where "p = [0, j]" "unat j < dirs mx" "l = 2 + unat j" | "p = [511, 510]" "l = 3 + dirs mx"
      using d len by fastforce
    then show "window_entries b mx l i = 0 \<or> bit (window_entries b mx l i) 0 \<and> bit (window_entries b mx l i) 7"
      "length p = 2 \<and> window_path (dirs mx) (p @ [i]) = None"
      by (cases; simp add: E pd_entry_def leaf numeral_3_eq_3)+
  qed
qed

lemma window_tables:
  assumes "arena b (4 + dirs mx)" and "built b K m (4 + dirs mx) (window_entries b mx) u" and "dirs mx \<le> 512"
    and "window_path (dirs mx) p = Some l"
  shows "i < 512 \<Longrightarrow> walk_step u (nth_table b l) i = map_option (nth_table b) (window_path (dirs mx) (p @ [i]))"
    and "table_ok u p (nth_table b l)"
proof -
  have e: "entry u (nth_table b l) i = window_entries b mx l i" if "i < 512" for i
    using that assms(2) window_path_bound [OF assms(4)] by (simp add: built_def)
  note w = window_entry(1,2) [OF assms(4), where b = b] window_entry(3) [OF assms(4)]
  have tb: "table_base (nth_table b k)" if "window_path (dirs mx) q = Some k" for q k
    by (rule nth_table_addr(2) [OF assms(1) window_path_bound [OF that]])
  show "walk_step u (nth_table b l) i = map_option (nth_table b) (window_path (dirs mx) (p @ [i]))" if i: "i < 512"
  proof (cases "window_path (dirs mx) (p @ [i])")
    case None
    then show ?thesis using w [of i] e [OF i] by (cases "length p < 2") (auto simp: walk_step_def Let_def)
  next
    case (Some k)
    then have "length p < 2" using w(3) [of i] by auto
    then show ?thesis using Some w(1) [of i] e [OF i] table_link [OF tb [OF Some]] by (simp add: walk_step_def)
  qed
  show "table_ok u p (nth_table b l)"
  proof (rule table_okI)
    fix i :: u64 assume i: "i < 512"
    show "entry u (nth_table b l) i = 0 \<or> (\<exists>t'. table_base t' \<and> entry u (nth_table b l) i = t' OR 3) \<or>
        length p = 2 \<and> present (entry u (nth_table b l) i) \<and> huge (entry u (nth_table b l) i)"
      using w [of i] tb [of "p @ [i]"] unfolding e [OF i] by (cases "length p < 2") (auto split: option.splits)
  qed
qed

lemma window_table_at:
  assumes "arena b (4 + dirs mx)" and "built b K m (4 + dirs mx) (window_entries b mx) u" and "dirs mx \<le> 512"
    and "table_at u b p t"
  shows "\<exists>l. window_path (dirs mx) p = Some l \<and> t = nth_table b l"
  using assms(4)
proof (induction p arbitrary: t rule: rev_induct)
  case (snoc i p)
  then obtain t0 where t0: "i < 512" "table_at u b p t0" "walk_step u t0 i = Some t" unfolding table_at_snoc by blast
  then obtain l where l: "window_path (dirs mx) p = Some l" "t0 = nth_table b l" using snoc.IH by blast
  then show ?case using window_tables(1) [OF assms(1-3) l(1) t0(1)] t0(3) by auto
qed simp

section \<open>The invariant of the first address space\<close>

lemma built_agree:
  assumes "arena b K" and "built b K m K E u" and "\<And>a. a \<in> region b (4096 * K) \<Longrightarrow> u' a = u a"
  shows "built b K u' K E u'"
proof -
  have "entry u' (nth_table b l) i = E l i" if "l < K" "i < 512" for l i
  proof -
    have "entry u' (nth_table b l) i = entry u (nth_table b l) i"
      by (rule entry_cong [OF nth_table_addr(3) [OF assms(1) that(1)] that(2)])
        (use assms(3) nth_table_sub [OF assms(1) that(1)] in blast)
    then show ?thesis using assms(2) that by (simp add: built_def)
  qed
  then show ?thesis by (simp add: built_def)
qed

lemma vmm_init_mem:
  "mem (vmm_init s) = store64 (mem s) (kernel_address_space s) (cr3 s)" "kernel_address_space (vmm_init s) = kernel_address_space s"
  "bitmap (vmm_init s) = bitmap s" "bitmap_size (vmm_init s) = bitmap_size s" "total_pages (vmm_init s) = total_pages s"
  "free_pages (vmm_init s) = free_pages s"
proof -
  have "con_only (s\<lparr>mem := store64 (mem s) (kernel_address_space s) (cr3 s)\<rparr>) (vmm_init s)"
    unfolding vmm_init_def Let_def 
    by (rule con_only_trans [OF _ con_only_print(1)], rule con_only_trans [OF _ con_only_print(2)],
        rule con_only_trans [OF _ con_only_print(1)], rule con_only_print(1))
  then show "mem (vmm_init s) = store64 (mem s) (kernel_address_space s) (cr3 s)" "kernel_address_space (vmm_init s) = kernel_address_space s"
    "bitmap (vmm_init s) = bitmap s" "bitmap_size (vmm_init s) = bitmap_size s" "total_pages (vmm_init s) = total_pages s"
    "free_pages (vmm_init s) = free_pages s" by (auto simp: con_only_def)
qed

lemma vmm_init_inv:
  fixes s :: "'a vmm_scheme"
  defines "as \<equiv> kernel_address_space s"
  assumes ar: "arena b (4 + dirs mx)" and bt: "built b (4 + dirs mx) m (4 + dirs mx) (window_entries b mx) (mem s)"
    and d: "dirs mx \<le> 512"
    and pi: "pmm_inv s" and tp: "unat (total_pages s) \<le> 2 ^ 40" and cr3: "cr3 s = b"
    and fr: "\<forall>k < 4 + dirs mx. kframe s (nth_table b k)"
    and out: "region as 8 \<inter> bitmap_region s = {}" "\<forall>n \<in> free_set s. region as 8 \<inter> frame_region n = {}"
      "region as 8 \<inter> region b (4096 * (4 + dirs mx)) = {}"
  shows "vm_inv (vmm_init s) {as}" and "pml4_of (vmm_init s) as = b" and "free_set (vmm_init s) = free_set s"
    and "built b (4 + dirs mx) (mem (vmm_init s)) (4 + dirs mx) (window_entries b mx) (mem (vmm_init s))"
proof -
  let ?t = "vmm_init s"
  have mem: "mem ?t a = mem s a" if "a \<notin> region as 8" for a
    using that by (simp add: vmm_init_mem as_def store64_apply_out)
  show b': "built b (4 + dirs mx) (mem ?t) (4 + dirs mx) (window_entries b mx) (mem ?t)"
    by (rule built_agree [OF ar bt]) (use mem out(3) in blast)
  show p: "pml4_of ?t as = b" by (simp add: pml4_of_def vmm_init_mem as_def cr3)
  have "free_set (s\<lparr>mem := mem ?t\<rparr>) = free_set s"
    by (intro pmm_mem_update pmm_inv_geom pi) (use mem out(1) in blast)
  then show fs: "free_set ?t = free_set s" by (simp add: free_set_def page_used_def vmm_init_mem)
  have pi': "pmm_inv ?t" using pi unfolding pmm_inv_def bitmap_region_def fs vmm_init_mem .
  have kf: "kframe ?t t" if "kframe s t" for t
    using that fs by (simp add: kframe_def bitmap_region_def vmm_init_mem)
  have r: "roots ?t {as} = {b}" by (simp add: roots_def p)
  note at = window_table_at [OF ar b' d]
  have "p = q" if pq: "table_at (mem ?t) b p t" "table_at (mem ?t) b q t" for p q t
  proof -
    obtain l k where l: "window_path (dirs mx) p = Some l" "t = nth_table b l"
      "window_path (dirs mx) q = Some k" "t = nth_table b k" using at [OF pq(1)] at [OF pq(2)] by blast
    then have "l = k" using nth_table_eq [OF ar window_path_bound [OF l(1)] window_path_bound [OF l(3)]] by simp
    then show ?thesis using l window_path_inj by blast
  qed
  then have "unique_paths (mem ?t) {b}" unfolding unique_paths_def by blast
  moreover have tabs: "kframe ?t t \<and> table_ok (mem ?t) p t \<and> region as 8 \<inter> region t 4096 = {}"
    if pt: "table_at (mem ?t) b p t" for p t
  proof -
    obtain l where l: "window_path (dirs mx) p = Some l" "t = nth_table b l" using at [OF pt] by blast
    note k = window_path_bound [OF l(1)]
    show ?thesis unfolding l(2) using window_tables(2) [OF ar b' d l(1)] fr kf k nth_table_sub [OF ar k] out(3) by blast
  qed
  moreover have "space_ok ?t {b} as"
    using out(1,2) tabs unfolding space_ok_def fs bitmap_region_def vmm_init_mem by blast
  ultimately show "vm_inv ?t {as}" using pi' tp unfolding vm_inv_def r by (simp add: vmm_init_mem)
qed

section \<open>What the frame allocator's initialiser leaves alone\<close>

lemma mem_only_fold:
  assumes "\<And>x t. mem_only t (f x t)"
  shows "mem_only s (fold f xs s)"
  by (induction xs arbitrary: s) (auto intro: mem_only_trans assms)

lemma mem_only_range: "(\<And>x t. mem_only t (f x t)) \<Longrightarrow> mem_only s (for_range a b f s)"
  unfolding for_range_fold by (rule mem_only_fold)

lemma mem_only_for_dyn:
  assumes "\<And>x t. mem_only t (f x t)"
  shows "mem_only s (for_dyn i n f s)"
  using assms
proof (induction i n f s rule: for_dyn.induct)
  case (1 i n f s)
  then have "mem_only s (for_dyn (i + 1) n f (f i s))" if "i < n s" using that mem_only_trans by blast
  then show ?case by (subst for_dyn.simps) simp
qed

lemma mem_only_reserve: "mem_only s (reserve_page p s)" "mem_only s (reserve_range a n s)" "mem_only s (pmm_reserve_desc d s)"
proof -
  show r: "mem_only s (reserve_page p s)" for p and s :: "'a pmm_scheme"
    by (simp add: reserve_page_def bitmap_set_def Let_def)
  show q: "mem_only s (reserve_range a n s)" for a n by (simp add: reserve_range_def Let_def mem_only_range r)
  show "mem_only s (pmm_reserve_desc d s)" by (simp add: pmm_reserve_desc_def q)
qed

lemma mem_only_reserve_fixed: "mem_only s (pmm_reserve_fixed ke bi s)"
  unfolding pmm_reserve_fixed_def Let_def
  by (intro mem_only_trans [OF _ mem_only_reserve(2)] mem_only_trans [OF _ mem_only_range] mem_only_trans [OF _ mem_only_reserve(1)]
      mem_only_range mem_only_reserve(1))

lemma pmm_init_only:
  assumes "mmap_offsets 0 (memory_map_size bi) (memory_map_descriptor_size bi) = Some offs"
    and "tp = pmm_max_addr (mem s) (memory_map bi) offs div PAGE_SIZE" and "pmm_init ke bi s = Ok () t"
  shows "\<exists>u. mem_only (s\<lparr>total_pages := tp, bitmap_size := (tp + 7) div 8, bitmap := paging_arena_end s\<rparr>) u \<and> con_only u t"
proof -
  let ?s1 = "s\<lparr>total_pages := tp, bitmap_size := (tp + 7) div 8, bitmap := paging_arena_end s\<rparr>"
  define s2 where "s2 = for_range 0 (bitmap_size ?s1) (\<lambda>i t. t\<lparr>mem := (mem t)(bitmap t + i := 0xFF)\<rparr>) ?s1"
  define s4 where "s4 = fold (\<lambda>off. pmm_free_desc (memory_map bi + off)) offs (s2\<lparr>free_pages := 0\<rparr>)"
  define s6 where "s6 = fold (\<lambda>off. pmm_reserve_desc (memory_map bi + off)) offs (pmm_reserve_fixed ke bi s4)"
  have f: "mem_only t (pmm_free_desc d t)" for d and t :: "'a pmm_scheme"
    by (simp add: pmm_free_desc_def bitmap_clear_def Let_def mem_only_for_dyn)
  have 1: "mem_only ?s1 s2" unfolding s2_def by (rule mem_only_range) simp
  have 2: "mem_only s2 (s2\<lparr>free_pages := 0\<rparr>)" using mem_only_mem(2) [where s = s2 and m = "mem s2" and f = 0] by simp
  have 3: "mem_only (s2\<lparr>free_pages := 0\<rparr>) s4" unfolding s4_def by (rule mem_only_fold) (rule f)
  have 4: "mem_only (pmm_reserve_fixed ke bi s4) s6" unfolding s6_def by (rule mem_only_fold) (rule mem_only_reserve(3))
  have "mem_only ?s1 s6"
    by (rule mem_only_trans [OF 1 mem_only_trans [OF 2 mem_only_trans [OF 3 mem_only_trans [OF mem_only_reserve_fixed 4]]]])
  moreover have "con_only s6 t"
  proof -
    have t: "t = pmm_report ke s6" using assms by (simp add: pmm_init_def Let_def s6_def s4_def s2_def)
    show ?thesis unfolding t pmm_report_def Let_def
      by ((rule con_only_trans [OF _ con_only_print(1)] con_only_trans [OF _ con_only_print(2)]
          con_only_trans [OF _ con_only_print(3)])+, rule con_only_refl)
  qed
  ultimately show ?thesis by blast
qed

lemma pmm_init_fields:
  fixes s t :: "'a vmm_scheme"
  assumes "mmap_offsets 0 (memory_map_size bi) (memory_map_descriptor_size bi) = Some offs"
    and "tp = pmm_max_addr (mem s) (memory_map bi) offs div PAGE_SIZE" and "pmm_init ke bi s = Ok () t"
  shows "total_pages t = tp" "bitmap_region t = region (paging_arena_end s) (unat ((tp + 7) div 8))"
    "cr3 t = cr3 s" "kernel_address_space t = kernel_address_space s"
  using pmm_init_only [OF assms] by (auto simp: mem_only_def con_only_def bitmap_region_def)

section \<open>The firmware's memory map is read twice\<close>

lemma descs_cong:
  assumes "\<forall>off \<in> set offs. \<forall>x \<in> region (mmap + off) 32. m x = m' x"
  shows "pmm_max_addr m mmap offs = pmm_max_addr m' mmap offs" "conventional m mmap offs = conventional m' mmap offs"
    "firmware_frames m mmap offs = firmware_frames m' mmap offs" "mmap_ok m mmap offs \<Longrightarrow> mmap_ok m' mmap offs"
proof -
  have e: "desc_Type m (mmap + off) = desc_Type m' (mmap + off)"
    "desc_PhysicalStart m (mmap + off) = desc_PhysicalStart m' (mmap + off)"
    "desc_NumberOfPages m (mmap + off) = desc_NumberOfPages m' (mmap + off)" if "off \<in> set offs" for off
    using desc_cong [of "mmap + off" m m'] assms that by simp_all
  show "pmm_max_addr m mmap offs = pmm_max_addr m' mmap offs"
    unfolding pmm_max_addr_def Let_def by (rule fold_cong) (auto simp: e fun_eq_iff)
  have f: "desc_frames m (mmap + off) = desc_frames m' (mmap + off)" "desc_fits m (mmap + off) = desc_fits m' (mmap + off)"
    if "off \<in> set offs" for off using e [OF that] by (simp_all add: desc_frames_def desc_fits_def)
  show "conventional m mmap offs = conventional m' mmap offs" using e(1) f(1) by (auto simp: conventional_def)
  show "firmware_frames m mmap offs = firmware_frames m' mmap offs" using e by (auto simp: firmware_frames_def)
  show "mmap_ok m' mmap offs" if "mmap_ok m mmap offs"
    using that e(1) f unfolding mmap_ok_def by (auto elim!: sorted_wrt_mono_rel [rotated])
qed

section \<open>Paging and the frame allocator together\<close>

lemma descriptor_inits_keep:
  fixes s :: "'a desc_scheme"
  shows "mem (tss_init lk (gdt_init lk s)) = mem s" "cr3 (tss_init lk (gdt_init lk s)) = cr3 s"
    "kernel_address_space (tss_init lk (gdt_init lk s)) = kernel_address_space s"
    "paging_arena_end (tss_init lk (gdt_init lk s)) = paging_arena_end s"
  by (simp_all add: tss_init_def gdt_init_def Let_def gdt_set_entry_def gdt_set_tss_def)

lemma round_up_frame:
  assumes "b = (x + PAGE_SIZE - 1) AND NOT (PAGE_SIZE - 1)"
  shows "unat ((x + PAGE_SIZE - 1) div PAGE_SIZE) = unat b div 4096"
proof -
  have m: "PAGE_SIZE - 1 = (mask 12 :: u64)" by (simp add: mask_eq_exp_minus_1)
  have "unat b = unat (x + PAGE_SIZE - 1) - unat (x + PAGE_SIZE - 1) mod 2 ^ 12"
    unfolding assms m by (rule and_not_mask_dvd)
  then have "unat b = unat (x + PAGE_SIZE - 1) div 2 ^ 12 * 2 ^ 12" by (simp add: minus_mod_eq_div_mult)
  then show ?thesis by (simp add: unat_div)
qed

lemma arena_kframe:
  fixes t :: "'a pmm_scheme"
  assumes ar: "arena b K" and b0: "b \<noteq> 0" and k: "k < K" and tp: "unat b + 4096 * K \<le> 4096 * unat (total_pages t)"
    and bm: "bitmap_region t = region (nth_table b K) n" and n: "unat b + 4096 * K + n \<le> 2 ^ 64"
    and fr: "free_set t \<inter> {unat b div 4096..<(unat b + 4096 * K) div 4096} = {}"
  shows "kframe t (nth_table b k)"
proof -
  obtain q where q: "unat b = 4096 * q" using ar by (auto simp: arena_def aligned_def elim: dvdE)
  have q0: "0 < q" using q b0 by (cases q) (simp_all add: unat_eq_zero)
  have le: "4096 * q + 4096 * K \<le> 2 ^ 52" using ar q by (simp add: arena_def)
  have u: "unat (nth_table b k) = 4096 * (q + k)" using nth_table_addr(1) [OF ar k] q by simp
  then have p: "nth_table b k = page_addr (q + k)"
    using le k by (simp add: word_unat_eq_iff page_addr_def unat_word_ariths unat_of_nat)
  have "frame_region (q + k) \<inter> region (nth_table b K) n = {}"
    unfolding frame_region_def p [symmetric]
    using u nth_table_end [OF ar] n q k le by (intro region_disjoint) simp_all
  moreover have "q + k \<in> {unat b div 4096..<(unat b + 4096 * K) div 4096}" using q k by simp
  then have "q + k \<notin> free_set t" using fr by blast
  moreover have "q + k < unat (total_pages t)" using tp q k by simp
  ultimately show ?thesis unfolding kframe_def bm using p q0 by (intro exI [of _ "q + k"]) simp
qed

lemma free_below:
  assumes "n \<in> free_set t" and "unat (total_pages t) \<le> 2 ^ 40" and "2 ^ 52 \<le> unat a" and "unat a + 8 \<le> 2 ^ 64"
  shows "region a 8 \<inter> frame_region n = {}"
proof -
  have "n < 2 ^ 40" using assms(1,2) by (simp add: free_set_def)
  then have "unat (page_addr n) = 4096 * n" by (simp add: unat_page_addr)
  then show ?thesis unfolding frame_region_def using assms(3,4) \<open>n < 2 ^ 40\<close> by (intro region_disjoint) simp_all
qed

lemma startup_runs:
  fixes s :: "'a desc_scheme"
  assumes "mmap_offsets 0 (memory_map_size bi) (memory_map_descriptor_size bi) = Some offs"
    and "mmap_ok (mem s) (memory_map bi) offs"
    and "b = (kernel_end_phys kernel_end + PAGE_SIZE - 1) AND NOT (PAGE_SIZE - 1)" and "b \<noteq> 0"
    and "mx = identity_top bi (ram_top (mem s) (memory_map bi) offs)" and "mx \<le> 0x8000000000"
    and "tp = pmm_max_addr (mem s) (memory_map bi) offs div PAGE_SIZE" and "unat tp \<le> 2 ^ 39"
    and "unat b + 4096 * (4 + dirs mx) \<le> 4096 * unat tp"
    and "\<forall>off \<in> set offs. region (memory_map bi + off) 32 \<inter>
      region b (4096 * (4 + dirs mx) + unat ((tp + 7) div 8)) = {}"
  shows "\<exists>t. kbind (paging_init kernel_end bi s) (\<lambda>_ s. pmm_init kernel_end bi (tss_init lk (gdt_init lk s))) = Ok () t \<and>
    pmm_inv t \<and> free_set t = conventional (mem s) (memory_map bi) offs
      - fixed_frames kernel_end bi (nth_table b (4 + dirs mx)) ((tp + 7) div 8)
      - firmware_frames (mem s) (memory_map bi) offs \<and>
    built b (4 + dirs mx) (mem t) (4 + dirs mx) (window_entries b mx) (mem t) \<and>
    total_pages t = tp \<and> bitmap_region t = region (nth_table b (4 + dirs mx)) (unat ((tp + 7) div 8)) \<and>
    cr3 t = b \<and> kernel_address_space t = kernel_address_space s"
proof -
  let ?K = "4 + dirs mx" and ?bsz = "(tp + 7) div 8"
  let ?e = "nth_table b ?K"
  have tp8: "unat ?bsz \<le> 2 ^ 37" using assms(8) by (simp add: unat_div unat_word_ariths)
  have big: "unat b + 4096 * ?K \<le> 2 ^ 51" using assms(8,9) by simp
  have ar: "arena b ?K" using big aligned_round unfolding arena_def assms(3) by fastforce
  have ue: "unat ?e = unat b + 4096 * ?K" by (rule nth_table_end [OF ar])
  have sub: "region b (4096 * ?K) \<subseteq> region b (4096 * ?K + unat ?bsz)" "region ?e (unat ?bsz) \<subseteq> region b (4096 * ?K + unat ?bsz)"
    using ue big tp8 by (subst (1 2) region_interval; fastforce)+
  have d1: "\<forall>off \<in> set offs. region (memory_map bi + off) 32 \<inter> region b (4096 * ?K) = {}"
    "\<forall>off \<in> set offs. region (memory_map bi + off) 32 \<inter> region ?e (unat ?bsz) = {}"
    using assms(10) sub by blast+
  have b52: "unat b + 4096 * ?K \<le> 2 ^ 52" using big by simp
  obtain u where u: "paging_init kernel_end bi s = Ok () u" "cr3 u = b" "paging_arena_end u = ?e"
      "kernel_address_space u = kernel_address_space s"
    and bu: "built b ?K (mem s) ?K (window_entries b mx) (mem u)"
    using paging_init_built [OF assms(1,3,5,6) b52 d1(1)] by blast
  have same: "\<forall>off \<in> set offs. \<forall>x \<in> region (memory_map bi + off) 32. mem s x = mem u x"
    using bu d1(1) unfolding built_def by (metis disjoint_iff)
  note cg = descs_cong [OF same]
  let ?u = "tss_init lk (gdt_init lk u)"
  note k = descriptor_inits_keep [of lk u]
  have ok: "mmap_ok (mem ?u) (memory_map bi) offs" unfolding k by (rule cg(4) [OF assms(2)])
  have tpu: "tp = pmm_max_addr (mem ?u) (memory_map bi) offs div PAGE_SIZE" unfolding k cg(1) [symmetric] by (rule assms(7))
  have fit: "unat (paging_arena_end ?u) + unat ?bsz + 4096 \<le> 2 ^ 64" unfolding k u(3) ue using big tp8 by simp
  have bz: "?bsz = (pmm_max_addr (mem ?u) (memory_map bi) offs div PAGE_SIZE + 7) div 8" unfolding tpu [symmetric] ..
  have out: "\<forall>off \<in> set offs. region (memory_map bi + off) 32 \<inter> region (paging_arena_end ?u) (unat ?bsz) = {}"
    unfolding k u(3) by (rule d1(2))
  obtain t where t: "pmm_init kernel_end bi ?u = Ok () t" "pmm_inv t"
    and t': "free_set t = conventional (mem ?u) (memory_map bi) offs - fixed_frames kernel_end bi (paging_arena_end ?u) ?bsz
      - firmware_frames (mem ?u) (memory_map bi) offs"
      "\<forall>x. x \<notin> region (paging_arena_end ?u) (unat ?bsz) \<longrightarrow> mem t x = mem ?u x"
    by (rule pmm_init_spec [OF assms(1) ok bz fit out])
  note ft = t'(1) [unfolded k u(3) cg(2,3) [symmetric]] and mt = t'(2) [unfolded k u(3)]
  note fl = pmm_init_fields [OF assms(1) tpu t(1), unfolded k u]
  have "region b (4096 * ?K) \<inter> region ?e (unat ?bsz) = {}" using ue big tp8 by (intro region_disjoint) simp_all
  then have bt: "built b ?K (mem t) ?K (window_entries b mx) (mem t)" using mt by (intro built_agree [OF ar bu]) blast
  show ?thesis using u(1) t ft bt fl by (intro exI [of _ t]) simp
qed

text \<open>
  C6: The first two steps of the kernel's memory start-up, the page tables and (after the descriptor tables)
  the frame allocator, end normally, and recording the active tables as the kernel's address space then
  establishes the invariant of the virtual-memory manager: every table is a used frame with one path, outside of the
  bitmap and of every free frame. The free frames are the conventional frames that no reservation covers, and the
  address space has the identity window up to the end of memory and the kernel window, nothing else. The memory
  map lies outside of the tables and the bitmap, the tables fit below the end of memory, and the
  kernel's own structure lies in the upper half.
\<close>

theorem memory_startup_correct:
  fixes s :: "'a desc_scheme"
  assumes "mmap_offsets 0 (memory_map_size bi) (memory_map_descriptor_size bi) = Some offs"
    and "mmap_ok (mem s) (memory_map bi) offs"
    and "b = (kernel_end_phys kernel_end + PAGE_SIZE - 1) AND NOT (PAGE_SIZE - 1)" and "b \<noteq> 0"
    and "mx = identity_top bi (ram_top (mem s) (memory_map bi) offs)" and "mx \<le> 0x8000000000"
    and "tp = pmm_max_addr (mem s) (memory_map bi) offs div PAGE_SIZE" and "unat tp \<le> 2 ^ 39"
    and "unat b + 4096 * (4 + dirs mx) \<le> 4096 * unat tp"
    and "\<forall>off \<in> set offs. region (memory_map bi + off) 32 \<inter>
      region b (4096 * (4 + dirs mx) + unat ((tp + 7) div 8)) = {}"
    and "2 ^ 52 \<le> unat (kernel_address_space s)" and "unat (kernel_address_space s) + 8 \<le> 2 ^ 64"
  shows "\<exists>t. kbind (paging_init kernel_end bi s) (\<lambda>_ s. pmm_init kernel_end bi (tss_init lk (gdt_init lk s))) = Ok () t \<and>
    vm_inv (vmm_init t) {kernel_address_space s} \<and>
    free_set (vmm_init t) = conventional (mem s) (memory_map bi) offs
      - fixed_frames kernel_end bi (nth_table b (4 + dirs mx)) ((tp + 7) div 8)
      - firmware_frames (mem s) (memory_map bi) offs \<and>
    (\<forall>v. canonical v \<longrightarrow> translate (mem (vmm_init t)) (pml4_of (vmm_init t) (kernel_address_space s)) v =
      (if v < mx then Some v else if kernel_window v then Some (v - 0xFFFFFFFF80000000) else None))"
proof -
  let ?K = "4 + dirs mx" and ?bsz = "(tp + 7) div 8"
  let ?e = "nth_table b ?K"
  have tp8: "unat ?bsz \<le> 2 ^ 37" using assms(8) by (simp add: unat_div unat_word_ariths)
  have big: "unat b + 4096 * ?K \<le> 2 ^ 51" using assms(8,9) by simp
  have ar: "arena b ?K" using big aligned_round unfolding arena_def assms(3) by fastforce
  have ue: "unat ?e = unat b + 4096 * ?K" by (rule nth_table_end [OF ar])
  obtain t where t: "kbind (paging_init kernel_end bi s) (\<lambda>_ s. pmm_init kernel_end bi (tss_init lk (gdt_init lk s))) = Ok () t"
      "pmm_inv t" and bt: "built b ?K (mem t) ?K (window_entries b mx) (mem t)"
    and ft: "free_set t = conventional (mem s) (memory_map bi) offs - fixed_frames kernel_end bi ?e ?bsz
      - firmware_frames (mem s) (memory_map bi) offs"
    and fl: "total_pages t = tp" "bitmap_region t = region ?e (unat ?bsz)" "cr3 t = b" "kernel_address_space t = kernel_address_space s"
    using startup_runs [OF assms(1-10)] by blast
  have e4: "unat (?e div PAGE_SIZE) = (unat b + 4096 * ?K) div 4096" by (simp only: unat_div ue) simp
  have "{unat b div 4096..<(unat b + 4096 * ?K) div 4096} \<subseteq> fixed_frames kernel_end bi ?e ?bsz"
    unfolding fixed_frames_def Let_def round_up_frame [OF assms(3)] e4 by blast
  then have nf: "free_set t \<inter> {unat b div 4096..<(unat b + 4096 * ?K) div 4096} = {}" unfolding ft by blast
  have fr: "\<forall>n < ?K. kframe t (nth_table b n)"
    using assms(4,9) big tp8 fl nf by (intro allI impI arena_kframe [OF ar _ _ _ fl(2) _ nf]) simp_all
  have tp40: "unat (total_pages t) \<le> 2 ^ 40" unfolding fl(1) using assms(8) by simp
  have "unat mx \<le> 2 ^ 39" using assms(6) by (simp add: word_le_nat_alt)
  then have d: "dirs mx \<le> 512" by (simp add: not_less [symmetric] dirs_less)
  have o1: "region (kernel_address_space t) 8 \<inter> bitmap_region t = {}"
    unfolding fl using assms(11,12) ue big tp8 by (intro region_disjoint) simp_all
  have o2: "\<forall>n \<in> free_set t. region (kernel_address_space t) 8 \<inter> frame_region n = {}"
    unfolding fl using free_below [OF _ tp40 assms(11,12)] by blast
  have o3: "region (kernel_address_space t) 8 \<inter> region b (4096 * ?K) = {}"
    unfolding fl using assms(11,12) big by (intro region_disjoint) simp_all
  note v = vmm_init_inv [OF ar bt d t(2) tp40 fl(3) fr o1 o2 o3, unfolded fl(4)]
  have "translate (mem (vmm_init t)) b v =
      (if v < mx then Some v else if kernel_window v then Some (v - 0xFFFFFFFF80000000) else None)" if "canonical v" for v
    using window_translate [OF ar v(4) _ assms(6) that] identity_top_dvd unfolding assms(5) by blast
  then show ?thesis using t(1) v(1-3) ft by (intro exI [of _ t]) simp
qed

lemma example_mmap_ok: "mmap_ok example_mem 0x300000 [0]"
  by (simp add: mmap_ok_def desc_fits_def example_desc)

theorem memory_startup_correct_witness:
  "\<forall>(s :: desc) (lk :: symbols). \<exists>t. kbind (paging_init 0xFFFFFFFF80020000 example_boot (s\<lparr>mem := example_mem, kernel_address_space := 0xFFFFFFFF8001F000\<rparr>))
      (\<lambda>_ s. pmm_init 0xFFFFFFFF80020000 example_boot (tss_init lk (gdt_init lk s))) = Ok () t \<and>
    vm_inv (vmm_init t) {0xFFFFFFFF8001F000}"
proof (intro allI)
  fix s :: desc and lk :: symbols
  have d: "dirs 0x100000000 = 4" by (simp add: dirs_def)
  have "\<forall>off \<in> set [0]. region (0x300000 + off) 32 \<inter> region 0x120000 (4096 * (4 + 4) + 160) = {}"
    using region_disjoint [where a = "0x300000" and n = 32 and b = "0x120000" and k = 32928] by simp
  then show "\<exists>t. kbind (paging_init 0xFFFFFFFF80020000 example_boot (s\<lparr>mem := example_mem, kernel_address_space := 0xFFFFFFFF8001F000\<rparr>))
      (\<lambda>_ s. pmm_init 0xFFFFFFFF80020000 example_boot (tss_init lk (gdt_init lk s))) = Ok () t \<and>
    vm_inv (vmm_init t) {0xFFFFFFFF8001F000}"
    using memory_startup_correct [where bi = example_boot and offs = "[0]" and b = "0x120000" and mx = "0x100000000"
        and kernel_end = "0xFFFFFFFF80020000" and tp = "0x500"
        and s = "s\<lparr>mem := example_mem, kernel_address_space := 0xFFFFFFFF8001F000\<rparr>" and lk = lk]
    by (auto simp: example_identity_top example_mmap_ok d example_boot_fields example_offsets kernel_end_phys_def KERNEL_VIRT_BASE_def
        KERNEL_PHYS_BASE_def pmm_max_addr_def example_desc)
qed

section \<open>The heap\<close>

lemma heap_frames_page: "heap_frames PAGE_SIZE = 2"
  by (simp add: heap_frames_def align_up_def)

lemma heap_run_iff: "free_run s i (heap_frames PAGE_SIZE) \<longleftrightarrow> i \<in> free_set s \<and> Suc i \<in> free_set s"
proof -
  have "{i..<i + 2} = {i, Suc i}" by auto
  then show ?thesis by (simp add: free_run_def heap_frames_page)
qed

lemma heap_inv_ready: "heap_inv (s\<lparr>heap_ready := r\<rparr>) bs = heap_inv s bs"
  by (simp add: heap_inv_def pmm_inv_def heap_owned_def free_set_def page_used_def bitmap_region_def)

text \<open>
  C16: Over a frame allocator that satisfies its invariant and with no heap yet, initialising the heap ends
  normally when two adjacent frames are free: the heap is then ready, satisfies its invariant, and is one free
  block of at least a page. Otherwise the kernel stops with the message that the
  first allocation failed, with nothing changed.
\<close>

theorem kmalloc_init_correct:
  fixes s :: "'a heap_scheme"
  assumes "pmm_inv s" and "heap_head s = 0" and "\<not> heap_ready s"
  shows "if \<exists>i. i \<in> free_set s \<and> Suc i \<in> free_set s
    then \<exists>t b. kmalloc_init s = Ok () t \<and> heap_ready t \<and> heap_inv t [b] \<and> blk_free (mem t) b \<and> PAGE_SIZE \<le> blk_size (mem t) b
    else kmalloc_init s = Panic ''kmalloc: initial heap allocation failed'' s"
proof -
  have inv: "heap_inv s []" using assms(1,2) by (simp add: heap_inv_def blocks_ok_def)
  have z: "0 \<notin> free_set s" using assms(1) by (simp add: pmm_inv_def)
  have sz: "unat (PAGE_SIZE :: u64) + 4128 \<le> 2 ^ 64" by simp
  have ex: "(\<exists>i. i \<in> free_set s \<and> Suc i \<in> free_set s) \<longleftrightarrow> (\<exists>i \<ge> 1. free_run s i (heap_frames PAGE_SIZE))"
    unfolding heap_run_iff using z by (metis One_nat_def Suc_leI neq0_conv)
  show ?thesis
  proof (cases rule: expand_heap_cases [OF inv sz])
    case 1
    then show ?thesis using assms(3) unfolding ex by (simp add: kmalloc_init_def kassert_def)
  next
    case some: (2 b t)
    have "\<exists>i \<ge> 1. free_run s i (heap_frames PAGE_SIZE)"
    proof (rule ccontr)
      assume n: "\<not> ?thesis"
      have "pmm_alloc_pages (align_up (PAGE_SIZE + 32) 4096 div 4096) s = (0, s)"
        using n by (intro pmm_alloc_pages_spec(2) [OF assms(1)]) (simp_all add: heap_frames_def align_up_def)
      then have "expand_heap PAGE_SIZE s = Ok 0 s" by (simp add: expand_heap_def Let_def)
      then show False using some(1,2) by simp
    qed
    moreover have "kmalloc_init s = Ok () (t\<lparr>heap_ready := True\<rparr>)"
      using some(1,2) assms(3) by (simp add: kmalloc_init_def kassert_def)
    ultimately show ?thesis unfolding ex using some(4-6) heap_inv_ready [where s = t and r = True and bs = "[b]"]
      by (auto intro!: exI [of _ "t\<lparr>heap_ready := True\<rparr>"] exI [of _ b])
  qed
qed

theorem kmalloc_init_correct_witness:
  "\<exists>t b. kmalloc_init (example_heap\<lparr>heap_ready := False\<rparr>) = Ok () t \<and> heap_ready t \<and> heap_inv t [b]"
proof -
  let ?s = "example_heap\<lparr>heap_ready := False\<rparr>"
  have p: "pmm_inv ?s" using example_heap_inv(1) heap_inv_ready [where s = example_heap and r = False and bs = "[]"] by (simp add: heap_inv_def)
  have "free_set ?s = free_set example_heap" by (simp add: free_set_def page_used_def)
  then have f: "\<exists>i. i \<in> free_set ?s \<and> Suc i \<in> free_set ?s" unfolding example_heap_inv(2) by (intro exI [of _ 3]) simp
  have h: "heap_head ?s = 0" "\<not> heap_ready ?s" by (simp_all add: example_heap_def vmm.extend_def)
  show ?thesis using kmalloc_init_correct [OF p h] f by auto
qed

end
