(* ===== verification/Spec2Isabelle.thy ===== *)
theory Spec2Isabelle
  imports Kernel Boot User Elf Lifecycle Startup
begin

text \<open>
  A verification of sam-os, an x86_64 kernel with a UEFI loader, by a shallow embedding of its C code.

  \<^bold>\<open>The program.\<close> The loader (\<^verbatim>\<open>boot/bootloader.c\<close>) reads the kernel image, builds page tables and
  jumps to \<^verbatim>\<open>kernel_main\<close> (\<^verbatim>\<open>kernel/kernel.c\<close>), which initialises the console, the descriptor tables,
  the interrupt controllers, its own page tables (\<^verbatim>\<open>paging.c\<close>), the frame allocator (\<^verbatim>\<open>pmm.c\<close>), the
  address spaces (\<^verbatim>\<open>vmm.c\<close>) and the heap (\<^verbatim>\<open>kmalloc.c\<close>), reads the ACPI tables, and starts the tasks.
  From there interrupts drive it: the timer calls the scheduler (\<^verbatim>\<open>scheduler/task.c\<close>), the keyboard fills a
  buffer that wakes the shell (\<^verbatim>\<open>shell.c\<close>), and user programs call \<^verbatim>\<open>syscall.c\<close> by \<^verbatim>\<open>int 0x80\<close>.

  \<^bold>\<open>State.\<close> The state is one record that each component extends by its statics, in the order io, con,
  pmm, vmm, heap, sched, proc, acpi, irq, kbd, paging, desc, pan, shell, kernel; an operation is polymorphic
  in the extension, so it cannot touch what comes later. Memory is one byte array, so page tables, heap
  headers, stacks and images alias as they do on the machine. Machine integers have their width. An
  operation that can panic or loop returns an outcome: \<open>Ok\<close> with value and state, \<open>Panic\<close> with the message
  and the state in which the machine halts, or \<open>Hang\<close>. Counted loops are \<open>for_range\<close> and its variants, with
  their termination proved; polling loops are partial functions whose missing result is \<open>Hang\<close>. The only
  bound that is not in the code is the number of rounds of the endless loop of the shell.

  \<^bold>\<open>Parameters.\<close> Devices are functions of the log of port and register accesses; UEFI services are
  functions of the firmware's state; addresses of the linker, the linked-in user images and the trap
  \<^verbatim>\<open>int 0x20\<close> are arguments. What a theorem needs of them is a hypothesis with a witness.

  \<^bold>\<open>Theories.\<close>
  \<^item> Prelude, Interfaces: outcomes, loops and windows of rings; the contracts of a recent-lines log, a
    frame allocator and a bounded queue, each interpreted on the code's definitions.
  \<^item> Io, Physmem: port, register and memory access (\<^verbatim>\<open>io.h\<close>, \<^verbatim>\<open>mmio.h\<close>).
  \<^item> Console, Display: printing, serial port and kernel log (\<^verbatim>\<open>display.c\<close>, \<^verbatim>\<open>serial.c\<close>, \<^verbatim>\<open>klog.c\<close>); the
    pixels. The ring holds the last 64 lines; drawing stays in the shadow buffer, marks what it changes, and
    a flush makes the framebuffer equal to it.
  \<^item> Pmm: the allocator hands out the lowest free frame or run, never one twice, and initialisation frees
    exactly the conventional memory that nothing reserves.
  \<^item> Mmu, Tables, Vmm: the walk of the processor; mapping, unmapping and creating an address space change
    exactly the translations they should; tables of large pages.
  \<^item> Kheap: blocks in use never overlap, keep their contents, and freeing merges free neighbours.
  \<^item> Tasks, ProcTable, Sched, Proc, Syscall: round robin reaches every ready task within sixteen switches;
    a context switch saves and resumes; system calls accept only ranges the user can access and report each
    error.
  \<^item> Pages, Elf, Lifecycle: mapping keeps all data; the loader of \<^verbatim>\<open>process.c\<close> gives a program exactly
    the bytes of its image; the process table is a map from process numbers to states under every sequence
    of its operations.
  \<^item> Acpi, Irq, Keyboard, Rtc: table parsing stays in bounds and ends; switching to the APIC succeeds or
    leaves the PIC as it was; the keyboard buffer is a queue; the clock's formats decode.
  \<^item> Paging, Desc, Trap, Panic: the kernel's first page tables, descriptor tables, interrupt entry and the
    panic; the gates lead where they should and device interrupts are transparent.
  \<^item> WindowMap, Startup: the tables of \<^verbatim>\<open>paging_init\<close> translate exactly the identity window and the kernel
    window; they and the frame allocator of \<^verbatim>\<open>pmm_init\<close> establish the invariant that the theorems on
    address spaces start from, and \<^verbatim>\<open>kmalloc_init\<close> that of the heap.
  \<^item> Shell, Kernel: line editor, history, commands; the boot sequence and its self tests.
  \<^item> User: the system-call wrappers and the two programs of \<^verbatim>\<open>user/\<close> as sequences of calls; a call
    through the gate returns its result in rax and keeps the other registers.
  \<^item> Boot: the loader and the translation its tables give.

  \<^bold>\<open>Not modelled.\<close> The TLB, caches and timing of devices; \<^verbatim>\<open>boot.S\<close> and the unused entry
  \<^verbatim>\<open>syscall_entry.S\<close>; the single instructions of user programs, which appear as their system calls; files
  ending in \<^verbatim>\<open>.old\<close> and code in comments. Printing in the kernel is recorded as the sequence of characters;
  the theory Display says what these characters do to memory. Interrupts do not interleave with the C code
  of a routine: they are steps between operations, and the theorem on the lost wake-up of the shell shows an
  interleaving that matters.
\<close>

end
